(* ===== verification/Prelude.thy ===== *)
theory Prelude
  imports Main "HOL-Library.Word"
begin

unbundle bit_operations_syntax

text \<open>
  Shared vocabulary of the development: the machine types of the C sources, the faults a C
  statement can end in, block copies with their bounds, and the ring arithmetic that the
  circular buffers of the library (\<open>accumulator.h\<close>, \<open>log_buffer.c\<close>, \<open>ring_buffer.c\<close>,
  \<open>ts_queue.h\<close>) have in common.
\<close>

named_theorems res_simps \<open>rewrite rules of the fault monad\<close>
named_theorems ring_simps \<open>rewrite rules for slices of a circular buffer\<close>

section \<open>Machine types\<close>

type_synonym u8 = "8 word"
type_synonym u16 = "16 word"
type_synonym u32 = "32 word"
type_synonym u64 = "64 word"

text \<open>
  An object is named by its address. Address 0 is the null pointer of C; a pointer test
  \<open>if (p)\<close> is \<open>p \<noteq> NULL\<close>.
\<close>

type_synonym addr = nat

abbreviation (input) NULL :: addr where
  "NULL \<equiv> 0"

text \<open>\<open>WAIT_FOREVER\<close> and \<open>NO_SLEEP\<close> of \<open>os_types.h\<close>.\<close>

definition WAIT_FOREVER :: u32 where
  "WAIT_FOREVER = - 1"

definition NO_SLEEP :: u32 where
  "NO_SLEEP = 0"

lemma WAIT_FOREVER_numeral: "WAIT_FOREVER = 4294967295"
  by (simp add: WAIT_FOREVER_def)

text \<open>
  Reading words as naturals: the equations hold where the machine operation does not wrap.
\<close>

named_theorems unat_simps \<open>word arithmetic read as arithmetic of naturals\<close>

lemma unat_add_fits [unat_simps]:
  fixes a b :: "'a::len word"
  shows "unat a + unat b < 2 ^ LENGTH('a) \<Longrightarrow> unat (a + b) = unat a + unat b"
  by (simp add: unat_add_lem)

lemma unat_diff_fits [unat_simps]:
  fixes a b :: "'a::len word"
  shows "unat b \<le> unat a \<Longrightarrow> unat (a - b) = unat a - unat b"
  by (simp add: unat_sub word_le_nat_alt)

lemma unat_min [unat_simps]: "unat (min a b) = min (unat a) (unat (b :: 'a::len word))"
  by (simp add: min_def word_le_nat_alt)

lemma unat_u32_bound: "unat (x :: u32) < 4294967296"
  using unsigned_less [of x] by simp

lemma unat_u64_bound: "unat (x :: u64) < 18446744073709551616"
  using unsigned_less [of x] by simp

lemmas word_nat_order = word_le_nat_alt word_less_nat_alt

section \<open>Faults\<close>

text \<open>
  A call that would crash the C program (a null dereference, a failed \<open>CUTILS_ASSERT\<close>, which
  stores through the null pointer, a copy outside an array, a division by zero, a call through a
  null function pointer) is an explicit error value of the model.
\<close>

datatype fault = Null_Deref | Assert_Failed | Out_Of_Bounds | Div_By_Zero | Null_Call

type_synonym 'a res = "fault + 'a"

definition bind_res :: "'a res \<Rightarrow> ('a \<Rightarrow> 'b res) \<Rightarrow> 'b res" where
  "bind_res m f = (case m of Inl e \<Rightarrow> Inl e | Inr x \<Rightarrow> f x)"

definition assert_res :: "bool \<Rightarrow> unit res" where
  "assert_res b = (if b then Inr () else Inl Assert_Failed)"

lemma bind_res_Inl [simp, res_simps]: "bind_res (Inl e) f = Inl e"
  by (simp add: bind_res_def)

lemma bind_res_Inr [simp, res_simps]: "bind_res (Inr x) f = f x"
  by (simp add: bind_res_def)

lemma bind_res_eq_Inr [res_simps]:
  "bind_res m f = Inr y \<longleftrightarrow> (\<exists>x. m = Inr x \<and> f x = Inr y)"
  by (cases m) auto

lemma assert_res_simps [simp, res_simps]:
  "assert_res True = Inr ()" "assert_res False = Inl Assert_Failed"
  by (simp_all add: assert_res_def)

text \<open>
  A call that may wait has no value while it is waiting: sequencing of such calls.
\<close>

definition bind_wait :: "'a res option \<Rightarrow> ('a \<Rightarrow> 'b res option) \<Rightarrow> 'b res option" where
  "bind_wait m f = (case m of None \<Rightarrow> None | Some (Inl e) \<Rightarrow> Some (Inl e) | Some (Inr x) \<Rightarrow> f x)"

lemma bind_wait_simps [simp, res_simps]:
  "bind_wait None f = None" "bind_wait (Some (Inl e)) f = Some (Inl e)" "bind_wait (Some (Inr x)) f = f x"
  by (simp_all add: bind_wait_def)

lemma bind_wait_eq_Inr [res_simps]:
  "bind_wait m f = Some (Inr y) \<longleftrightarrow> (\<exists>x. m = Some (Inr x) \<and> f x = Some (Inr y))"
  by (auto simp: bind_wait_def split: option.splits sum.splits)

section \<open>Block copies\<close>

text \<open>
  \<open>memcpy (dst + i, src, n)\<close> and the read of \<open>n\<close> bytes at \<open>src + i\<close>, each with the bounds the
  C program has to respect.
\<close>

definition splice :: "'a list \<Rightarrow> nat \<Rightarrow> 'a list \<Rightarrow> 'a list" where
  "splice dst i src = take i dst @ src @ drop (i + length src) dst"

definition memcpy_to :: "'a list \<Rightarrow> nat \<Rightarrow> 'a list \<Rightarrow> 'a list res" where
  "memcpy_to dst i src =
     (if i + length src \<le> length dst then Inr (splice dst i src) else Inl Out_Of_Bounds)"

definition read_from :: "'a list \<Rightarrow> nat \<Rightarrow> nat \<Rightarrow> 'a list res" where
  "read_from src i n =
     (if i + n \<le> length src then Inr (take n (drop i src)) else Inl Out_Of_Bounds)"

lemma memcpy_to_ok [simp]:
  "i + length src \<le> length dst \<Longrightarrow> memcpy_to dst i src = Inr (splice dst i src)"
  by (simp add: memcpy_to_def)

lemma read_from_ok [simp]:
  "i + n \<le> length src \<Longrightarrow> read_from src i n = Inr (take n (drop i src))"
  by (simp add: read_from_def)

lemma length_splice [simp]:
  "i + length src \<le> length dst \<Longrightarrow> length (splice dst i src) = length dst"
  by (simp add: splice_def)

lemma nth_splice:
  assumes "i + length src \<le> length dst" and "j < length dst"
  shows "splice dst i src ! j =
    (if i \<le> j \<and> j < i + length src then src ! (j - i) else dst ! j)"
proof (cases "j < i")
  case True
  with assms show ?thesis by (simp add: splice_def nth_append)
next
  case False
  with assms show ?thesis
    by (cases "j < i + length src") (auto simp: splice_def nth_append min_def)
qed

section \<open>Slices of a circular buffer\<close>

text \<open>
  \<open>ring_slice buf s n\<close> are the \<open>n\<close> cells of \<open>buf\<close> from index \<open>s\<close> on, with indices taken modulo
  the length of the buffer: the contents a reader of a circular buffer sees.
\<close>

definition ring_slice :: "'a list \<Rightarrow> nat \<Rightarrow> nat \<Rightarrow> 'a list" where
  "ring_slice buf s n = map (\<lambda>i. buf ! ((s + i) mod length buf)) [0..<n]"

lemma length_ring_slice [simp]: "length (ring_slice buf s n) = n"
  by (simp add: ring_slice_def)

lemma ring_slice_0 [simp, ring_simps]: "ring_slice buf s 0 = []"
  by (simp add: ring_slice_def)

lemma nth_ring_slice [simp]:
  "i < n \<Longrightarrow> ring_slice buf s n ! i = buf ! ((s + i) mod length buf)"
  by (simp add: ring_slice_def)

lemma ring_slice_mod [simp, ring_simps]:
  "ring_slice buf (s mod length buf) n = ring_slice buf s n"
  by (simp add: ring_slice_def mod_add_left_eq)

lemma ring_slice_append [ring_simps]:
  "ring_slice buf s (n + m) = ring_slice buf s n @ ring_slice buf (s + n) m"
  by (rule nth_equalityI) (auto simp: nth_append add.assoc)

lemma ring_slice_Suc:
  "ring_slice buf s (Suc n) = ring_slice buf s n @ [buf ! ((s + n) mod length buf)]"
  by (simp add: ring_slice_def)

lemma ring_slice_Cons:
  "ring_slice buf s (Suc n) = buf ! (s mod length buf) # ring_slice buf (Suc s) n"
  using ring_slice_append [of buf s 1 n] by (simp add: ring_slice_def)

lemma take_ring_slice [simp]:
  "m \<le> n \<Longrightarrow> take m (ring_slice buf s n) = ring_slice buf s m"
  by (simp add: list_eq_iff_nth_eq)

lemma drop_ring_slice [simp]:
  "m \<le> n \<Longrightarrow> drop m (ring_slice buf s n) = ring_slice buf (s + m) (n - m)"
  by (simp add: list_eq_iff_nth_eq add.assoc)

lemma ring_slice_contiguous:
  "s + n \<le> length buf \<Longrightarrow> ring_slice buf s n = take n (drop s buf)"
  by (rule nth_equalityI) auto

lemma ring_slice_wrap:
  assumes "s < length buf" and "n \<le> length buf" and "length buf < s + n"
  shows "ring_slice buf s n = drop s buf @ take (s + n - length buf) buf"
proof -
  let ?k = "length buf - s"
  from assms have n: "n = ?k + (s + n - length buf)" by simp
  have "ring_slice buf s n = ring_slice buf s ?k @ ring_slice buf (s + ?k) (s + n - length buf)"
    by (subst n) (rule ring_slice_append)
  moreover have "ring_slice buf s ?k = drop s buf"
    using assms by (simp add: ring_slice_contiguous)
  moreover have "ring_slice buf (s + ?k) (s + n - length buf) = take (s + n - length buf) buf"
  proof -
    have "ring_slice buf (length buf) m = ring_slice buf 0 m" for m
      by (metis mod_self ring_slice_mod)
    with assms show ?thesis by (simp add: ring_slice_contiguous)
  qed
  ultimately show ?thesis by simp
qed

text \<open>
  Writing a block into the ring: in one piece when it fits before the end, else in two pieces.
  \<open>ring_write\<close> is the reference that the two-\<open>memcpy\<close> code of the buffers is compared with.
\<close>

definition ring_write :: "'a list \<Rightarrow> nat \<Rightarrow> 'a list \<Rightarrow> 'a list" where
  "ring_write buf s xs =
     map (\<lambda>j. let d = (j + length buf - s mod length buf) mod length buf
               in if d < length xs then xs ! d else buf ! j) [0..<length buf]"

lemma length_ring_write [simp]: "length (ring_write buf s xs) = length buf"
  by (simp add: ring_write_def)

lemma ring_write_mod [simp, ring_simps]:
  "ring_write buf (s mod length buf) xs = ring_write buf s xs"
  by (simp add: ring_write_def)

lemma ring_dist:
  fixes L s i :: nat
  assumes "i < L"
  shows "((s + i) mod L + L - s mod L) mod L = i"
proof -
  have "s mod L \<le> (s + i) mod L + L"
    using assms by (intro trans_le_add2 less_imp_le mod_less_divisor) simp
  then have "int (((s + i) mod L + L - s mod L) mod L)
        = ((int s + int i) mod int L - int s mod int L + int L) mod int L"
    by (simp add: zmod_int of_nat_diff algebra_simps)
  also have "\<dots> = ((int s + int i) mod int L - int s mod int L) mod int L"
    by (rule mod_add_self2)
  also have "\<dots> = (int s + int i - int s) mod int L"
    by (rule mod_diff_eq)
  also have "\<dots> = int i" using assms by simp
  finally show ?thesis by simp
qed

lemma nth_ring_write:
  assumes "i < length buf"
  shows "ring_write buf s xs ! ((s + i) mod length buf) =
    (if i < length xs then xs ! i else buf ! ((s + i) mod length buf))"
proof -
  have "(s + i) mod length buf < length buf" using assms by (intro mod_less_divisor) auto
  then show ?thesis using ring_dist [OF assms, of s] by (simp add: ring_write_def Let_def)
qed

lemma ring_slice_write:
  assumes "n + length xs \<le> length buf"
  shows "ring_slice (ring_write buf (s + n) xs) s (n + length xs) = ring_slice buf s n @ xs"
proof (rule nth_equalityI)
  let ?L = "length buf"
  fix i assume "i < length (ring_slice (ring_write buf (s + n) xs) s (n + length xs))"
  then have i: "i < n + length xs" by simp
  show "ring_slice (ring_write buf (s + n) xs) s (n + length xs) ! i
        = (ring_slice buf s n @ xs) ! i"
  proof (cases "i < n")
    case True
    define d where "d = ?L - n + i"
    have d: "d < ?L" "\<not> d < length xs" using True assms by (auto simp: d_def)
    have "s + n + d = (s + i) + ?L" using True assms by (simp add: d_def)
    then have "(s + n + d) mod ?L = (s + i) mod ?L" by (metis mod_add_self2)
    with nth_ring_write [OF d(1), of "s + n" xs] d(2)
    have "ring_write buf (s + n) xs ! ((s + i) mod ?L) = buf ! ((s + i) mod ?L)" by simp
    with True i show ?thesis by (simp add: nth_append)
  next
    case False
    then have k: "i - n < length xs" using i by simp
    then have d: "i - n < ?L" using assms by simp
    have "s + n + (i - n) = s + i" using False by simp
    with nth_ring_write [OF d, of "s + n" xs] k
    have "ring_write buf (s + n) xs ! ((s + i) mod ?L) = xs ! (i - n)" by simp
    with False i show ?thesis by (simp add: nth_append)
  qed
qed simp

lemma nth_ring_write_cases:
  assumes "s < length buf" and "j < length buf"
  shows "ring_write buf s xs ! j =
    (if s \<le> j then (if j - s < length xs then xs ! (j - s) else buf ! j)
     else (if j + length buf - s < length xs then xs ! (j + length buf - s) else buf ! j))"
proof -
  have "(j + length buf - s) mod length buf = (if s \<le> j then j - s else j + length buf - s)"
  proof (cases "s \<le> j")
    case True
    then have "(j + length buf - s) mod length buf = ((j - s) + length buf) mod length buf"
      by (metis Nat.add_diff_assoc2)
    also have "\<dots> = j - s" using assms by (simp add: less_imp_diff_less)
    finally show ?thesis using True by simp
  next
    case False
    with assms show ?thesis by simp
  qed
  with assms show ?thesis by (simp add: ring_write_def)
qed

lemma ring_write_splice:
  assumes "s + length xs \<le> length buf" and "s < length buf"
  shows "splice buf s xs = ring_write buf s xs"
proof (rule nth_equalityI)
  show "length (splice buf s xs) = length (ring_write buf s xs)" using assms by simp
  fix j assume "j < length (splice buf s xs)"
  then have j: "j < length buf" using assms by simp
  show "splice buf s xs ! j = ring_write buf s xs ! j"
    unfolding nth_splice [OF assms(1) j] nth_ring_write_cases [OF assms(2) j]
    using assms j by (auto simp: less_diff_conv2)
qed

lemma ring_write_one: "i < length buf \<Longrightarrow> ring_write buf i [x] = buf[i := x]"
  using ring_write_splice [of i "[x]" buf]
  by (simp add: splice_def upd_conv_take_nth_drop)

lemma ring_write_splice_wrap:
  assumes "s < length buf" and "length xs \<le> length buf" and "length buf < s + length xs"
  shows "splice (splice buf s (take (length buf - s) xs)) 0 (drop (length buf - s) xs)
         = ring_write buf s xs" (is "splice ?b 0 ?t = _")
proof (rule nth_equalityI)
  have lb: "length ?b = length buf" using assms by simp
  show "length (splice ?b 0 ?t) = length (ring_write buf s xs)" using assms lb by simp
  fix j assume "j < length (splice ?b 0 ?t)"
  then have j: "j < length buf" using assms lb by simp
  have t: "0 + length ?t \<le> length ?b" using assms lb by simp
  have h: "s + length (take (length buf - s) xs) \<le> length buf" using assms by simp
  from lb j have j': "j < length ?b" by simp
  show "splice ?b 0 ?t ! j = ring_write buf s xs ! j"
    unfolding nth_splice [OF t j'] nth_splice [OF h j] nth_ring_write_cases [OF assms(1) j]
    using assms j by (auto simp: add.commute)
qed

text \<open>
  The two-piece copies of the C sources, into the ring and out of it, against their references.
\<close>

lemma two_piece_store:
  assumes pos: "pos < length d" and k: "k \<le> length d" "k \<le> length src"
  shows "(if length d - pos < k
      then bind_res (read_from src 0 (length d - pos)) (\<lambda>x1.
           bind_res (memcpy_to d pos x1) (\<lambda>d1.
           bind_res (read_from src (length d - pos) (k - (length d - pos))) (\<lambda>x2.
           memcpy_to d1 0 x2)))
      else bind_res (read_from src 0 k) (\<lambda>x. memcpy_to d pos x)) =
    Inr (ring_write d pos (take k src))"
proof (cases "length d - pos < k")
  case True
  let ?r = "length d - pos" and ?x = "take k src"
  define d1 where "d1 = splice d pos (take ?r ?x)"
  have r1: "read_from src 0 ?r = Inr (take ?r ?x)" using True k by (simp add: min_def)
  have m1: "memcpy_to d pos (take ?r ?x) = Inr d1" using pos by (simp add: d1_def)
  have r2: "read_from src ?r (k - ?r) = Inr (drop ?r ?x)" using True k by (simp add: drop_take)
  have "length d1 = length d" using pos by (simp add: d1_def)
  then have m2: "memcpy_to d1 0 (drop ?r ?x) = Inr (splice d1 0 (drop ?r ?x))"
    using k by (intro memcpy_to_ok) simp
  have "splice d1 0 (drop ?r ?x) = ring_write d pos ?x"
    unfolding d1_def using pos k True by (intro ring_write_splice_wrap) auto
  with True show ?thesis by (simp only: r1 m1 r2 m2 bind_res_Inr if_True)
next
  case False
  with pos k show ?thesis by (simp add: ring_write_splice)
qed

lemma two_piece_load:
  assumes "pos < length d" and "k \<le> length d"
  shows "(if length d - pos < k
      then bind_res (read_from d pos (length d - pos)) (\<lambda>x1.
           bind_res (read_from d 0 (k - (length d - pos))) (\<lambda>x2. Inr (x1 @ x2)))
      else read_from d pos k) = Inr (ring_slice d pos k)"
proof (cases "length d - pos < k")
  case True
  then have "k - (length d - pos) = pos + k - length d" using assms by simp
  with True assms show ?thesis by (simp add: ring_slice_wrap)
next
  case False
  with assms show ?thesis by (simp add: ring_slice_contiguous)
qed

text \<open>
  With a write index \<open>h\<close> and a read index \<open>t\<close> inside a ring of \<open>L\<close> cells, \<open>ring_count\<close> is the number of
  cells in use when one cell always stays free.
\<close>

definition ring_count :: "nat \<Rightarrow> nat \<Rightarrow> nat \<Rightarrow> nat" where
  "ring_count L h t = (if t \<le> h then h - t else L + h - t)"

lemma ring_count_less: "h < L \<Longrightarrow> t < L \<Longrightarrow> ring_count L h t < L"
  by (auto simp: ring_count_def)

lemma ring_count_mod: "h < L \<Longrightarrow> t < L \<Longrightarrow> (t + ring_count L h t) mod L = h"
  by (auto simp: ring_count_def)

lemma ring_count_unique:
  assumes "h < L" and "t < L" and "n < L" and "(t + n) mod L = h"
  shows "ring_count L h t = n"
proof -
  let ?c = "ring_count L h t"
  have "((t + ?c) mod L + L - t mod L) mod L = ((t + n) mod L + L - t mod L) mod L"
    using ring_count_mod [OF assms(1,2)] assms(4) by simp
  then show ?thesis
    using ring_dist [OF ring_count_less [OF assms(1,2)], of t] ring_dist [OF assms(3), of t] by simp
qed

lemma ring_count_0_iff: "h < L \<Longrightarrow> t < L \<Longrightarrow> ring_count L h t = 0 \<longleftrightarrow> t = h"
  by (auto simp: ring_count_def)

text \<open>The last \<open>n\<close> entries of a list.\<close>

definition lastn :: "nat \<Rightarrow> 'a list \<Rightarrow> 'a list" where
  "lastn n xs = drop (length xs - n) xs"

lemma lastn_lastn_append [simp]: "lastn n (lastn n xs @ ys) = lastn n (xs @ ys)"
  by (cases "length xs \<le> n") (auto simp: lastn_def add.commute)

lemma lastn_all [simp]: "length xs \<le> n \<Longrightarrow> lastn n xs = xs"
  by (simp add: lastn_def)

lemma length_lastn [simp]: "length (lastn n xs) = min n (length xs)"
  by (simp add: lastn_def)

end
