(* ===== verification/Klist.thy ===== *)
theory Klist
  imports Prelude
begin

text \<open>
  The intrusive doubly linked list of \<open>inc/cutils/klist.h\<close>. Every element embeds a
  \<open>KListElem\<close>; the \<open>prev\<close> and \<open>next\<close> fields of all elements are two functions on addresses, and
  each macro is a function on them. The abstraction \<open>dll\<close> relates the memory to the list of
  element addresses a head pointer stands for.
\<close>

named_theorems klist_defs \<open>definitions of the list macros\<close>

section \<open>Memory of list elements\<close>

text \<open>\<open>prev_of m p\<close> is \<open>p->prev\<close> and \<open>next_of m p\<close> is \<open>p->next\<close>.\<close>

record klist_mem =
  prev_of :: "addr \<Rightarrow> addr"
  next_of :: "addr \<Rightarrow> addr"

definition set_prev :: "klist_mem \<Rightarrow> addr \<Rightarrow> addr \<Rightarrow> klist_mem" where
  "set_prev m p v = m\<lparr>prev_of := (prev_of m)(p := v)\<rparr>"

definition set_next :: "klist_mem \<Rightarrow> addr \<Rightarrow> addr \<Rightarrow> klist_mem" where
  "set_next m p v = m\<lparr>next_of := (next_of m)(p := v)\<rparr>"

lemma prev_of_set [simp]:
  "prev_of (set_prev m p v) = (prev_of m)(p := v)"
  "prev_of (set_next m p v) = prev_of m"
  by (simp_all add: set_prev_def set_next_def)

lemma next_of_set [simp]:
  "next_of (set_prev m p v) = next_of m"
  "next_of (set_next m p v) = (next_of m)(p := v)"
  by (simp_all add: set_prev_def set_next_def)

section \<open>The macros\<close>

definition klist_head_init :: "klist_mem \<Rightarrow> addr \<Rightarrow> klist_mem" where
  "klist_head_init m pHead =
     (if pHead \<noteq> NULL then set_prev (set_next m pHead NULL) pHead NULL else m)"

definition klist_tail_init :: "klist_mem \<Rightarrow> addr \<Rightarrow> klist_mem" where
  "klist_tail_init m pTail =
     (if pTail \<noteq> NULL then set_prev (set_next m pTail NULL) pTail NULL else m)"

text \<open>
  \<open>KLIST_HEAD_FOREACH\<close>: \<open>next\<close> is read before the handler runs. The handler acts on a client
  state \<open>'s\<close> whose list memory is \<open>mem s\<close>; a list that runs in a cycle is the value \<open>None\<close>.
\<close>

partial_function (option) klist_head_foreach ::
  "('s \<Rightarrow> klist_mem) \<Rightarrow> (addr \<Rightarrow> 's \<Rightarrow> 's) \<Rightarrow> addr \<Rightarrow> 's \<Rightarrow> 's option" where
  "klist_head_foreach mem fnHandler pElem s =
     (if pElem \<noteq> NULL
      then (let pNext = next_of (mem s) pElem
            in klist_head_foreach mem fnHandler pNext (fnHandler pElem s))
      else Some s)"

text \<open>
  \<open>KLIST_HEAD_FIND_FIRST\<close>: \<open>pRetElem\<close> keeps its old value \<open>ret\<close> when no element satisfies the
  predicate.
\<close>

partial_function (option) klist_head_find_first ::
  "klist_mem \<Rightarrow> (addr \<Rightarrow> bool) \<Rightarrow> addr \<Rightarrow> addr \<Rightarrow> addr option" where
  "klist_head_find_first m fnHandler pElem ret =
     (if pElem \<noteq> NULL
      then (let pNext = next_of m pElem
            in if fnHandler pElem then Some pElem
               else klist_head_find_first m fnHandler pNext ret)
      else Some ret)"

text \<open>
  \<open>KLIST_HEAD_PREPEND\<close> returns the memory and the new value of the head pointer. The links of
  the item are written only when the list is not empty.
\<close>

definition klist_head_prepend :: "klist_mem \<Rightarrow> addr \<Rightarrow> addr \<Rightarrow> klist_mem \<times> addr" where
  "klist_head_prepend m pHead pItem =
     (if pItem \<noteq> NULL
      then ((if pHead \<noteq> NULL
             then set_next (set_prev (set_prev m pHead pItem) pItem NULL) pItem pHead
             else m), pItem)
      else (m, pHead))"

text \<open>\<open>KLIST_HEAD_POP\<close> returns the memory, the new head and the popped item.\<close>

definition klist_head_pop :: "klist_mem \<Rightarrow> addr \<Rightarrow> klist_mem \<times> addr \<times> addr" where
  "klist_head_pop m pHead =
     (if pHead \<noteq> NULL
      then (let pItem = pHead;
                head' = next_of m pHead
            in (set_next (set_prev m pItem NULL) pItem NULL, head', pItem))
      else (m, pHead, NULL))"

definition klist_tail_append :: "klist_mem \<Rightarrow> addr \<Rightarrow> addr \<Rightarrow> klist_mem \<times> addr" where
  "klist_tail_append m pTail pItem =
     (if pItem \<noteq> NULL
      then ((if pTail \<noteq> NULL
             then set_prev (set_next (set_next m pTail pItem) pItem NULL) pItem pTail
             else m), pItem)
      else (m, pTail))"

definition klist_remove_elem :: "klist_mem \<Rightarrow> addr \<Rightarrow> klist_mem" where
  "klist_remove_elem m pEl =
     (if pEl \<noteq> NULL
      then (let m1 = (if next_of m pEl \<noteq> NULL
                      then set_prev m (next_of m pEl) (prev_of m pEl) else m);
                m2 = (if prev_of m1 pEl \<noteq> NULL
                      then set_next m1 (prev_of m1 pEl) (next_of m1 pEl) else m1)
            in set_next (set_prev m2 pEl NULL) pEl NULL)
      else m)"

text \<open>
  \<open>KLIST_HEAD_REMOVE_ELEM\<close> and \<open>KLIST_TAIL_REMOVE_ELEM\<close> read \<open>pElem->next\<close> (\<open>prev\<close>) without a
  null test when the element is the head (tail).
\<close>

definition klist_head_remove_elem ::
  "klist_mem \<Rightarrow> addr \<Rightarrow> addr \<Rightarrow> (klist_mem \<times> addr) res" where
  "klist_head_remove_elem m pHead pElem =
     (if pHead = pElem
      then (if pElem = NULL then Inl Null_Deref
            else Inr (klist_remove_elem m pElem, next_of m pElem))
      else Inr (klist_remove_elem m pElem, pHead))"

definition klist_tail_remove_elem ::
  "klist_mem \<Rightarrow> addr \<Rightarrow> addr \<Rightarrow> (klist_mem \<times> addr) res" where
  "klist_tail_remove_elem m pTail pElem =
     (if pTail = pElem
      then (if pElem = NULL then Inl Null_Deref
            else Inr (klist_remove_elem m pElem, prev_of m pElem))
      else Inr (klist_remove_elem m pElem, pTail))"

declare klist_head_init_def [klist_defs] klist_tail_init_def [klist_defs]
  klist_head_prepend_def [klist_defs] klist_head_pop_def [klist_defs]
  klist_tail_append_def [klist_defs] klist_remove_elem_def [klist_defs]
  klist_head_remove_elem_def [klist_defs] klist_tail_remove_elem_def [klist_defs]

section \<open>Lists in memory\<close>

text \<open>
  \<open>chain\<close>: the \<open>next\<close> links from \<open>p\<close> visit exactly \<open>xs\<close> and end in the null pointer. \<open>backlinks\<close>:
  every element of \<open>xs\<close> has the element before it (\<open>q\<close> for the first) as its \<open>prev\<close>. \<open>dll\<close>
  leaves the \<open>prev\<close> field of the first element open, as \<open>KLIST_HEAD_POP\<close> does not clear it;
  \<open>dll0\<close> requires it to be null.
\<close>

primrec chain :: "(addr \<Rightarrow> addr) \<Rightarrow> addr \<Rightarrow> addr list \<Rightarrow> bool" where
  "chain nx p [] \<longleftrightarrow> p = NULL"
| "chain nx p (x # xs) \<longleftrightarrow> p = x \<and> x \<noteq> NULL \<and> chain nx (nx x) xs"

primrec backlinks :: "(addr \<Rightarrow> addr) \<Rightarrow> addr \<Rightarrow> addr list \<Rightarrow> bool" where
  "backlinks pv q [] \<longleftrightarrow> True"
| "backlinks pv q (x # xs) \<longleftrightarrow> pv x = q \<and> backlinks pv x xs"

definition dll :: "klist_mem \<Rightarrow> addr \<Rightarrow> addr list \<Rightarrow> bool" where
  "dll m p xs \<longleftrightarrow> chain (next_of m) p xs \<and> (xs \<noteq> [] \<longrightarrow> backlinks (prev_of m) (hd xs) (tl xs))"

definition dll0 :: "klist_mem \<Rightarrow> addr \<Rightarrow> addr list \<Rightarrow> bool" where
  "dll0 m p xs \<longleftrightarrow> chain (next_of m) p xs \<and> backlinks (prev_of m) NULL xs"

lemma chain_unique: "chain nx p xs \<Longrightarrow> chain nx p ys \<Longrightarrow> xs = ys"
proof (induction xs arbitrary: p ys)
  case Nil
  then show ?case by (cases ys) auto
next
  case (Cons x xs)
  then show ?case by (cases ys) auto
qed

lemma chain_NULL_iff [simp]: "chain nx NULL xs \<longleftrightarrow> xs = []"
  by (cases xs) auto

lemma chain_nonnull: "chain nx p xs \<Longrightarrow> NULL \<notin> set xs"
  by (induction xs arbitrary: p) auto

lemma chain_hd: "chain nx p xs \<Longrightarrow> p \<noteq> NULL \<Longrightarrow> \<exists>ys. xs = p # ys \<and> chain nx (nx p) ys"
  by (cases xs) auto

lemma chain_upd [simp]: "a \<notin> set xs \<Longrightarrow> chain (nx(a := v)) p xs = chain nx p xs"
  by (induction xs arbitrary: p) auto

lemma backlinks_upd [simp]: "a \<notin> set xs \<Longrightarrow> backlinks (pv(a := v)) q xs = backlinks pv q xs"
  by (induction xs arbitrary: q) auto

lemma chain_cong: "(\<And>x. x \<in> set xs \<Longrightarrow> nx x = nx' x) \<Longrightarrow> chain nx p xs = chain nx' p xs"
  by (induction xs arbitrary: p) auto

lemma chain_suffix: "chain nx p (xs @ ys) \<Longrightarrow> \<exists>q. chain nx q ys"
  by (induction xs arbitrary: p) auto

lemma chain_distinct: "chain nx p xs \<Longrightarrow> distinct xs"
proof (induction xs arbitrary: p)
  case (Cons x xs)
  have "x \<notin> set xs"
  proof
    assume "x \<in> set xs"
    then obtain as bs where xs: "xs = as @ x # bs" by (meson split_list)
    with Cons.prems have "chain nx (nx x) (as @ x # bs)" by simp
    then obtain q where "chain nx q (x # bs)" using chain_suffix by blast
    then have "chain nx (nx x) bs" by simp
    with \<open>chain nx (nx x) (as @ x # bs)\<close> have "as @ x # bs = bs" by (rule chain_unique)
    then have "length (as @ x # bs) = length bs" by (rule arg_cong)
    then show False by simp
  qed
  with Cons show ?case by auto
qed simp

lemma chain_snoc:
  assumes "chain nx p xs" and "xs \<noteq> []" and "e \<notin> set xs" and "e \<noteq> NULL"
  shows "chain (nx(last xs := e, e := NULL)) p (xs @ [e])"
  using assms
proof (induction xs arbitrary: p)
  case (Cons x xs)
  show ?case
  proof (cases "xs = []")
    case True
    with Cons.prems show ?thesis by auto
  next
    case False
    moreover have "x \<notin> set xs" using chain_distinct [OF Cons.prems(1)] by simp
    ultimately show ?thesis using Cons by (auto dest: last_in_set)
  qed
qed simp

lemma chain_remove:
  assumes "chain nx p (as @ e # bs)" and "as \<noteq> []"
  shows "chain (nx(last as := nx e, e := NULL)) p (as @ bs)"
  using assms
proof (induction as arbitrary: p)
  case (Cons x as)
  have d: "distinct (x # as @ e # bs)" using chain_distinct [OF Cons.prems(1)] by simp
  show ?case
  proof (cases "as = []")
    case True
    with Cons.prems d show ?thesis
      by (auto intro!: chain_cong [THEN iffD1, of bs nx])
  next
    case False
    with d have "x \<noteq> last as" by auto
    with Cons False d show ?thesis by auto
  qed
qed simp

lemma chain_nth:
  "chain nx p (as @ a # b # bs) \<Longrightarrow> nx a = b"
  by (induction as arbitrary: p) auto

lemma chain_last: "chain nx p (as @ [a]) \<Longrightarrow> nx a = NULL"
  by (induction as arbitrary: p) auto

lemma backlinks_append [simp]:
  "backlinks pv q (as @ bs) \<longleftrightarrow>
     backlinks pv q as \<and> backlinks pv (if as = [] then q else last as) bs"
  by (induction as arbitrary: q) auto

lemma backlinks_cong:
  "(\<And>x. x \<in> set xs \<Longrightarrow> pv x = pv' x) \<Longrightarrow> backlinks pv q xs = backlinks pv' q xs"
  by (induction xs arbitrary: q) auto

lemma dll_weaken: "dll0 m p xs \<Longrightarrow> dll m p xs"
  by (cases xs) (auto simp: dll0_def dll_def)

lemma dll_distinct: "dll m p xs \<Longrightarrow> distinct xs"
  by (auto simp: dll_def dest: chain_distinct)

lemma dll0_distinct: "dll0 m p xs \<Longrightarrow> distinct xs"
  by (auto simp: dll0_def dest: chain_distinct)

lemma dll_Nil [simp]: "dll m p [] \<longleftrightarrow> p = NULL" "dll0 m p [] \<longleftrightarrow> p = NULL"
  by (auto simp: dll_def dll0_def)

section \<open>What the macros do to lists\<close>

text \<open>A list whose elements an operation does not touch keeps its shape.\<close>

lemma dll_frame:
  assumes "\<And>y. y \<in> set ys \<Longrightarrow> next_of m' y = next_of m y \<and> prev_of m' y = prev_of m y"
  shows "dll m' q ys = dll m q ys" "dll0 m' q ys = dll0 m q ys"
proof -
  have c: "chain (next_of m') q ys = chain (next_of m) q ys"
    using assms by (intro chain_cong) auto
  have b: "backlinks (prev_of m') z zs = backlinks (prev_of m) z zs"
    if "set zs \<subseteq> set ys" for z zs
    using assms that by (intro backlinks_cong) auto
  have "set (tl ys) \<subseteq> set ys" by (cases ys) auto
  from c b [OF this] show "dll m' q ys = dll m q ys" unfolding dll_def by simp
  from c b [OF subset_refl] show "dll0 m' q ys = dll0 m q ys" unfolding dll0_def by simp
qed

lemma klist_head_prepend_dll:
  assumes "dll m p xs" and "e \<notin> set xs" and "e \<noteq> NULL" and "xs = [] \<Longrightarrow> next_of m e = NULL"
  shows "snd (klist_head_prepend m p e) = e" and "dll (fst (klist_head_prepend m p e)) e (e # xs)"
  using assms dll_distinct [OF assms(1)] by (cases xs; auto simp: klist_head_prepend_def dll_def)+

lemma klist_head_prepend_dll0:
  assumes "dll0 m p xs" and "e \<notin> set xs" and "e \<noteq> NULL"
    and "xs = [] \<Longrightarrow> next_of m e = NULL \<and> prev_of m e = NULL"
  shows "dll0 (fst (klist_head_prepend m p e)) e (e # xs)"
  using assms dll0_distinct [OF assms(1)] by (cases xs) (auto simp: klist_head_prepend_def dll0_def)

lemma klist_head_prepend_frame:
  assumes "y \<noteq> e" and "y \<noteq> p"
  shows "next_of (fst (klist_head_prepend m p e)) y = next_of m y"
    and "prev_of (fst (klist_head_prepend m p e)) y = prev_of m y"
  using assms by (auto simp: klist_head_prepend_def)

lemma klist_head_pop_dll:
  assumes "dll m p (x # xs)"
  obtains m' where "klist_head_pop m p = (m', next_of m x, x)" and "dll m' (next_of m x) xs"
    and "next_of m' = (next_of m)(x := NULL)" and "prev_of m' = (prev_of m)(x := NULL)"
proof
  let ?m = "set_next (set_prev m x NULL) x NULL"
  have x: "x \<notin> set xs" using dll_distinct [OF assms] by simp
  from assms show "klist_head_pop m p = (?m, next_of m x, x)"
    by (auto simp: klist_head_pop_def dll_def)
  from assms x show "dll ?m (next_of m x) xs"
    by (cases xs) (auto simp: dll_def)
qed simp_all

lemma klist_head_pop_Nil: "klist_head_pop m NULL = (m, NULL, NULL)"
  by (simp add: klist_head_pop_def)

lemma klist_tail_append_dll0:
  assumes "dll0 m p xs" and "xs \<noteq> []" and "e \<notin> set xs" and "e \<noteq> NULL"
  shows "snd (klist_tail_append m (last xs) e) = e"
    and "dll0 (fst (klist_tail_append m (last xs) e)) p (xs @ [e])"
proof -
  have l: "last xs \<noteq> NULL" "last xs \<noteq> e"
    using assms chain_nonnull [of "next_of m" p xs] last_in_set [of xs]
    unfolding dll0_def by metis+
  then show "snd (klist_tail_append m (last xs) e) = e"
    using assms by (simp add: klist_tail_append_def)
  show "dll0 (fst (klist_tail_append m (last xs) e)) p (xs @ [e])"
    using assms l chain_snoc [of "next_of m" p xs e]
    by (simp add: klist_tail_append_def dll0_def)
qed

text \<open>
  Unlinking: the list keeps its other elements in order, whatever the position. When the element
  is the first one of a list whose first \<open>prev\<close> is null, only the head pointer moves.
\<close>

lemma klist_remove_elem_dll:
  assumes d: "dll m p (as @ e # bs)" and as: "as \<noteq> []"
  shows "dll (klist_remove_elem m e) p (as @ bs)"
proof -
  have dist: "distinct (as @ e # bs)" using dll_distinct [OF d] .
  have ch: "chain (next_of m) p (as @ e # bs)" using d by (simp add: dll_def)
  have nn: "NULL \<notin> set (as @ e # bs)" using chain_nonnull [OF ch] .
  obtain x zs where x: "as = x # zs" using as by (cases as) auto
  have bk: "backlinks (prev_of m) x (zs @ e # bs)" using d x by (simp add: dll_def)
  have pe: "prev_of m e = last as" using bk x by auto
  have "last as \<in> set as" using as by simp
  then have la: "last as \<noteq> NULL" "last as \<noteq> e" using nn dist by auto
  have ne: "next_of m e = (if bs = [] then NULL else hd bs)"
    using ch chain_nth [of "next_of m" p as e] chain_last [of "next_of m" p as e]
    by (cases bs) auto
  have hb: "bs \<noteq> [] \<Longrightarrow> hd bs \<noteq> NULL \<and> hd bs \<noteq> e"
    using nn dist by (cases bs) auto
  have nx: "next_of (klist_remove_elem m e) = (next_of m)(last as := next_of m e, e := NULL)"
    using nn pe la hb ne by (auto simp: klist_remove_elem_def Let_def)
  have pv: "prev_of (klist_remove_elem m e) =
      (if bs = [] then prev_of m else (prev_of m)(hd bs := last as))(e := NULL)"
    using nn pe la hb ne by (auto simp: klist_remove_elem_def Let_def)
  have "backlinks (prev_of (klist_remove_elem m e)) x (zs @ bs)"
    using bk dist x pv by (cases bs) auto
  with chain_remove [OF ch as] show ?thesis
    unfolding dll_def nx using x by simp
qed

lemma klist_remove_head_dll0:
  assumes d: "dll0 m p (e # bs)"
  shows "dll0 (klist_remove_elem m e) (next_of m e) bs"
proof -
  have e: "e \<notin> set bs" "e \<noteq> NULL" "prev_of m e = NULL" "chain (next_of m) (next_of m e) bs"
    using d dll0_distinct [OF d] by (auto simp: dll0_def)
  from d e dll0_distinct [OF d] show ?thesis
    by (cases bs) (auto simp: dll0_def klist_remove_elem_def Let_def)
qed

lemma klist_remove_elem_cleared:
  assumes "e \<noteq> NULL"
  shows "next_of (klist_remove_elem m e) e = NULL" "prev_of (klist_remove_elem m e) e = NULL"
  using assms by (simp_all add: klist_remove_elem_def Let_def)

lemma klist_remove_elem_frame:
  assumes "y \<noteq> e" and "y \<noteq> next_of m e" and "y \<noteq> prev_of m e"
  shows "next_of (klist_remove_elem m e) y = next_of m y"
    and "prev_of (klist_remove_elem m e) y = prev_of m y"
  using assms by (auto simp: klist_remove_elem_def Let_def)

lemma backlinks_remove_dll0:
  assumes "dll0 m p (as @ e # bs)" and "as \<noteq> []"
  shows "dll0 (klist_remove_elem m e) p (as @ bs)"
proof -
  obtain x zs where x: "as = x # zs" using assms(2) by (cases as) auto
  have "dll (klist_remove_elem m e) p (as @ bs)"
    using assms dll_weaken klist_remove_elem_dll by blast
  moreover have "prev_of (klist_remove_elem m e) x = NULL"
  proof -
    have dist: "distinct (as @ e # bs)" and bk: "prev_of m x = NULL"
      using dll0_distinct [OF assms(1)] assms(1) x by (auto simp: dll0_def)
    have "next_of m e \<noteq> x"
    proof
      assume eq: "next_of m e = x"
      have ch: "chain (next_of m) p (as @ e # bs)" using assms(1) by (simp add: dll0_def)
      have "x \<noteq> NULL" using chain_nonnull [OF ch] x by auto
      then have "bs \<noteq> []" using chain_last [of "next_of m" p as e] ch eq by auto
      then have "x = hd bs" using chain_nth [of "next_of m" p as e] ch eq by (cases bs) auto
      with \<open>bs \<noteq> []\<close> dist x show False by (cases bs) auto
    qed
    with bk dist x show ?thesis
      by (auto simp: klist_remove_elem_def Let_def)
  qed
  ultimately show ?thesis using x by (simp add: dll_def dll0_def)
qed

text \<open>\<open>KLIST_HEAD_REMOVE_ELEM\<close> removes any element of a list, the head included.\<close>

lemma klist_head_remove_elem_dll0:
  assumes "dll0 m p (as @ e # bs)"
  shows "\<exists>m' p'. klist_head_remove_elem m p e = Inr (m', p') \<and> dll0 m' p' (as @ bs)"
proof (cases "as = []")
  case True
  with assms have "p = e" "e \<noteq> NULL" by (auto simp: dll0_def)
  with True assms klist_remove_head_dll0 [of m p e bs] show ?thesis
    by (simp add: klist_head_remove_elem_def)
next
  case False
  with assms have "p \<noteq> e"
    using dll0_distinct [OF assms] by (cases as) (auto simp: dll0_def)
  with backlinks_remove_dll0 [OF assms False] show ?thesis
    by (simp add: klist_head_remove_elem_def)
qed

section \<open>Walking a list\<close>

lemma klist_head_foreach_chain:
  assumes "chain (next_of (mem s)) p xs"
    and "\<And>x s y. y \<noteq> x \<Longrightarrow> next_of (mem (f x s)) y = next_of (mem s) y"
  shows "klist_head_foreach mem f p s = Some (fold f xs s)"
  using assms(1)
proof (induction xs arbitrary: p s)
  case Nil
  then show ?case by (simp add: klist_head_foreach.simps)
next
  case (Cons x xs)
  have "x \<notin> set xs" using chain_distinct [OF Cons.prems] by simp
  then have "next_of (mem (f x s)) y = next_of (mem s) y" if "y \<in> set xs" for y
    using that by (intro assms(2)) auto
  then have "chain (next_of (mem (f x s))) (next_of (mem s) x) xs"
    using Cons.prems chain_cong [of xs "next_of (mem (f x s))" "next_of (mem s)"] by simp
  then show ?case using Cons by (simp add: klist_head_foreach.simps [of mem f x s])
qed

lemma klist_head_find_first_chain:
  assumes "chain (next_of m) p xs"
  shows "klist_head_find_first m f p ret =
    Some (case List.find f xs of None \<Rightarrow> ret | Some x \<Rightarrow> x)"
  using assms
proof (induction xs arbitrary: p)
  case Nil
  then show ?case by (simp add: klist_head_find_first.simps)
next
  case (Cons x xs)
  then show ?case by (simp add: klist_head_find_first.simps [of m f x])
qed

section \<open>Properties\<close>

text \<open>
  C33: (functional) On a well-formed doubly linked list, \<open>KLIST_HEAD_REMOVE_ELEM\<close> of any element
  (first, middle or last) does not fault, leaves a well-formed list of the other elements in their
  order, and clears the links of the element; \<open>KLIST_HEAD_FOREACH\<close> over the result ends and visits
  exactly those elements in that order.
\<close>

theorem klist_remove_then_foreach:
  assumes "dll0 m p (as @ e # bs)"
  shows "\<exists>m' p'. klist_head_remove_elem m p e = Inr (m', p') \<and> dll0 m' p' (as @ bs) \<and>
    next_of m' e = NULL \<and> prev_of m' e = NULL \<and>
    klist_head_foreach (\<lambda>_. m') (\<lambda>x seen. seen @ [x]) p' [] = Some (as @ bs)"
proof -
  obtain m' p' where r: "klist_head_remove_elem m p e = Inr (m', p')" "dll0 m' p' (as @ bs)"
    using klist_head_remove_elem_dll0 [OF assms] by auto
  have "NULL \<notin> set (as @ e # bs)" using assms chain_nonnull unfolding dll0_def by blast
  then have e: "e \<noteq> NULL" by auto
  have m': "m' = klist_remove_elem m e"
    using r(1) e by (auto simp: klist_head_remove_elem_def split: if_splits)
  have "fold (\<lambda>x seen. seen @ [x]) xs s = s @ xs" for xs and s :: "addr list"
    by (induction xs arbitrary: s) auto
  moreover have "chain (next_of m') p' (as @ bs)" using r(2) by (simp add: dll0_def)
  ultimately have "klist_head_foreach (\<lambda>_. m') (\<lambda>x seen. seen @ [x]) p' [] = Some (as @ bs)"
    by (subst klist_head_foreach_chain) simp_all
  with r m' klist_remove_elem_cleared [OF e, of m] show ?thesis by blast
qed

theorem klist_remove_then_foreach_witness:
  "\<exists>m' p'. klist_head_remove_elem
      \<lparr>prev_of = (\<lambda>x. if x = 6 then 5 else if x = 7 then 6 else 0),
       next_of = (\<lambda>x. if x = 5 then 6 else if x = 6 then 7 else 0)\<rparr> 5 6 = Inr (m', p') \<and>
    dll0 m' p' [5, 7]"
  using klist_remove_then_foreach [of
      "\<lparr>prev_of = (\<lambda>x. if x = 6 then 5 else if x = 7 then 6 else 0),
        next_of = (\<lambda>x. if x = 5 then 6 else if x = 6 then 7 else 0)\<rparr>" 5 "[5]" 6 "[7]"]
  by (auto simp: dll0_def)

end
