(* ===== verification/Fifo.thy ===== *)
theory Fifo
  imports Prelude
begin

text \<open>
  The interface of a first-in first-out queue, as the library's clients use one: what an insert
  and a removal do to the sequence of queued items, and what follows for any interleaving of
  inserts and removals. \<open>Kqueue\<close> and \<open>Ts_Queue\<close> provide it.
\<close>

text \<open>A sequence of queue operations, its run, and the items it inserts.\<close>

datatype 'a qop = Enq 'a | Deq

fun qrun :: "('a \<Rightarrow> 's \<Rightarrow> 's option) \<Rightarrow> ('s \<Rightarrow> ('a \<times> 's) option) \<Rightarrow> 'a qop list \<Rightarrow> 's
    \<Rightarrow> 'a list \<times> 'a list \<times> 's" where
  "qrun enq deq [] s = ([], [], s)"
| "qrun enq deq (Enq x # ops) s =
     (case enq x s of
        None \<Rightarrow> qrun enq deq ops s
      | Some s' \<Rightarrow> (let (ins, outs, t) = qrun enq deq ops s' in (x # ins, outs, t)))"
| "qrun enq deq (Deq # ops) s =
     (case deq s of
        None \<Rightarrow> qrun enq deq ops s
      | Some (x, s') \<Rightarrow> (let (ins, outs, t) = qrun enq deq ops s' in (ins, x # outs, t)))"

lemma qrun_append:
  "qrun enq deq ops s = (ins, outs, t) \<Longrightarrow> qrun enq deq ops' t = (ins', outs', t') \<Longrightarrow>
    qrun enq deq (ops @ ops') s = (ins @ ins', outs @ outs', t')"
proof (induction ops arbitrary: s ins outs)
  case (Cons op ops)
  then show ?case by (cases op) (auto split: option.splits prod.splits)
qed simp

text \<open>\<open>drain deq n s\<close> removes up to \<open>n\<close> items.\<close>

fun drain :: "('s \<Rightarrow> ('a \<times> 's) option) \<Rightarrow> nat \<Rightarrow> 's \<Rightarrow> 'a list \<times> 's" where
  "drain deq 0 s = ([], s)"
| "drain deq (Suc n) s =
     (case deq s of
        None \<Rightarrow> ([], s)
      | Some (x, s') \<Rightarrow> (let (xs, t) = drain deq n s' in (x # xs, t)))"

text \<open>
  \<open>rep s xs\<close>: the state \<open>s\<close> holds the sequence \<open>xs\<close>. An insert may be refused (\<open>None\<close>), and is
  accepted when there is room; a refused insert changes nothing.
\<close>

locale fifo_queue =
  fixes enq :: "'a \<Rightarrow> 's \<Rightarrow> 's option"
    and deq :: "'s \<Rightarrow> ('a \<times> 's) option"
    and rep :: "'s \<Rightarrow> 'a list \<Rightarrow> bool"
    and room :: "'a \<Rightarrow> 's \<Rightarrow> bool"
  assumes enq_room: "rep s xs \<Longrightarrow> room x s \<Longrightarrow> \<exists>s'. enq x s = Some s' \<and> rep s' (xs @ [x])"
    and enq_no_room: "rep s xs \<Longrightarrow> \<not> room x s \<Longrightarrow> enq x s = None"
    and deq_Nil: "rep s [] \<Longrightarrow> deq s = None"
    and deq_Cons: "rep s (x # xs) \<Longrightarrow> \<exists>s'. deq s = Some (x, s') \<and> rep s' xs"
begin

lemma qrun_fifo:
  assumes "rep s xs" and "qrun enq deq ops s = (ins, outs, t)"
  shows "\<exists>ys. rep t ys \<and> xs @ ins = outs @ ys"
  using assms
proof (induction ops arbitrary: s xs ins outs)
  case Nil
  then show ?case by auto
next
  case (Cons op ops)
  show ?case
  proof (cases op)
    case (Enq x)
    show ?thesis
    proof (cases "room x s")
      case True
      then obtain s' where s': "enq x s = Some s'" "rep s' (xs @ [x])"
        using Cons.prems enq_room by blast
      with Cons.prems Enq obtain ins' where "qrun enq deq ops s' = (ins', outs, t)" "ins = x # ins'"
        by (auto split: prod.splits)
      with Cons.IH [OF s'(2)] show ?thesis by auto
    next
      case False
      with Cons.prems Enq enq_no_room [OF Cons.prems(1)] Cons.IH show ?thesis by auto
    qed
  next
    case Deq
    show ?thesis
    proof (cases xs)
      case Nil
      with Cons.prems Deq deq_Nil Cons.IH show ?thesis by fastforce
    next
      case (Cons y ys)
      then obtain s' where s': "deq s = Some (y, s')" "rep s' ys"
        using Cons.prems deq_Cons by blast
      with Cons.prems Deq obtain outs' where "qrun enq deq ops s' = (ins, outs', t)"
        "outs = y # outs'"
        by (auto split: prod.splits)
      with Cons.IH [OF s'(2)] Cons show ?thesis by auto
    qed
  qed
qed

lemma drain_rep:
  assumes "rep s xs"
  shows "fst (drain deq n s) = take n xs \<and> rep (snd (drain deq n s)) (drop n xs)"
  using assms
proof (induction n arbitrary: s xs)
  case (Suc n)
  show ?case
  proof (cases xs)
    case Nil
    with Suc.prems show ?thesis by (simp add: deq_Nil)
  next
    case (Cons y ys)
    then obtain s' where s': "deq s = Some (y, s')" "rep s' ys"
      using Suc.prems deq_Cons by blast
    with Suc.IH [OF s'(2)] Cons show ?thesis by (auto split: prod.splits)
  qed
qed simp

text \<open>A queue holds one sequence at a time, the one a full drain returns.\<close>

lemma rep_functional:
  assumes "rep s xs" and "rep s ys"
  shows "xs = ys"
proof -
  let ?n = "max (length xs) (length ys)"
  have "xs = take ?n xs" "ys = take ?n ys" by simp_all
  with drain_rep [OF assms(1), of ?n] drain_rep [OF assms(2), of ?n] show ?thesis by simp
qed

end

end
