(* ===== verification/Kqueue.thy ===== *)
theory Kqueue
  imports Klist Fifo
begin

text \<open>
  The queue of \<open>inc/cutils/kqueue.h\<close>, built from the list macros of \<open>Klist\<close>: its control block,
  every operation with its null-pointer branches, the invariant that ties head, tail, count and
  links together, and the proof that it is a first-in first-out queue.
\<close>

section \<open>Control block and operations\<close>

text \<open>
  Function pointers are addresses (\<open>NULL\<close>: none registered). A \<open>kqueue_t*\<close> argument is \<open>None\<close>
  when it is null. Calls of the drop callback are recorded as pairs of the callback and the
  element it is given.
\<close>

record kqueue =
  p_head :: addr
  p_tail :: addr
  f_drop :: addr
  item_count :: u32

type_synonym drop_trace = "(addr \<times> addr) list"

definition kqueue_init :: "kqueue option \<Rightarrow> kqueue option" where
  "kqueue_init pQueue =
     map_option (\<lambda>q. q\<lparr>p_head := NULL, p_tail := NULL, f_drop := NULL, item_count := 0\<rparr>) pQueue"

definition kqueue_is_empty :: "kqueue option \<Rightarrow> bool" where
  "kqueue_is_empty pQueue =
     (case pQueue of None \<Rightarrow> True | Some q \<Rightarrow> \<not> (p_head q \<noteq> NULL \<and> p_tail q \<noteq> NULL))"

definition kqueue_insert :: "klist_mem \<Rightarrow> kqueue option \<Rightarrow> addr \<Rightarrow> klist_mem \<times> kqueue option" where
  "kqueue_insert m p_queue p_elem =
     (case p_queue of
        None \<Rightarrow> (m, None)
      | Some q \<Rightarrow>
          if p_elem \<noteq> NULL
          then (let (m', tail') = klist_tail_append m (p_tail q) p_elem;
                    q1 = q\<lparr>p_tail := tail'\<rparr>;
                    q2 = (if p_head q1 = NULL then q1\<lparr>p_head := p_tail q1\<rparr> else q1)
                in (m', Some (q2\<lparr>item_count := item_count q2 + 1\<rparr>)))
          else (m, Some q))"

definition kqueue_dequeue :: "klist_mem \<Rightarrow> kqueue option \<Rightarrow> klist_mem \<times> kqueue option \<times> addr" where
  "kqueue_dequeue m p_queue =
     (if \<not> kqueue_is_empty p_queue
      then (case p_queue of
              None \<Rightarrow> (m, None, NULL)
            | Some q \<Rightarrow>
                (let q1 = (if p_head q = p_tail q then q\<lparr>p_tail := NULL\<rparr> else q);
                     p_item = p_head q1;
                     q2 = q1\<lparr>p_head := next_of m p_item\<rparr>;
                     m' = klist_remove_elem m p_item
                 in (m', Some (q2\<lparr>item_count := item_count q2 - 1\<rparr>), p_item)))
      else (m, p_queue, NULL))"

definition kqueue_register_drop_all_cb :: "kqueue option \<Rightarrow> addr \<Rightarrow> kqueue option" where
  "kqueue_register_drop_all_cb pQueue cb = map_option (\<lambda>q. q\<lparr>f_drop := cb\<rparr>) pQueue"

partial_function (option) kqueue_drop_all ::
  "klist_mem \<Rightarrow> kqueue option \<Rightarrow> drop_trace \<Rightarrow> (klist_mem \<times> kqueue option \<times> drop_trace) option" where
  "kqueue_drop_all m p_queue tr =
     (if \<not> kqueue_is_empty p_queue
      then (let (m', q', pElem) = kqueue_dequeue m p_queue;
                f = (case q' of None \<Rightarrow> NULL | Some q \<Rightarrow> f_drop q)
            in kqueue_drop_all m' q' (if f \<noteq> NULL then tr @ [(f, pElem)] else tr))
      else Some (m, p_queue, tr))"

definition kqueue_find_first ::
  "klist_mem \<Rightarrow> kqueue option \<Rightarrow> (addr \<Rightarrow> bool) \<Rightarrow> addr option res" where
  "kqueue_find_first m p_queue f_find =
     (case p_queue of
        None \<Rightarrow> Inl Null_Deref
      | Some q \<Rightarrow> Inr (klist_head_find_first m f_find (p_head q) NULL))"

partial_function (option) kqueue_drop_all_through_elem ::
  "klist_mem \<Rightarrow> kqueue option \<Rightarrow> addr \<Rightarrow> drop_trace
    \<Rightarrow> (klist_mem \<times> kqueue option \<times> drop_trace) res option" where
  "kqueue_drop_all_through_elem m p_queue p_elem tr =
     (let (m', q', pDequeue) = kqueue_dequeue m p_queue;
          f = (case q' of None \<Rightarrow> NULL | Some q \<Rightarrow> f_drop q)
      in if pDequeue = NULL then Some (Inr (m', q', tr))
         else if f = NULL then Some (Inl Null_Call)
         else if p_elem = pDequeue then Some (Inr (m', q', tr @ [(f, pDequeue)]))
         else kqueue_drop_all_through_elem m' q' p_elem (tr @ [(f, pDequeue)]))"

definition kqueue_get_item_count :: "kqueue option \<Rightarrow> u32" where
  "kqueue_get_item_count p_queue = (case p_queue of None \<Rightarrow> 0 | Some q \<Rightarrow> item_count q)"

section \<open>Invariant\<close>

text \<open>
  \<open>kq_rep m q xs\<close>: the queue holds the elements \<open>xs\<close>, linked in order from head to tail, and
  counts them.
\<close>

definition kq_rep :: "klist_mem \<Rightarrow> kqueue \<Rightarrow> addr list \<Rightarrow> bool" where
  "kq_rep m q xs \<longleftrightarrow>
     dll0 m (p_head q) xs \<and> p_tail q = (if xs = [] then NULL else last xs) \<and>
     item_count q = of_nat (length xs)"

text \<open>An element may be inserted when it is in no list: not queued, and its links are null.\<close>

definition unlinked :: "klist_mem \<Rightarrow> addr \<Rightarrow> bool" where
  "unlinked m e \<longleftrightarrow> e \<noteq> NULL \<and> next_of m e = NULL \<and> prev_of m e = NULL"

lemma kq_rep_empty_iff:
  assumes "kq_rep m q xs"
  shows "kqueue_is_empty (Some q) \<longleftrightarrow> xs = []"
proof -
  have "last xs \<noteq> NULL" if "xs \<noteq> []"
    using assms chain_nonnull [of "next_of m" "p_head q" xs] last_in_set [OF that]
    unfolding kq_rep_def dll0_def by metis
  moreover have "p_head q \<noteq> NULL" if "xs \<noteq> []"
    using assms that by (cases xs) (auto simp: kq_rep_def dll0_def)
  ultimately show ?thesis
    using assms by (auto simp: kq_rep_def kqueue_is_empty_def)
qed

lemma kqueue_init_rep: "kq_rep m (the (kqueue_init (Some q))) []"
  by (simp add: kqueue_init_def kq_rep_def)

lemma kqueue_insert_rep:
  assumes r: "kq_rep m q xs" and e: "unlinked m e" "e \<notin> set xs"
  obtains m' q' where "kqueue_insert m (Some q) e = (m', Some q')" and "kq_rep m' q' (xs @ [e])"
    and "f_drop q' = f_drop q"
proof (cases "xs = []")
  case True
  let ?q = "q\<lparr>p_tail := e, p_head := e, item_count := item_count q + 1\<rparr>"
  have "kqueue_insert m (Some q) e = (m, Some ?q)"
    using r e True by (simp add: kqueue_insert_def klist_tail_append_def kq_rep_def unlinked_def)
  moreover have "kq_rep m ?q (xs @ [e])"
    using r e True by (simp add: kq_rep_def unlinked_def dll0_def)
  ultimately show ?thesis by (rule that) simp
next
  case False
  let ?m = "fst (klist_tail_append m (last xs) e)"
  let ?q = "q\<lparr>p_tail := e, item_count := item_count q + 1\<rparr>"
  have h: "p_head q \<noteq> NULL"
    using r False by (cases xs) (auto simp: kq_rep_def dll0_def)
  have d: "dll0 m (p_head q) xs" "e \<noteq> NULL" using r e by (auto simp: kq_rep_def unlinked_def)
  note app = klist_tail_append_dll0 [OF d(1) False e(2) d(2)]
  have "kqueue_insert m (Some q) e = (?m, Some ?q)"
    using r False h d(2) app(1)
    by (cases "klist_tail_append m (last xs) e")
       (simp add: kqueue_insert_def kq_rep_def)
  moreover have "kq_rep ?m ?q (xs @ [e])"
    using r app(2) by (simp add: kq_rep_def)
  ultimately show ?thesis by (rule that) simp
qed

lemma kqueue_dequeue_rep:
  assumes r: "kq_rep m q (x # xs)"
  obtains m' q' where "kqueue_dequeue m (Some q) = (m', Some q', x)" and "kq_rep m' q' xs"
    and "f_drop q' = f_drop q" and "unlinked m' x" and "x \<notin> set xs"
proof -
  let ?m = "klist_remove_elem m x"
  let ?q = "q\<lparr>p_head := next_of m x, p_tail := (if xs = [] then NULL else last xs),
              item_count := item_count q - 1\<rparr>"
  have d: "dll0 m x (x # xs)" and h: "p_head q = x" and t: "p_tail q = last (x # xs)"
    and c: "item_count q = of_nat (length (x # xs))"
    using r by (auto simp: kq_rep_def dll0_def)
  have x: "x \<noteq> NULL" "x \<notin> set xs" using d dll0_distinct [OF d] by (auto simp: dll0_def)
  have "last (x # xs) = x \<longleftrightarrow> xs = []" using x(2) last_in_set [of xs] by auto
  moreover have "\<not> kqueue_is_empty (Some q)" using kq_rep_empty_iff [OF r] by simp
  ultimately have "kqueue_dequeue m (Some q) = (?m, Some ?q, x)"
    using h t by (auto simp: kqueue_dequeue_def Let_def)
  moreover have "kq_rep ?m ?q xs"
    using klist_remove_head_dll0 [OF d] c by (simp add: kq_rep_def)
  moreover have "f_drop ?q = f_drop q" by simp
  moreover have "unlinked ?m x"
    using x by (simp add: unlinked_def klist_remove_elem_cleared)
  ultimately show ?thesis using x(2) by (rule that)
qed

lemma kqueue_dequeue_Nil:
  "kq_rep m q [] \<Longrightarrow> kqueue_dequeue m (Some q) = (m, Some q, NULL)"
  using kq_rep_empty_iff [of m q "[]"] by (simp add: kqueue_dequeue_def)

section \<open>A first-in first-out queue\<close>

text \<open>
  The operations as the \<open>fifo_queue\<close> interface sees them: the state is the list memory with the
  control block, an insert is refused when the element is linked or queued.
\<close>

type_synonym kq_state = "klist_mem \<times> kqueue"

definition kq_holds :: "kq_state \<Rightarrow> addr list \<Rightarrow> bool" where
  "kq_holds s xs \<longleftrightarrow> kq_rep (fst s) (snd s) xs"

definition kq_room :: "addr \<Rightarrow> kq_state \<Rightarrow> bool" where
  "kq_room e s \<longleftrightarrow> unlinked (fst s) e \<and> p_head (snd s) \<noteq> e"

definition kq_enq :: "addr \<Rightarrow> kq_state \<Rightarrow> kq_state option" where
  "kq_enq e s =
     (if kq_room e s
      then (case kqueue_insert (fst s) (Some (snd s)) e of
              (m', Some q') \<Rightarrow> Some (m', q') | (m', None) \<Rightarrow> None)
      else None)"

definition kq_deq :: "kq_state \<Rightarrow> (addr \<times> kq_state) option" where
  "kq_deq s =
     (case kqueue_dequeue (fst s) (Some (snd s)) of
        (m', Some q', x) \<Rightarrow> if x = NULL then None else Some (x, (m', q'))
      | (m', None, x) \<Rightarrow> None)"

text \<open>A queued element is linked, unless it is the only one.\<close>

lemma kq_rep_linked:
  assumes "kq_rep m q xs" and "x \<in> set xs" and "unlinked m x"
  shows "p_head q = x"
proof -
  obtain as bs where xs: "xs = as @ x # bs" using assms(2) by (meson split_list)
  have "as = []"
  proof (rule ccontr)
    assume "as \<noteq> []"
    then have "prev_of m x = last as" and "last as \<in> set xs"
      using assms(1) xs by (auto simp: kq_rep_def dll0_def)
    moreover have "NULL \<notin> set xs"
      using assms(1) chain_nonnull by (auto simp: kq_rep_def dll0_def)
    ultimately show False using assms(3) by (auto simp: unlinked_def)
  qed
  with assms(1) xs show ?thesis by (auto simp: kq_rep_def dll0_def)
qed

interpretation kq: fifo_queue kq_enq kq_deq kq_holds kq_room
proof unfold_locales
  fix s xs e assume h: "kq_holds s xs" and r: "kq_room e s"
  have "e \<notin> set xs" using kq_rep_linked [of "fst s" "snd s" xs e] h r
    by (auto simp: kq_holds_def kq_room_def)
  moreover have "unlinked (fst s) e" using r by (simp add: kq_room_def)
  ultimately obtain m' q' where "kqueue_insert (fst s) (Some (snd s)) e = (m', Some q')"
    "kq_rep m' q' (xs @ [e])"
    using h kqueue_insert_rep unfolding kq_holds_def by metis
  with r show "\<exists>s'. kq_enq e s = Some s' \<and> kq_holds s' (xs @ [e])"
    by (simp add: kq_enq_def kq_holds_def)
next
  fix s xs e assume "kq_holds s xs" and "\<not> kq_room e s"
  then show "kq_enq e s = None" by (simp add: kq_enq_def)
next
  fix s assume "kq_holds s []"
  then show "kq_deq s = None"
    by (simp add: kq_deq_def kq_holds_def kqueue_dequeue_Nil)
next
  fix s x xs assume h: "kq_holds s (x # xs)"
  then obtain m' q' where "kqueue_dequeue (fst s) (Some (snd s)) = (m', Some q', x)"
    "kq_rep m' q' xs" "unlinked m' x"
    using kqueue_dequeue_rep unfolding kq_holds_def by metis
  then show "\<exists>s'. kq_deq s = Some (x, s') \<and> kq_holds s' xs"
    by (simp add: kq_deq_def kq_holds_def unlinked_def)
qed

section \<open>Dropping and searching\<close>

lemma kqueue_drop_all_rep:
  assumes "kq_rep m q xs"
  shows "\<exists>m' q'. kqueue_drop_all m (Some q) tr =
      Some (m', Some q', tr @ (if f_drop q = NULL then [] else map (Pair (f_drop q)) xs)) \<and>
    kq_rep m' q' [] \<and> f_drop q' = f_drop q"
  using assms
proof (induction xs arbitrary: m q tr)
  case Nil
  then show ?case
    using kq_rep_empty_iff [OF Nil] by (simp add: kqueue_drop_all.simps)
next
  case (Cons x xs)
  obtain m' q' where d: "kqueue_dequeue m (Some q) = (m', Some q', x)" "kq_rep m' q' xs"
    "f_drop q' = f_drop q"
    using kqueue_dequeue_rep [OF Cons.prems] by metis
  have ne: "\<not> kqueue_is_empty (Some q)" using kq_rep_empty_iff [OF Cons.prems] by simp
  from Cons.IH [OF d(2), of "if f_drop q \<noteq> NULL then tr @ [(f_drop q, x)] else tr"] d(1,3)
  show ?case by (auto simp: kqueue_drop_all.simps [of m "Some q"] ne)
qed

lemma kqueue_drop_through_rep:
  assumes "kq_rep m q (as @ e # bs)" and "e \<notin> set as" and "f_drop q \<noteq> NULL"
  shows "\<exists>m' q'. kqueue_drop_all_through_elem m (Some q) e tr =
      Some (Inr (m', Some q', tr @ map (Pair (f_drop q)) (as @ [e]))) \<and>
    kq_rep m' q' bs \<and> f_drop q' = f_drop q"
  using assms
proof (induction as arbitrary: m q tr)
  case Nil
  then have "kq_rep m q (e # bs)" by simp
  then obtain m' q' where d: "kqueue_dequeue m (Some q) = (m', Some q', e)" "kq_rep m' q' bs"
    "f_drop q' = f_drop q" "unlinked m' e"
    using kqueue_dequeue_rep by metis
  with Nil show ?case
    by (simp add: kqueue_drop_all_through_elem.simps [of m "Some q"] unlinked_def)
next
  case (Cons a as)
  then have "kq_rep m q (a # as @ e # bs)" by simp
  then obtain m' q' where d: "kqueue_dequeue m (Some q) = (m', Some q', a)"
    "kq_rep m' q' (as @ e # bs)" "f_drop q' = f_drop q" "unlinked m' a"
    using kqueue_dequeue_rep by metis
  from Cons.IH [OF d(2), of "tr @ [(f_drop q, a)]"] Cons.prems d
  show ?case
    by (auto simp: kqueue_drop_all_through_elem.simps [of m "Some q"] unlinked_def)
qed

section \<open>Properties\<close>

text \<open>
  C14: (refinement) For any interleaving of \<open>kqueue_insert\<close> (of elements that are in no list) and
  \<open>kqueue_dequeue\<close> on a queue that holds \<open>xs\<close>, the elements of \<open>xs\<close> followed by the inserted ones are
  the dequeued ones followed by those the queue still holds: the queue is first-in first-out, loses
  nothing and duplicates nothing.
\<close>

theorem kqueue_fifo:
  assumes "kq_rep m q xs" and "qrun kq_enq kq_deq ops (m, q) = (ins, outs, (m', q'))"
  shows "\<exists>ys. kq_rep m' q' ys \<and> xs @ ins = outs @ ys \<and>
    kqueue_get_item_count (Some q') = of_nat (length ys)"
proof -
  have "kq_holds (m, q) xs" using assms(1) by (simp add: kq_holds_def)
  from kq.qrun_fifo [OF this assms(2)]
  obtain ys where ys: "kq_rep m' q' ys" "xs @ ins = outs @ ys" by (auto simp: kq_holds_def)
  then have "kqueue_get_item_count (Some q') = of_nat (length ys)"
    by (simp add: kq_rep_def kqueue_get_item_count_def)
  with ys show ?thesis by blast
qed

text \<open>A memory without links and a fresh queue.\<close>

definition no_links :: klist_mem where
  "no_links = \<lparr>prev_of = (\<lambda>_. NULL), next_of = (\<lambda>_. NULL)\<rparr>"

definition empty_kqueue :: kqueue where
  "empty_kqueue = \<lparr>p_head = NULL, p_tail = NULL, f_drop = NULL, item_count = 0\<rparr>"

lemma empty_kqueue_rep: "kq_rep no_links empty_kqueue []"
  by (simp add: kq_rep_def empty_kqueue_def)

theorem kqueue_fifo_witness:
  "\<exists>m' q' ys. qrun kq_enq kq_deq [Enq 5, Enq 6, Deq, Enq 7] (no_links, empty_kqueue) =
      ([5, 6, 7], [5], (m', q')) \<and> kq_rep m' q' ys \<and> [5, 6, 7] = [5] @ ys"
proof -
  obtain m' q' where r: "qrun kq_enq kq_deq [Enq 5, Enq 6, Deq, Enq 7] (no_links, empty_kqueue) =
      ([5, 6, 7], [5], (m', q'))"
    by (simp add: kq_enq_def kq_deq_def kq_room_def unlinked_def no_links_def empty_kqueue_def
        kqueue_insert_def kqueue_dequeue_def kqueue_is_empty_def klist_tail_append_def
        klist_remove_elem_def set_prev_def set_next_def)
  from kqueue_fifo [OF empty_kqueue_rep r] r show ?thesis by auto
qed

text \<open>
  C34: (termination) \<open>kqueue_drop_all\<close> and \<open>kqueue_drop_all_through_elem\<close> return on every well-formed
  queue. The first hands every element to the registered callback in queue order (to none when no
  callback is registered) and leaves the queue empty; the second hands over the elements up to and
  including the given one and leaves the others queued in order.
\<close>

theorem kqueue_drops:
  assumes "kq_rep m q (as @ e # bs)" and "f_drop q \<noteq> NULL"
  shows "\<exists>m1 q1 m2 q2.
    kqueue_drop_all m (Some q) [] =
      Some (m1, Some q1, map (Pair (f_drop q)) (as @ e # bs)) \<and> kq_rep m1 q1 [] \<and>
    kqueue_drop_all_through_elem m (Some q) e [] =
      Some (Inr (m2, Some q2, map (Pair (f_drop q)) (as @ [e]))) \<and> kq_rep m2 q2 bs"
proof -
  have "distinct (as @ e # bs)" using assms(1) dll0_distinct unfolding kq_rep_def by blast
  then have "e \<notin> set as" by simp
  with kqueue_drop_all_rep [OF assms(1), of "[]"]
    kqueue_drop_through_rep [OF assms(1) _ assms(2), of "[]"] assms(2)
  show ?thesis by auto
qed

theorem kqueue_drops_witness:
  "\<exists>m2 q2. kqueue_drop_all_through_elem
      \<lparr>prev_of = (\<lambda>x. if x = 6 then 5 else 0), next_of = (\<lambda>x. if x = 5 then 6 else 0)\<rparr>
      (Some \<lparr>p_head = 5, p_tail = 6, f_drop = 99, item_count = 2\<rparr>) 5 [] =
        Some (Inr (m2, Some q2, [(99, 5)])) \<and> kq_rep m2 q2 [6]"
  using kqueue_drops [of
      "\<lparr>prev_of = (\<lambda>x. if x = 6 then 5 else 0), next_of = (\<lambda>x. if x = 5 then 6 else 0)\<rparr>"
      "\<lparr>p_head = 5, p_tail = 6, f_drop = 99, item_count = 2\<rparr>" "[]" 5 "[6]"]
  by (auto simp: kq_rep_def dll0_def)

text \<open>
  (error) The condition on inserted elements is needed: when an element whose \<open>next\<close> link still
  points to \<open>n\<close> is inserted into an empty queue and dequeued again, the head is left at \<open>n\<close>, so that
  the next element inserted and dequeued comes back as \<open>n\<close>, which was never inserted.
\<close>

theorem kqueue_stale_link:
  assumes "kq_rep m q []" and "e \<noteq> NULL" and "next_of m e = n" and "n \<noteq> NULL"
    and "e' \<noteq> NULL" and "n \<noteq> e'"
  shows "\<exists>m1 q1 m2 q2 m3 q3 m4 q4.
    kqueue_insert m (Some q) e = (m1, Some q1) \<and> kqueue_dequeue m1 (Some q1) = (m2, Some q2, e) \<and>
    kqueue_insert m2 (Some q2) e' = (m3, Some q3) \<and>
    kqueue_dequeue m3 (Some q3) = (m4, Some q4, n)"
proof -
  let ?q1 = "q\<lparr>p_tail := e, p_head := e, item_count := item_count q + 1\<rparr>"
  let ?q2 = "q\<lparr>p_tail := NULL, p_head := n, item_count := item_count q\<rparr>"
  let ?m2 = "klist_remove_elem m e"
  let ?q3 = "?q2\<lparr>p_tail := e', item_count := item_count q + 1\<rparr>"
  have "kqueue_insert m (Some q) e = (m, Some ?q1)"
    using assms(1,2) by (simp add: kqueue_insert_def klist_tail_append_def kq_rep_def)
  moreover have "kqueue_dequeue m (Some ?q1) = (?m2, Some ?q2, e)"
    using assms(2,3) by (simp add: kqueue_dequeue_def kqueue_is_empty_def Let_def)
  moreover have "kqueue_insert ?m2 (Some ?q2) e' = (?m2, Some ?q3)"
    using assms(4,5) by (simp add: kqueue_insert_def klist_tail_append_def)
  moreover obtain m4 q4 where "kqueue_dequeue ?m2 (Some ?q3) = (m4, Some q4, n)"
    using assms(4-6) by (simp add: kqueue_dequeue_def kqueue_is_empty_def Let_def)
  ultimately show ?thesis by blast
qed

theorem kqueue_stale_link_witness:
  "\<exists>m1 q1 m2 q2 m3 q3 m4 q4.
    kqueue_insert \<lparr>prev_of = (\<lambda>_. 0), next_of = (\<lambda>x. if x = 5 then 9 else 0)\<rparr>
      (Some empty_kqueue) 5 = (m1, Some q1) \<and> kqueue_dequeue m1 (Some q1) = (m2, Some q2, 5) \<and>
    kqueue_insert m2 (Some q2) 6 = (m3, Some q3) \<and>
    kqueue_dequeue m3 (Some q3) = (m4, Some q4, 9)"
  by (rule kqueue_stale_link) (simp_all add: kq_rep_def empty_kqueue_def)

end
