(* ===== verification/Allocator.thy ===== *)
theory Allocator
  imports Prelude "HOL-Library.Multiset"
begin

text \<open>
  The interface of a fixed-block allocator, as the clients of \<open>free_list.h\<close> and \<open>pool.h\<close> use one,
  and what follows for a client that allocates and releases blocks in any order: every block is
  either free or held by the client, never both, and no block is handed out twice.
\<close>

datatype aop = Alloc | Release addr

text \<open>
  The run of a client: it holds a list of blocks, an \<open>Alloc\<close> adds one when the allocator has one
  left, a \<open>Release\<close> gives back a block it holds (other releases are skipped: a client only releases
  what it holds).
\<close>

fun arun :: "('s \<Rightarrow> (addr \<times> 's) option) \<Rightarrow> (addr \<Rightarrow> 's \<Rightarrow> 's option) \<Rightarrow> aop list
    \<Rightarrow> addr list \<Rightarrow> 's \<Rightarrow> (addr list \<times> 's) option" where
  "arun alloc release [] held s = Some (held, s)"
| "arun alloc release (Alloc # ops) held s =
     (case alloc s of
        None \<Rightarrow> arun alloc release ops held s
      | Some (x, s') \<Rightarrow> arun alloc release ops (x # held) s')"
| "arun alloc release (Release x # ops) held s =
     (if x \<in> set held
      then (case release x s of
              None \<Rightarrow> None
            | Some s' \<Rightarrow> arun alloc release ops (remove1 x held) s')
      else arun alloc release ops held s)"

text \<open>
  \<open>free_in B s fs\<close>: \<open>B\<close> are all the blocks of the allocator and \<open>fs\<close> the free ones of state \<open>s\<close>.
  \<open>budget n s\<close>: the state can take \<open>n\<close> more releases (an allocator whose counters are bounded can
  take only so many).
\<close>

locale block_allocator =
  fixes alloc :: "'s \<Rightarrow> (addr \<times> 's) option"
    and release :: "addr \<Rightarrow> 's \<Rightarrow> 's option"
    and free_in :: "addr set \<Rightarrow> 's \<Rightarrow> addr list \<Rightarrow> bool"
    and budget :: "nat \<Rightarrow> 's \<Rightarrow> bool"
  assumes free_distinct: "free_in B s fs \<Longrightarrow> distinct fs \<and> set fs \<subseteq> B"
    and alloc_some: "free_in B s fs \<Longrightarrow> fs \<noteq> [] \<Longrightarrow>
      \<exists>x s' fs'. alloc s = Some (x, s') \<and> free_in B s' fs' \<and> x \<in> set fs \<and> fs' = remove1 x fs"
    and alloc_none: "free_in B s [] \<Longrightarrow> alloc s = None"
    and alloc_budget: "alloc s = Some (x, s') \<Longrightarrow> budget n s \<Longrightarrow> budget n s'"
    and release_some: "free_in B s fs \<Longrightarrow> x \<in> B \<Longrightarrow> x \<notin> set fs \<Longrightarrow> budget (Suc n) s \<Longrightarrow>
      \<exists>s' fs'. release x s = Some s' \<and> free_in B s' fs' \<and> mset fs' = add_mset x (mset fs) \<and>
        budget n s'"
    and budget_mono: "budget (Suc n) s \<Longrightarrow> budget n s"
begin

text \<open>The blocks of the allocator are split between the client and the free list.\<close>

definition splits :: "addr set \<Rightarrow> addr list \<Rightarrow> 's \<Rightarrow> bool" where
  "splits B held s \<longleftrightarrow>
     (\<exists>fs. free_in B s fs \<and> distinct held \<and> set held \<inter> set fs = {} \<and> set held \<union> set fs = B)"

lemma splits_alloc:
  assumes "splits B held s" and "alloc s = Some (x, s')"
  shows "x \<notin> set held" and "splits B (x # held) s'"
proof -
  obtain fs where fs: "free_in B s fs" "distinct held" "set held \<inter> set fs = {}"
    "set held \<union> set fs = B"
    using assms(1) by (auto simp: splits_def)
  have "fs \<noteq> []" using assms(2) alloc_none fs(1) by auto
  then have x: "free_in B s' (remove1 x fs)" "x \<in> set fs"
    using alloc_some [OF fs(1)] assms(2) by auto
  then show "x \<notin> set held" using fs(3) by auto
  have "set (remove1 x fs) = set fs - {x}" using free_distinct [OF fs(1)] by simp
  with x fs show "splits B (x # held) s'"
    unfolding splits_def by (intro exI [of _ "remove1 x fs"]) auto
qed

lemma splits_release:
  assumes "splits B held s" and "x \<in> set held" and "budget (Suc n) s"
  shows "\<exists>s'. release x s = Some s' \<and> splits B (remove1 x held) s' \<and> budget n s'"
proof -
  obtain fs where fs: "free_in B s fs" "distinct held" "set held \<inter> set fs = {}"
    "set held \<union> set fs = B"
    using assms(1) by (auto simp: splits_def)
  with assms(2) have "x \<in> B" "x \<notin> set fs" by auto
  from release_some [OF fs(1) this assms(3)] obtain s' fs' where s': "release x s = Some s'"
    "free_in B s' fs'" "mset fs' = add_mset x (mset fs)" "budget n s'"
    by blast
  have "set fs' = insert x (set fs)"
    using arg_cong [OF s'(3), of set_mset] by simp
  with s' fs assms(2) show ?thesis
    unfolding splits_def by (intro exI [of _ s'] conjI exI [of _ fs']) auto
qed

lemma arun_splits:
  assumes "splits B held s" and "budget (length ops) s"
  shows "\<exists>held' s'. arun alloc release ops held s = Some (held', s') \<and> splits B held' s'"
  using assms
proof (induction ops arbitrary: held s)
  case (Cons op ops)
  have b: "budget (length ops) s" using Cons.prems(2) budget_mono by simp
  show ?case
  proof (cases op)
    case Alloc
    show ?thesis
    proof (cases "alloc s")
      case None
      with Cons.IH [OF Cons.prems(1) b] Alloc show ?thesis by simp
    next
      case (Some p)
      then obtain x s' where p: "alloc s = Some (x, s')" by (cases p) auto
      with Cons.IH [OF splits_alloc(2) [OF Cons.prems(1) p] alloc_budget [OF p b]] Alloc
      show ?thesis by simp
    qed
  next
    case (Release x)
    show ?thesis
    proof (cases "x \<in> set held")
      case True
      then obtain s' where "release x s = Some s'" "splits B (remove1 x held) s'"
        "budget (length ops) s'"
        using splits_release [OF Cons.prems(1)] Cons.prems(2) by auto
      with Cons.IH True Release show ?thesis by simp
    next
      case False
      with Cons.IH [OF Cons.prems(1) b] Release show ?thesis by simp
    qed
  qed
qed simp

end

end
