(* ===== verification/Free_List.thy ===== *)
theory Free_List
  imports Klist Allocator
begin

text \<open>
  The free list of \<open>inc/cutils/free_list.h\<close>: a stack of equally sized items threaded through the
  items' own list links. The items of the store are the blocks of a \<open>block_allocator\<close>.
\<close>

section \<open>Control block and operations\<close>

record free_list =
  fl_head :: addr
  data_store :: addr
  item_size :: nat
  fl_item_count :: nat
  current_available :: nat

record free_list_create_params =
  fp_list :: "free_list option"
  fp_data_store :: addr
  fp_item_size :: nat
  fp_item_count :: nat

text \<open>The address of item \<open>i\<close> of the store.\<close>

definition item_addr :: "addr \<Rightarrow> nat \<Rightarrow> nat \<Rightarrow> addr" where
  "item_addr store sz i = store + sz * i"

definition free_list_init_step ::
  "free_list_create_params \<Rightarrow> nat \<Rightarrow> klist_mem \<times> free_list \<Rightarrow> klist_mem \<times> free_list" where
  "free_list_init_step p i s =
     (let (m', h') = klist_head_prepend (fst s) (fl_head (snd s))
            (item_addr (fp_data_store p) (fp_item_size p) i)
      in (m', (snd s)\<lparr>fl_head := h', current_available := current_available (snd s) + 1\<rparr>))"

definition free_list_init ::
  "klist_mem \<Rightarrow> free_list_create_params \<Rightarrow> klist_mem \<times> free_list option" where
  "free_list_init m p =
     (case fp_list p of
        None \<Rightarrow> (m, None)
      | Some l \<Rightarrow>
          if fp_data_store p \<noteq> NULL \<and> fp_item_size p > 0
          then (let l0 = l\<lparr>data_store := fp_data_store p, item_size := fp_item_size p,
                           fl_item_count := fp_item_count p, fl_head := NULL,
                           current_available := 0\<rparr>;
                    (m', l') = fold (free_list_init_step p) [0..<fp_item_count p] (m, l0)
                in (m', Some l'))
          else (m, None))"

definition free_list_get :: "klist_mem \<Rightarrow> free_list \<Rightarrow> klist_mem \<times> free_list \<times> addr" where
  "free_list_get m l =
     (if fl_head l \<noteq> NULL \<and> current_available l > 0
      then (let (m', h', item) = klist_head_pop m (fl_head l)
            in (m', l\<lparr>fl_head := h', current_available := current_available l - 1\<rparr>, item))
      else (m, l, NULL))"

definition free_list_put ::
  "klist_mem \<Rightarrow> free_list option \<Rightarrow> addr \<Rightarrow> klist_mem \<times> free_list option \<times> bool" where
  "free_list_put m p_list item =
     (case p_list of
        None \<Rightarrow> (m, None, False)
      | Some l \<Rightarrow>
          if current_available l < fl_item_count l
          then (let (m', h') = klist_head_prepend m (fl_head l) item
                in (m', Some (l\<lparr>fl_head := h',
                                current_available := current_available l + 1\<rparr>), True))
          else (m, Some l, False))"

section \<open>Invariant\<close>

text \<open>
  \<open>fl_rep B m l fs\<close>: \<open>B\<close> are the items of the store, \<open>fs\<close> the free ones in the order in which
  they will be handed out; items that are out have a null \<open>next\<close> link.
\<close>

definition fl_rep :: "addr set \<Rightarrow> klist_mem \<Rightarrow> free_list \<Rightarrow> addr list \<Rightarrow> bool" where
  "fl_rep B m l fs \<longleftrightarrow>
     dll m (fl_head l) fs \<and> current_available l = length fs \<and>
     finite B \<and> fl_item_count l = card B \<and> set fs \<subseteq> B \<and> NULL \<notin> B \<and>
     (\<forall>x \<in> B - set fs. next_of m x = NULL)"

lemma fl_rep_distinct: "fl_rep B m l fs \<Longrightarrow> distinct fs"
  by (auto simp: fl_rep_def dest: dll_distinct)

lemma item_addr_inj: "0 < sz \<Longrightarrow> item_addr st sz i = item_addr st sz j \<longleftrightarrow> i = j"
  by (simp add: item_addr_def)

lemma free_list_get_Nil:
  "fl_rep B m l [] \<Longrightarrow> free_list_get m l = (m, l, NULL)"
  by (simp add: fl_rep_def free_list_get_def)

lemma free_list_get_Cons:
  assumes r: "fl_rep B m l (x # fs)"
  obtains m' l' where "free_list_get m l = (m', l', x)" and "fl_rep B m' l' fs"
proof -
  have d: "dll m (fl_head l) (x # fs)" using r by (simp add: fl_rep_def)
  obtain m' where m': "klist_head_pop m (fl_head l) = (m', next_of m x, x)"
    "dll m' (next_of m x) fs" "next_of m' = (next_of m)(x := NULL)"
    using klist_head_pop_dll [OF d] by metis
  let ?l = "l\<lparr>fl_head := next_of m x, current_available := current_available l - 1\<rparr>"
  have "fl_head l \<noteq> NULL" using d by (auto simp: dll_def)
  then have "free_list_get m l = (m', ?l, x)"
    using r m'(1) by (simp add: free_list_get_def fl_rep_def)
  moreover have "fl_rep B m' ?l fs"
    using r m' by (auto simp: fl_rep_def)
  ultimately show ?thesis by (rule that)
qed

lemma free_list_put_rep:
  assumes r: "fl_rep B m l fs" and x: "x \<in> B" "x \<notin> set fs"
  obtains m' l' where "free_list_put m (Some l) x = (m', Some l', True)"
    and "fl_rep B m' l' (x # fs)"
proof -
  let ?m = "fst (klist_head_prepend m (fl_head l) x)"
  let ?l = "l\<lparr>fl_head := x, current_available := current_available l + 1\<rparr>"
  have d: "dll m (fl_head l) fs" and nx: "next_of m x = NULL"
    using r x by (auto simp: fl_rep_def)
  have nn: "x \<noteq> NULL" using r x(1) unfolding fl_rep_def by metis
  note pre = klist_head_prepend_dll [OF d x(2) nn nx]
  have "set (x # fs) \<subseteq> B" using r x by (auto simp: fl_rep_def)
  then have "length (x # fs) \<le> card B"
    using r x fl_rep_distinct [OF r] card_mono [of B "set (x # fs)"] distinct_card [of "x # fs"]
    by (simp add: fl_rep_def)
  then have "free_list_put m (Some l) x = (?m, Some ?l, True)"
    using r pre(1) by (cases "klist_head_prepend m (fl_head l) x")
      (auto simp: free_list_put_def fl_rep_def)
  moreover have "fl_rep B ?m ?l (x # fs)"
  proof -
    have "next_of ?m y = NULL" if "y \<in> B - set (x # fs)" for y
    proof -
      have "next_of ?m y = next_of m y"
        using that d by (cases fs) (auto simp: klist_head_prepend_def dll_def)
      then show ?thesis using r that by (auto simp: fl_rep_def)
    qed
    then show ?thesis using r x pre(2) by (auto simp: fl_rep_def)
  qed
  ultimately show ?thesis by (rule that)
qed

text \<open>Initialising over a store whose links are null puts every item on the list.\<close>

lemma free_list_init_fold:
  assumes "0 < fp_item_size p" and "fp_data_store p \<noteq> NULL"
    and "next_of m (item_addr (fp_data_store p) (fp_item_size p) 0) = NULL"
    and "fl_head l = NULL" and "current_available l = 0"
  shows "\<exists>m' h. fold (free_list_init_step p) [0..<n] (m, l) =
      (m', l\<lparr>fl_head := h, current_available := n\<rparr>) \<and>
    dll m' h (rev (map (item_addr (fp_data_store p) (fp_item_size p)) [0..<n]))"
proof (induction n)
  case 0
  have "l\<lparr>fl_head := NULL, current_available := 0\<rparr> = l" using assms(4,5) by simp
  then show ?case by (intro exI [of _ m] exI [of _ NULL]) simp
next
  case (Suc n)
  let ?a = "item_addr (fp_data_store p) (fp_item_size p)"
  let ?xs = "rev (map ?a [0..<n])"
  obtain m' h where IH: "fold (free_list_init_step p) [0..<n] (m, l) =
      (m', l\<lparr>fl_head := h, current_available := n\<rparr>)" "dll m' h ?xs"
    using Suc by auto
  have fresh: "?a n \<notin> set ?xs" "?a n \<noteq> NULL"
    using assms(1,2) item_addr_inj [OF assms(1)] by (auto simp: item_addr_def)
  have "next_of m' (?a n) = NULL" if "?xs = []"
    using that IH(1) assms(3) by (cases n) auto
  note pre = klist_head_prepend_dll [OF IH(2) fresh this]
  obtain m'' where m'': "klist_head_prepend m' h (?a n) = (m'', ?a n)"
    using pre(1) by (cases "klist_head_prepend m' h (?a n)") auto
  have "free_list_init_step p n (m', l\<lparr>fl_head := h, current_available := n\<rparr>) =
      (m'', l\<lparr>fl_head := ?a n, current_available := Suc n\<rparr>)"
    using m'' by (simp add: free_list_init_step_def)
  with IH(1) pre(2) m'' show ?case
    by (intro exI [of _ m''] exI [of _ "?a n"]) simp
qed

lemma free_list_init_rep:
  assumes "fp_list p = Some l" and "0 < fp_item_size p" and "fp_data_store p \<noteq> NULL"
    and "next_of m (item_addr (fp_data_store p) (fp_item_size p) 0) = NULL"
  obtains m' l' where "free_list_init m p = (m', Some l')"
    and "fl_rep (item_addr (fp_data_store p) (fp_item_size p) ` {0..<fp_item_count p}) m' l'
      (rev (map (item_addr (fp_data_store p) (fp_item_size p)) [0..<fp_item_count p]))"
proof -
  let ?a = "item_addr (fp_data_store p) (fp_item_size p)"
  let ?n = "fp_item_count p"
  let ?l0 = "l\<lparr>data_store := fp_data_store p, item_size := fp_item_size p,
               fl_item_count := ?n, fl_head := NULL, current_available := 0\<rparr>"
  obtain m' h where f: "fold (free_list_init_step p) [0..<?n] (m, ?l0) =
      (m', ?l0\<lparr>fl_head := h, current_available := ?n\<rparr>)" "dll m' h (rev (map ?a [0..<?n]))"
    using free_list_init_fold [OF assms(2,3,4), of ?l0 ?n] by auto
  have inj: "inj_on ?a {0..<?n}" using item_addr_inj [OF assms(2)] by (auto simp: inj_on_def)
  let ?l' = "?l0\<lparr>fl_head := h, current_available := ?n\<rparr>"
  have "free_list_init m p = (m', Some ?l')"
    using assms f(1) by (simp add: free_list_init_def Let_def)
  moreover have "NULL \<notin> ?a ` {0..<?n}" using assms(3) by (auto simp: item_addr_def)
  then have "fl_rep (?a ` {0..<?n}) m' ?l' (rev (map ?a [0..<?n]))"
    using f(2) card_image [OF inj] by (auto simp: fl_rep_def)
  ultimately show ?thesis by (rule that)
qed

section \<open>A block allocator\<close>

type_synonym fl_state = "klist_mem \<times> free_list"

definition fl_alloc :: "fl_state \<Rightarrow> (addr \<times> fl_state) option" where
  "fl_alloc s = (let (m', l', x) = free_list_get (fst s) (snd s)
                 in if x = NULL then None else Some (x, (m', l')))"

definition fl_release :: "addr \<Rightarrow> fl_state \<Rightarrow> fl_state option" where
  "fl_release x s =
     (case free_list_put (fst s) (Some (snd s)) x of
        (m', Some l', True) \<Rightarrow> Some (m', l') | _ \<Rightarrow> None)"

definition fl_free_in :: "addr set \<Rightarrow> fl_state \<Rightarrow> addr list \<Rightarrow> bool" where
  "fl_free_in B s fs \<longleftrightarrow> fl_rep B (fst s) (snd s) fs"

text \<open>A free list takes any number of releases.\<close>

definition fl_budget :: "nat \<Rightarrow> fl_state \<Rightarrow> bool" where
  "fl_budget n s = True"

interpretation fl: block_allocator fl_alloc fl_release fl_free_in fl_budget
proof unfold_locales
  fix B s fs assume "fl_free_in B s fs"
  then show "distinct fs \<and> set fs \<subseteq> B"
    using fl_rep_distinct by (auto simp: fl_free_in_def fl_rep_def)
next
  fix B s fs assume r: "fl_free_in B s fs" and "fs \<noteq> []"
  then obtain x gs where fs: "fs = x # gs" by (cases fs) auto
  with r have rep: "fl_rep B (fst s) (snd s) (x # gs)" by (simp add: fl_free_in_def)
  obtain m' l' where g: "free_list_get (fst s) (snd s) = (m', l', x)" "fl_rep B m' l' gs"
    using free_list_get_Cons [OF rep] by metis
  have "x \<in> B" "NULL \<notin> B" using rep by (auto simp: fl_rep_def)
  then have "x \<noteq> NULL" by metis
  with g fs show "\<exists>x s' fs'. fl_alloc s = Some (x, s') \<and> fl_free_in B s' fs' \<and> x \<in> set fs \<and>
      fs' = remove1 x fs"
    by (simp add: fl_alloc_def fl_free_in_def)
next
  fix B s assume "fl_free_in B s []"
  then show "fl_alloc s = None"
    by (simp add: fl_alloc_def fl_free_in_def free_list_get_Nil)
next
  fix B s fs x assume r: "fl_free_in B s fs" and x: "x \<in> B" "x \<notin> set fs"
  then obtain m' l' where "free_list_put (fst s) (Some (snd s)) x = (m', Some l', True)"
    "fl_rep B m' l' (x # fs)"
    using free_list_put_rep unfolding fl_free_in_def by metis
  then show "\<exists>s' fs'. fl_release x s = Some s' \<and> fl_free_in B s' fs' \<and>
      mset fs' = add_mset x (mset fs) \<and> fl_budget n s'" for n
    by (intro exI [of _ "(m', l')"] exI [of _ "x # fs"])
       (simp add: fl_release_def fl_free_in_def fl_budget_def)
qed (simp_all add: fl_budget_def)

section \<open>Properties\<close>

text \<open>The allocator's contract from \<open>free_list_init\<close> on.\<close>

lemma fl_init_runs:
  assumes "fp_list p = Some l" and "0 < fp_item_size p" and "fp_data_store p \<noteq> NULL"
    and "next_of m (fp_data_store p) = NULL"
  shows "\<exists>m0 l0 held m' l'. free_list_init m p = (m0, Some l0) \<and>
    arun fl_alloc fl_release ops [] (m0, l0) = Some (held, (m', l')) \<and> distinct held \<and>
    set held \<subseteq> item_addr (fp_data_store p) (fp_item_size p) ` {0..<fp_item_count p} \<and>
    current_available l' + length held = fp_item_count p"
proof -
  let ?a = "item_addr (fp_data_store p) (fp_item_size p)"
  let ?B = "?a ` {0..<fp_item_count p}"
  have first: "next_of m (?a 0) = NULL" using assms(4) by (simp add: item_addr_def)
  obtain m0 l0 where i: "free_list_init m p = (m0, Some l0)"
    "fl_rep ?B m0 l0 (rev (map ?a [0..<fp_item_count p]))"
    using free_list_init_rep [OF assms(1-3) first] by metis
  then have "fl.splits ?B [] (m0, l0)"
    unfolding fl.splits_def by (intro exI conjI) (auto simp: fl_free_in_def)
  moreover have "fl_budget (length ops) (m0, l0)" by (simp add: fl_budget_def)
  ultimately have "\<exists>held' s'. arun fl_alloc fl_release ops [] (m0, l0) = Some (held', s') \<and>
      fl.splits ?B held' s'"
    by (rule fl.arun_splits)
  then
  obtain held m' l' where r: "arun fl_alloc fl_release ops [] (m0, l0) = Some (held, (m', l'))"
    "fl.splits ?B held (m', l')"
    by auto
  then obtain fs where fs: "fl_rep ?B m' l' fs" "distinct held" "set held \<inter> set fs = {}"
    "set held \<union> set fs = ?B"
    by (auto simp: fl.splits_def fl_free_in_def)
  have "card ?B = fp_item_count p"
    using item_addr_inj [OF assms(2)] by (simp add: card_image inj_on_def)
  moreover have "card ?B = length held + length fs"
    using fs card_Un_disjoint [of "set held" "set fs"] fl_rep_distinct [OF fs(1)]
    by (metis List.finite_set distinct_card)
  ultimately have "current_available l' + length held = fp_item_count p"
    using fs(1) by (simp add: fl_rep_def)
  with i(1) r(1) fs show ?thesis by blast
qed



text \<open>
  (error) \<open>free_list_put\<close> does not reject a null item: on a list with an item out it returns true
  and counts an item that it does not hold, after which the list is no longer well formed.
\<close>

theorem free_list_put_null:
  assumes "fl_rep B m l fs" and "length fs < card B"
  shows "\<exists>l'. free_list_put m (Some l) NULL = (m, Some l', True) \<and>
    current_available l' = Suc (length fs) \<and> (\<forall>gs. \<not> fl_rep B m l' gs)"
proof -
  let ?l = "l\<lparr>current_available := Suc (length fs)\<rparr>"
  have "free_list_put m (Some l) NULL = (m, Some ?l, True)"
    using assms by (simp add: free_list_put_def fl_rep_def klist_head_prepend_def)
  moreover have "\<not> fl_rep B m ?l gs" for gs
  proof
    assume g: "fl_rep B m ?l gs"
    have "gs = fs"
      using assms(1) g chain_unique [of "next_of m" "fl_head l" fs gs]
      by (auto simp: fl_rep_def dll_def)
    with g show False by (simp add: fl_rep_def)
  qed
  ultimately show ?thesis by auto
qed

theorem free_list_put_null_witness:
  "\<exists>l'. free_list_put \<lparr>prev_of = (\<lambda>_. 0), next_of = (\<lambda>_. 0)\<rparr>
      (Some \<lparr>fl_head = 0, data_store = 100, item_size = 16, fl_item_count = 1,
         current_available = 0\<rparr>) NULL =
      (\<lparr>prev_of = (\<lambda>_. 0), next_of = (\<lambda>_. 0)\<rparr>, Some l', True) \<and> current_available l' = 1"
  using free_list_put_null [of "{100}" "\<lparr>prev_of = (\<lambda>_. 0), next_of = (\<lambda>_. 0)\<rparr>"
      "\<lparr>fl_head = 0, data_store = 100, item_size = 16, fl_item_count = 1,
        current_available = 0\<rparr>" "[]"]
  by (auto simp: fl_rep_def dll_def)

end
