(* ===== verification/Endian.thy ===== *)
theory Endian
  imports Prelude
begin

text \<open>
  The byte swaps of \<open>src/endian.c\<close> on machine words, compared with the reversal of the bytes.
\<close>

section \<open>Operations\<close>

text \<open>
  \<open>x << n\<close> is \<open>push_bit n x\<close> and \<open>x >> n\<close> is \<open>drop_bit n x\<close>. In \<open>byteswap16\<close> the operand is
  promoted to \<open>int\<close> first, so the shift left is computed in 32 bits and the cast cuts it back.
\<close>

definition byteswap16 :: "u16 \<Rightarrow> u16" where
  "byteswap16 x = ucast ((push_bit 8 (ucast x :: u32)) OR drop_bit 8 (ucast x :: u32))"

definition byteswap32 :: "u32 \<Rightarrow> u32" where
  "byteswap32 x =
     (drop_bit 8 ((x XOR (drop_bit 16 x OR push_bit 16 x)) AND 0xFF00FFFF))
     XOR (drop_bit 8 x OR push_bit 24 x)"

text \<open>
  \<open>byteswap64\<close> goes through a union of a 64-bit word and two 32-bit words, whose reading depends on
  the byte order of the machine: \<open>ul[0]\<close> is the low half when \<open>little\<close>, else the high half.
\<close>

definition union_ull :: "bool \<Rightarrow> u32 \<Rightarrow> u32 \<Rightarrow> u64" where
  "union_ull little ul0 ul1 =
     (if little then ucast ul0 OR push_bit 32 (ucast ul1) else ucast ul1 OR push_bit 32 (ucast ul0))"

definition byteswap64 :: "bool \<Rightarrow> u64 \<Rightarrow> u64" where
  "byteswap64 little x =
     (let ul0 = ucast (drop_bit 32 x) :: u32;
          ul1 = ucast (x AND 0xffffffff) :: u32
      in union_ull little (byteswap32 ul0) (byteswap32 ul1))"

section \<open>Bytes of a word\<close>

text \<open>Byte \<open>i\<close> of a word, byte 0 being the least significant one.\<close>

definition byte_of :: "'a::len word \<Rightarrow> nat \<Rightarrow> u8" where
  "byte_of x i = ucast (drop_bit (8 * i) x)"

lemma bit_byte_of: "bit (byte_of x i) n \<longleftrightarrow> n < 8 \<and> bit x (8 * i + n)"
  by (auto simp: byte_of_def bit_simps add.commute)

lemma word_eq_byte_of:
  fixes x y :: "'a::len word"
  assumes "\<And>i. i < LENGTH('a) div 8 \<Longrightarrow> byte_of x i = byte_of y i" and "8 dvd LENGTH('a)"
  shows "x = y"
proof (rule bit_word_eqI)
  fix n assume n: "n < LENGTH('a)"
  have "n div 8 < LENGTH('a) div 8" using n assms(2) by (auto elim!: dvdE)
  then have "bit (byte_of x (n div 8)) (n mod 8) = bit (byte_of y (n div 8)) (n mod 8)"
    using assms(1) by simp
  then show "bit x n = bit y n" by (simp add: bit_byte_of)
qed

lemma bit_byteswap16:
  "n < 16 \<Longrightarrow> bit (byteswap16 x) n \<longleftrightarrow> bit x (if n < 8 then n + 8 else n - 8)"
  by (auto simp: byteswap16_def bit_simps add.commute dest: bit_imp_le_length)

lemma mask_FF00FFFF: "(0xFF00FFFF :: u32) = NOT (push_bit 16 (mask 8))"
  by (simp add: mask_eq_exp_minus_1)

text \<open>Bit \<open>n\<close> of the 32-bit swap comes from the mirrored byte.\<close>

lemma bit_byteswap32:
  "n < 32 \<Longrightarrow> bit (byteswap32 x) n \<longleftrightarrow> bit x (8 * (3 - n div 8) + n mod 8)"
proof -
  assume n: "n < 32"
  consider "n < 8" | "8 \<le> n" "n < 16" | "16 \<le> n" "n < 24" | "24 \<le> n" "n < 32"
    using n by linarith
  then show ?thesis
  proof cases
    case 1
    then have "8 * (3 - n div 8) + n mod 8 = n + 24" by simp
    with 1 show ?thesis
      unfolding byteswap32_def mask_FF00FFFF
      by (auto simp: bit_simps add.commute dest: bit_imp_le_length)
  next
    case 2
    then have "n div 8 = 1" "n mod 8 = n - 8" by (auto simp: div_nat_eqI mod_if)
    with 2 show ?thesis
      unfolding byteswap32_def mask_FF00FFFF
      by (auto simp: bit_simps add.commute dest: bit_imp_le_length)
  next
    case 3
    then have "n div 8 = 2" "n mod 8 = n - 16" by (auto simp: div_nat_eqI mod_if)
    with 3 show ?thesis
      unfolding byteswap32_def mask_FF00FFFF
      by (auto simp: bit_simps add.commute dest: bit_imp_le_length)
  next
    case 4
    then have "n div 8 = 3" "n mod 8 = n - 24" by (auto simp: div_nat_eqI mod_if)
    with 4 show ?thesis
      unfolding byteswap32_def mask_FF00FFFF
      by (auto simp: bit_simps add.commute dest: bit_imp_le_length)
  qed
qed

lemma byte_of_byteswap16:
  assumes "i < 2"
  shows "byte_of (byteswap16 x) i = byte_of x (1 - i)"
proof (rule bit_word_eqI)
  fix n assume "n < LENGTH(8)"
  then have "n < 8" by simp
  moreover have "i = 0 \<or> i = 1" using assms by auto
  ultimately show "bit (byte_of (byteswap16 x) i) n = bit (byte_of x (1 - i)) n"
    by (auto simp: bit_byte_of bit_byteswap16 add.commute)
qed

lemma byte_of_byteswap32:
  assumes "i < 4"
  shows "byte_of (byteswap32 x) i = byte_of x (3 - i)"
proof (rule bit_word_eqI)
  fix n assume "n < LENGTH(8)"
  then have n: "n < 8" by simp
  with assms have "8 * i + n < 32" "(8 * i + n) div 8 = i" "(8 * i + n) mod 8 = n" by auto
  with n show "bit (byte_of (byteswap32 x) i) n = bit (byte_of x (3 - i)) n"
    by (simp add: bit_byte_of bit_byteswap32)
qed

lemma mask_32: "(0xffffffff :: u64) = mask 32"
  by (simp add: mask_eq_exp_minus_1)

lemma bit_beyond: "LENGTH('a) \<le> n \<Longrightarrow> \<not> bit (x :: 'a::len word) n"
  using bit_imp_le_length by fastforce

lemma byte_of_union:
  assumes "i < 8"
  shows "byte_of (union_ull little a b) i =
    (if i < 4 then byte_of (if little then a else b) i
     else byte_of (if little then b else a) (i - 4))"
proof (rule bit_word_eqI)
  fix n assume "n < LENGTH(8)"
  then have n: "n < 8" by simp
  show "bit (byte_of (union_ull little a b) i) n =
    bit (if i < 4 then byte_of (if little then a else b) i
         else byte_of (if little then b else a) (i - 4)) n"
  proof (cases "i < 4")
    case True
    with n have "8 * i + n < 32" by linarith
    with True n show ?thesis
      by (auto simp: bit_byte_of union_ull_def bit_simps)
  next
    case False
    with n assms have "32 \<le> 8 * i + n" "8 * i + n < 64" "8 * (i - 4) + n = 8 * i + n - 32"
      by linarith+
    with False n show ?thesis
      by (auto simp: bit_byte_of union_ull_def bit_simps bit_beyond)
  qed
qed

lemma byte_of_halves:
  assumes "i < 4"
  shows "byte_of (ucast (drop_bit 32 x) :: u32) i = byte_of (x :: u64) (i + 4)"
    and "byte_of (ucast (x AND 0xffffffff) :: u32) i = byte_of x i"
proof -
  have *: "byte_of (ucast (drop_bit 32 x) :: u32) i = byte_of x (i + 4) \<and>
    byte_of (ucast (x AND 0xffffffff) :: u32) i = byte_of x i"
  proof (intro conjI bit_word_eqI)
    fix n assume "n < LENGTH(8)"
    then have n: "n < 8" by simp
    with assms have "8 * i + n < 32" by linarith
    moreover have "8 * (i + 4) + n = 32 + (8 * i + n)" by (simp add: add_mult_distrib2)
    ultimately have b: "8 * i + n < 32" "8 * (i + 4) + n = 32 + (8 * i + n)" .
    from n b show "bit (byte_of (ucast (drop_bit 32 x) :: u32) i) n = bit (byte_of x (i + 4)) n"
      by (simp only: bit_byte_of) (simp add: bit_simps)
    from n b show "bit (byte_of (ucast (x AND 0xffffffff) :: u32) i) n = bit (byte_of x i) n"
      unfolding mask_32 by (simp only: bit_byte_of) (simp add: bit_simps)
  qed
  from * show "byte_of (ucast (drop_bit 32 x) :: u32) i = byte_of x (i + 4)" ..
  from * show "byte_of (ucast (x AND 0xffffffff) :: u32) i = byte_of x i" ..
qed

lemma byte_of_byteswap64:
  assumes "i < 8"
  shows "byte_of (byteswap64 True x) i = byte_of x (7 - i)"
    and "byte_of (byteswap64 False x) i = byte_of x (if i < 4 then 3 - i else 11 - i)"
  using assms
  by (auto simp: byteswap64_def byte_of_union byte_of_byteswap32 byte_of_halves)

lemma map_upt_rev:
  assumes "\<And>i. i < n \<Longrightarrow> f i = g (n - Suc i)"
  shows "map f [0..<n] = rev (map g [0..<n])"
  using assms by (simp add: list_eq_iff_nth_eq rev_nth)

section \<open>Properties\<close>

text \<open>
  on a little-endian machine each of the three swaps reverses the bytes of its argument:
  the bytes of the result, least significant first, are the bytes of the argument backwards.
\<close>

theorem byteswap_reverses_bytes:
  "map (byte_of (byteswap16 x)) [0..<2] = rev (map (byte_of x) [0..<2]) \<and>
   map (byte_of (byteswap32 y)) [0..<4] = rev (map (byte_of y) [0..<4]) \<and>
   map (byte_of (byteswap64 True z)) [0..<8] = rev (map (byte_of z) [0..<8])"
  by (intro conjI map_upt_rev)
     (simp_all add: byte_of_byteswap16 byte_of_byteswap32 byte_of_byteswap64)

text \<open>
  swapping twice gives back the word, for every width and on machines of either byte order.
\<close>

theorem byteswap_involution:
  "byteswap16 (byteswap16 x) = x \<and> byteswap32 (byteswap32 y) = y \<and>
   byteswap64 little (byteswap64 little z) = z"
proof (intro conjI)
  show "byteswap16 (byteswap16 x) = x"
    by (rule word_eq_byte_of) (auto simp: byte_of_byteswap16)
  show "byteswap32 (byteswap32 y) = y"
    by (rule word_eq_byte_of) (auto simp: byte_of_byteswap32)
  show "byteswap64 little (byteswap64 little z) = z"
    by (cases little; rule word_eq_byte_of) (auto simp: byte_of_byteswap64)
qed

text \<open>
  on a big-endian machine \<open>byteswap64\<close> does not reverse the eight bytes: the two halves keep
  their places and only the bytes inside each half are reversed.
\<close>

theorem byteswap64_big_endian:
  "map (byte_of (byteswap64 False z)) [0..<8] =
     rev (map (byte_of z) [0..<4]) @ rev (map (byte_of z) [4..<8]) \<and>
   byteswap64 False 1 \<noteq> byteswap64 True 1"
proof
  show "map (byte_of (byteswap64 False z)) [0..<8] =
     rev (map (byte_of z) [0..<4]) @ rev (map (byte_of z) [4..<8])"
    by (simp add: byte_of_byteswap64 upt_rec numeral_2_eq_2 numeral_3_eq_3)
  show "byteswap64 False 1 \<noteq> byteswap64 True 1"
    by code_simp
qed

end
