(* ===== verification/Bst.thy ===== *)
theory Bst
  imports Klist "HOL-Library.Tree" "HOL-Library.Multiset"
begin

text \<open>
  The binary search tree of \<open>src/bst.c\<close>. It reuses the list element: \<open>prev\<close> is the left child and
  \<open>next\<close> the right child. The comparison function is client code, a parameter of the model.
\<close>

section \<open>Control block and operations\<close>

type_synonym bst_less = "addr \<Rightarrow> addr \<Rightarrow> int"

record bst =
  root :: addr
  f_less :: bst_less

definition bst_init :: "bst option \<Rightarrow> bst_less option \<Rightarrow> bst option" where
  "bst_init b fl =
     (case (b, fl) of
        (Some t, Some f) \<Rightarrow> Some (t\<lparr>f_less := f, root := NULL\<rparr>)
      | _ \<Rightarrow> b)"

text \<open>The descent of \<open>bst_insert\<close>: the last node on the way down.\<close>

partial_function (option) bst_descend ::
  "klist_mem \<Rightarrow> bst_less \<Rightarrow> addr \<Rightarrow> addr \<Rightarrow> addr \<Rightarrow> addr option" where
  "bst_descend m cmp elem current parent =
     (if current \<noteq> NULL
      then bst_descend m cmp elem
             (if cmp elem current < 0 then prev_of m current else next_of m current) current
      else Some parent)"

definition bst_insert ::
  "klist_mem \<Rightarrow> bst option \<Rightarrow> addr \<Rightarrow> (klist_mem \<times> bst) res option" where
  "bst_insert m p_bst elem =
     (case p_bst of
        None \<Rightarrow> Some (Inl Assert_Failed)
      | Some b \<Rightarrow>
          if elem = NULL then Some (Inl Null_Deref)
          else (let m0 = set_prev (set_next m elem NULL) elem NULL
                in if root b = NULL then Some (Inr (m0, b\<lparr>root := elem\<rparr>))
                   else map_option
                     (\<lambda>parent.
                        Inr (if f_less b elem parent < 0 then set_prev m0 parent elem
                             else set_next m0 parent elem, b))
                     (bst_descend m0 (f_less b) elem (root b) NULL)))"

partial_function (option) bst_search_inner ::
  "klist_mem \<Rightarrow> addr \<Rightarrow> addr \<Rightarrow> bst_less \<Rightarrow> addr option" where
  "bst_search_inner m rt key cmp =
     (if rt = NULL \<or> cmp key rt = 0 then Some rt
      else if cmp key rt < 0 then bst_search_inner m (prev_of m rt) key cmp
      else bst_search_inner m (next_of m rt) key cmp)"

definition bst_search :: "klist_mem \<Rightarrow> bst option \<Rightarrow> addr \<Rightarrow> addr option res" where
  "bst_search m p_bst key =
     (case p_bst of
        None \<Rightarrow> Inl Assert_Failed
      | Some b \<Rightarrow> Inr (bst_search_inner m (root b) key (f_less b)))"

text \<open>The traversal calls \<open>fn\<close> on every node; the calls act on a client state.\<close>

partial_function (option) bst_traverse_inner ::
  "klist_mem \<Rightarrow> addr \<Rightarrow> (addr \<Rightarrow> 's \<Rightarrow> 's) \<Rightarrow> 's \<Rightarrow> 's option" where
  "bst_traverse_inner m rt fn s =
     (if rt \<noteq> NULL
      then Option.bind (bst_traverse_inner m (prev_of m rt) fn s)
             (\<lambda>s1. bst_traverse_inner m (next_of m rt) fn (fn rt s1))
      else Some s)"

definition bst_traverse :: "klist_mem \<Rightarrow> bst \<Rightarrow> (addr \<Rightarrow> 's \<Rightarrow> 's) \<Rightarrow> 's \<Rightarrow> 's option" where
  "bst_traverse m b fn s = bst_traverse_inner m (root b) fn s"

section \<open>Trees in memory\<close>

primrec tree_at :: "klist_mem \<Rightarrow> addr \<Rightarrow> addr tree \<Rightarrow> bool" where
  "tree_at m p Leaf \<longleftrightarrow> p = NULL"
| "tree_at m p (Node l a r) \<longleftrightarrow>
     p = a \<and> a \<noteq> NULL \<and> tree_at m (prev_of m a) l \<and> tree_at m (next_of m a) r"

text \<open>No node is shared.\<close>

definition bst_rep :: "klist_mem \<Rightarrow> bst \<Rightarrow> addr tree \<Rightarrow> bool" where
  "bst_rep m b t \<longleftrightarrow> tree_at m (root b) t \<and> distinct (inorder t)"

text \<open>The abstract insertion: equal keys go to the right.\<close>

fun tins :: "bst_less \<Rightarrow> addr \<Rightarrow> addr tree \<Rightarrow> addr tree" where
  "tins cmp x Leaf = Node Leaf x Leaf"
| "tins cmp x (Node l a r) =
     (if cmp x a < 0 then Node (tins cmp x l) a r else Node l a (tins cmp x r))"

lemma tree_at_frame:
  "(\<And>a. a \<in> set_tree t \<Longrightarrow> prev_of m' a = prev_of m a \<and> next_of m' a = next_of m a) \<Longrightarrow>
   tree_at m' p t = tree_at m p t"
  by (induction t arbitrary: p) auto

lemma tree_at_set [simp]:
  "x \<notin> set_tree t \<Longrightarrow> tree_at (set_prev m x v) p t = tree_at m p t"
  "x \<notin> set_tree t \<Longrightarrow> tree_at (set_next m x v) p t = tree_at m p t"
  by (rule tree_at_frame; auto)+

lemma mset_tins: "mset (inorder (tins cmp x t)) = add_mset x (mset (inorder t))"
  by (induction t) auto

lemma set_tins: "set_tree (tins cmp x t) = insert x (set_tree t)"
  by (induction t) auto

lemma bst_descend_spec:
  assumes "tree_at m p t" and "x \<notin> set_tree t" and "distinct (inorder t)" and "t \<noteq> Leaf"
    and "x \<noteq> NULL" and "prev_of m x = NULL" and "next_of m x = NULL"
  shows "\<exists>q. bst_descend m cmp x p q0 = Some q \<and> q \<in> set_tree t \<and>
    tree_at (if cmp x q < 0 then set_prev m q x else set_next m q x) p (tins cmp x t)"
  using assms
proof (induction t arbitrary: p q0)
  case (Node l a r)
  have a: "p = a" "a \<noteq> NULL" "x \<noteq> a" using Node.prems by auto
  have dl: "a \<notin> set_tree l" "a \<notin> set_tree r" "set_tree l \<inter> set_tree r = {}"
    using Node.prems(3) by auto
  let ?c = "if cmp x a < 0 then l else r"
  let ?n = "if cmp x a < 0 then prev_of m a else next_of m a"
  have un: "bst_descend m cmp x p q0 = bst_descend m cmp x ?n a"
    using a by (simp add: bst_descend.simps [of m cmp x a])
  have c: "tree_at m ?n ?c" "x \<notin> set_tree ?c" "distinct (inorder ?c)"
    using Node.prems by auto
  show ?case
  proof (cases "?c = Leaf")
    case True
    with c(1) have "?n = NULL" by simp
    then have "bst_descend m cmp x p q0 = Some a"
      using un by (simp add: bst_descend.simps [of m cmp x NULL])
    with True Node.prems a dl show ?thesis by (auto split: if_splits)
  next
    case False
    have "\<exists>q. bst_descend m cmp x ?n a = Some q \<and> q \<in> set_tree ?c \<and>
      tree_at (if cmp x q < 0 then set_prev m q x else set_next m q x) ?n (tins cmp x ?c)"
    proof (cases "cmp x a < 0")
      case True
      with False c Node.prems show ?thesis using Node.IH(1) [of "prev_of m a" a] by simp
    next
      case nl: False
      with False c Node.prems show ?thesis using Node.IH(2) [of "next_of m a" a] by simp
    qed
    then obtain q where q: "bst_descend m cmp x ?n a = Some q" "q \<in> set_tree ?c"
      "tree_at (if cmp x q < 0 then set_prev m q x else set_next m q x) ?n (tins cmp x ?c)"
      by blast
    have "q \<noteq> a" "q \<notin> set_tree (if cmp x a < 0 then r else l)"
      using q(2) dl by (auto split: if_splits)
    with q un a Node.prems show ?thesis
      by (intro exI [of _ q]) (auto split: if_splits)
  qed
qed simp

lemma bst_insert_rep:
  assumes r: "bst_rep m b t" and x: "x \<notin> set_tree t" "x \<noteq> NULL"
  shows "\<exists>m' b'. bst_insert m (Some b) x = Some (Inr (m', b')) \<and>
    bst_rep m' b' (tins (f_less b) x t) \<and> f_less b' = f_less b"
proof -
  let ?m = "set_prev (set_next m x NULL) x NULL"
  have t: "tree_at ?m (root b) t" using r x by (simp add: bst_rep_def)
  have d: "distinct (inorder (tins (f_less b) x t))"
    using r x mset_tins [of "f_less b" x t]
    by (metis bst_rep_def distinct.simps(2) mset.simps(2) mset_eq_imp_distinct_iff set_inorder)
  show ?thesis
  proof (cases "t = Leaf")
    case True
    with r x show ?thesis by (simp add: bst_rep_def bst_insert_def)
  next
    case False
    then have "root b \<noteq> NULL" using t by (cases t) auto
    moreover obtain q where "bst_descend ?m (f_less b) x (root b) NULL = Some q"
      "tree_at (if f_less b x q < 0 then set_prev ?m q x else set_next ?m q x) (root b)
         (tins (f_less b) x t)"
      using bst_descend_spec [OF t x(1) _ False x(2), of "f_less b" NULL] r
      by (auto simp: bst_rep_def)
    ultimately show ?thesis using x d by (auto simp: bst_insert_def bst_rep_def Let_def)
  qed
qed

section \<open>Order\<close>

text \<open>
  What the tree relies on: the sign of the client's comparison is a total preorder. This is the
  contract of a three-way comparison function such as those given to \<open>qsort\<close>.
\<close>

definition three_way :: "bst_less \<Rightarrow> bool" where
  "three_way cmp \<longleftrightarrow>
     (\<forall>a b. sgn (cmp a b) = - sgn (cmp b a)) \<and>
     (\<forall>a b c. cmp a b \<le> 0 \<longrightarrow> cmp b c \<le> 0 \<longrightarrow> cmp a c \<le> 0)"

abbreviation sorted_tree :: "bst_less \<Rightarrow> addr tree \<Rightarrow> bool" where
  "sorted_tree cmp t \<equiv> sorted_wrt (\<lambda>a b. cmp a b \<le> 0) (inorder t)"

lemma three_way_flip: "three_way cmp \<Longrightarrow> cmp a b \<le> 0 \<longleftrightarrow> 0 \<le> cmp b a"
proof -
  assume "three_way cmp"
  then have "sgn (cmp a b) = - sgn (cmp b a)" unfolding three_way_def by blast
  then show ?thesis by (auto simp: sgn_if split: if_splits)
qed

lemma three_way_trans: "three_way cmp \<Longrightarrow> cmp a b \<le> 0 \<Longrightarrow> cmp b c \<le> 0 \<Longrightarrow> cmp a c \<le> 0"
  unfolding three_way_def by blast

lemma sorted_tins:
  assumes c: "three_way cmp" and "sorted_tree cmp t"
  shows "sorted_tree cmp (tins cmp x t)"
  using assms(2)
proof (induction t)
  case (Node l a r)
  have le: "cmp x a \<le> 0" if "cmp x a < 0" using that by simp
  have ge: "cmp a x \<le> 0" if "\<not> cmp x a < 0" using that three_way_flip [OF c] by simp
  have "cmp x y \<le> 0" if "cmp x a < 0" "y \<in> set_tree r" for y
    using that Node.prems le three_way_trans [OF c, of x a y] by (auto simp: sorted_wrt_append)
  moreover have "cmp y x \<le> 0" if "\<not> cmp x a < 0" "y \<in> set_tree l" for y
    using that Node.prems ge three_way_trans [OF c, of y a x] by (auto simp: sorted_wrt_append)
  ultimately show ?case
    using Node le ge by (auto simp: sorted_wrt_append set_tins)
qed simp

text \<open>What a search for \<open>key\<close> among the elements \<open>A\<close> has to return.\<close>

definition search_result :: "bst_less \<Rightarrow> addr \<Rightarrow> addr set \<Rightarrow> addr \<Rightarrow> bool" where
  "search_result cmp key A y \<longleftrightarrow>
     (if \<exists>a \<in> A. cmp key a = 0 then y \<in> A \<and> cmp key y = 0 else y = NULL)"

lemma search_result_mono:
  assumes "search_result cmp key A y" and "A \<subseteq> B" and "\<And>z. z \<in> B - A \<Longrightarrow> cmp key z \<noteq> 0"
  shows "search_result cmp key B y"
proof (cases "\<exists>a \<in> A. cmp key a = 0")
  case True
  with assms(1,2) have "y \<in> B" "cmp key y = 0" by (auto simp: search_result_def)
  then show ?thesis by (auto simp: search_result_def)
next
  case False
  with assms(1) have "y = NULL" by (simp add: search_result_def)
  with False assms(3) show ?thesis by (auto simp: search_result_def)
qed

text \<open>An element equal to the key is not on the side of a node the search leaves out.\<close>

lemma three_way_right:
  assumes c: "three_way cmp" and "cmp key a < 0" and "cmp a z \<le> 0"
  shows "cmp key z \<noteq> 0"
proof
  assume "cmp key z = 0"
  then have "cmp z key \<le> 0" using three_way_flip [OF c, of z key] by simp
  then have "cmp a key \<le> 0" using assms(3) three_way_trans [OF c] by blast
  with assms(2) three_way_flip [OF c, of a key] show False by simp
qed

lemma three_way_left:
  assumes c: "three_way cmp" and "0 < cmp key a" and "cmp z a \<le> 0"
  shows "cmp key z \<noteq> 0"
  using assms(2,3) three_way_trans [OF c, of key z a] by fastforce

lemma bst_search_spec:
  assumes c: "three_way cmp" and "tree_at m p t" and "sorted_tree cmp t"
  shows "\<exists>y. bst_search_inner m p key cmp = Some y \<and> search_result cmp key (set_tree t) y"
  using assms(2,3)
proof (induction t arbitrary: p)
  case Leaf
  then show ?case by (simp add: bst_search_inner.simps search_result_def)
next
  case (Node l a r)
  have a: "p = a" "a \<noteq> NULL" "tree_at m (prev_of m a) l" "tree_at m (next_of m a) r"
    "sorted_tree cmp l" "sorted_tree cmp r"
    and la: "\<forall>z \<in> set_tree l. cmp z a \<le> 0" and ra: "\<forall>z \<in> set_tree r. cmp a z \<le> 0"
    using Node.prems by (auto simp: sorted_wrt_append)
  consider (eq) "cmp key a = 0" | (lt) "cmp key a < 0" | (gt) "0 < cmp key a" by linarith
  then show ?case
  proof cases
    case eq
    with a show ?thesis by (auto simp: bst_search_inner.simps [of m a] search_result_def)
  next
    case lt
    have "cmp key z \<noteq> 0" if "z \<in> set_tree r" for z using three_way_right [OF c lt] ra that by blast
    then have none: "cmp key z \<noteq> 0" if "z \<in> set_tree (Node l a r) - set_tree l" for z
      using that lt by auto
    obtain y where "bst_search_inner m (prev_of m a) key cmp = Some y"
      "search_result cmp key (set_tree l) y"
      using Node.IH(1) [OF a(3,5)] by blast
    with search_result_mono [of cmp key "set_tree l" y "set_tree (Node l a r)"] none lt a
    show ?thesis
      by (auto simp: bst_search_inner.simps [of m a])
  next
    case gt
    have "cmp key z \<noteq> 0" if "z \<in> set_tree l" for z using three_way_left [OF c gt] la that by blast
    then have none: "cmp key z \<noteq> 0" if "z \<in> set_tree (Node l a r) - set_tree r" for z
      using that gt by auto
    obtain y where "bst_search_inner m (next_of m a) key cmp = Some y"
      "search_result cmp key (set_tree r) y"
      using Node.IH(2) [OF a(4,6)] by blast
    with search_result_mono [of cmp key "set_tree r" y "set_tree (Node l a r)"] none gt a
    show ?thesis
      by (auto simp: bst_search_inner.simps [of m a])
  qed
qed

lemma bst_traverse_spec:
  "tree_at m p t \<Longrightarrow> bst_traverse_inner m p fn s = Some (fold fn (inorder t) s)"
proof (induction t arbitrary: p s)
  case Leaf
  then show ?case by (simp add: bst_traverse_inner.simps)
next
  case (Node l a r)
  then show ?case by (simp add: bst_traverse_inner.simps [of m a])
qed

section \<open>Inserting a sequence of elements\<close>

fun bst_insert_all :: "klist_mem \<Rightarrow> bst \<Rightarrow> addr list \<Rightarrow> (klist_mem \<times> bst) option" where
  "bst_insert_all m b [] = Some (m, b)"
| "bst_insert_all m b (x # xs) =
     (case bst_insert m (Some b) x of
        Some (Inr (m', b')) \<Rightarrow> bst_insert_all m' b' xs | _ \<Rightarrow> None)"

lemma bst_insert_all_rep:
  assumes "bst_rep m b t" and "distinct xs" and "set xs \<inter> set_tree t = {}" and "NULL \<notin> set xs"
  shows "\<exists>m' b'. bst_insert_all m b xs = Some (m', b') \<and> f_less b' = f_less b \<and>
    bst_rep m' b' (fold (tins (f_less b)) xs t)"
  using assms
proof (induction xs arbitrary: m b t)
  case (Cons x xs)
  then obtain m' b' where i: "bst_insert m (Some b) x = Some (Inr (m', b'))"
    "bst_rep m' b' (tins (f_less b) x t)" "f_less b' = f_less b"
    using bst_insert_rep [OF Cons.prems(1), of x] by auto
  with Cons.IH [OF i(2)] Cons.prems show ?case by (auto simp: set_tins)
qed simp

lemma fold_tins:
  assumes "three_way cmp" and "sorted_tree cmp t"
  shows "sorted_tree cmp (fold (tins cmp) xs t) \<and>
    mset (inorder (fold (tins cmp) xs t)) = mset xs + mset (inorder t)"
  using assms(2)
  by (induction xs arbitrary: t) (simp_all add: sorted_tins [OF assms(1)] mset_tins)

lemma bst_init_rep: "bst_rep m (the (bst_init (Some b) (Some f))) Leaf"
  by (simp add: bst_init_def bst_rep_def)

section \<open>Properties\<close>

text \<open>
  C30: starting from an initialised tree, inserting distinct elements one after the other always
  returns, and a traversal then visits exactly these elements, in the order of the client's
  comparison.
\<close>

theorem bst_insert_traverse_sorted:
  assumes "three_way f" and "distinct xs" and "NULL \<notin> set xs"
  shows "\<exists>m' b' ys. bst_insert_all m (the (bst_init (Some b) (Some f))) xs = Some (m', b') \<and>
    bst_traverse m' b' (\<lambda>e visited. visited @ [e]) [] = Some ys \<and>
    mset ys = mset xs \<and> sorted_wrt (\<lambda>x y. f x y \<le> 0) ys"
proof -
  let ?b = "the (bst_init (Some b) (Some f))"
  have f: "f_less ?b = f" by (simp add: bst_init_def)
  obtain m' b' where i: "bst_insert_all m ?b xs = Some (m', b')"
    "bst_rep m' b' (fold (tins f) xs Leaf)"
    using bst_insert_all_rep [OF bst_init_rep, of xs m b f] assms f by auto
  have "fold (\<lambda>e visited. visited @ [e]) ys [] = ys" for ys :: "addr list"
    by (induction ys rule: rev_induct) auto
  then have "bst_traverse m' b' (\<lambda>e visited. visited @ [e]) [] = Some (inorder (fold (tins f) xs Leaf))"
    using i(2) bst_traverse_spec [of m' "root b'" "fold (tins f) xs Leaf"
        "\<lambda>e visited. visited @ [e]" "[]"]
    by (simp add: bst_traverse_def bst_rep_def)
  with i(1) fold_tins [OF assms(1), of Leaf xs] show ?thesis by auto
qed

text \<open>A comparison of elements by address, for closed instances.\<close>

definition by_addr :: bst_less where
  "by_addr a b = int a - int b"

lemma three_way_by_addr: "three_way by_addr"
  by (auto simp: three_way_def by_addr_def sgn_if)

theorem bst_insert_traverse_sorted_witness:
  "\<exists>m' b' ys. bst_insert_all \<lparr>prev_of = id, next_of = id\<rparr>
       (the (bst_init (Some \<lparr>root = 7, f_less = (\<lambda>_ _. 0)\<rparr>) (Some by_addr))) [24, 8, 16] = Some (m', b') \<and>
    bst_traverse m' b' (\<lambda>e visited. visited @ [e]) [] = Some ys \<and>
    mset ys = {#24, 8, 16#} \<and> sorted_wrt (\<lambda>x y. by_addr x y \<le> 0) ys"
  using bst_insert_traverse_sorted [OF three_way_by_addr, of "[24, 8, 16]"
      "\<lparr>prev_of = id, next_of = id\<rparr>" "\<lparr>root = 7, f_less = (\<lambda>_ _. 0)\<rparr>"]
  by simp

text \<open>
  C31: a search in a tree built by insertions always returns; it returns an inserted element equal
  to the key when there is one, and the null pointer otherwise.
\<close>

theorem bst_search_correct:
  assumes "three_way f" and "distinct xs" and "NULL \<notin> set xs"
    and "bst_insert_all m (the (bst_init (Some b) (Some f))) xs = Some (m', b')"
  shows "\<exists>y. bst_search m' (Some b') key = Inr (Some y) \<and> search_result f key (set xs) y"
proof -
  let ?b = "the (bst_init (Some b) (Some f))"
  let ?t = "fold (tins f) xs Leaf"
  have "f_less ?b = f" by (simp add: bst_init_def)
  then have r: "bst_rep m' b' ?t" "f_less b' = f"
    using bst_insert_all_rep [OF bst_init_rep, of xs m b f] assms by auto
  have s: "sorted_tree f ?t" and ms: "mset (inorder ?t) = mset xs"
    using fold_tins [OF assms(1), of Leaf xs] by auto
  have "set_tree ?t = set xs" using arg_cong [OF ms, of set_mset] by simp
  with bst_search_spec [OF assms(1) _ s, of m' "root b'" key] r show ?thesis
    by (simp add: bst_search_def bst_rep_def)
qed

theorem bst_search_correct_witness:
  "\<exists>m' b'. bst_insert_all \<lparr>prev_of = id, next_of = id\<rparr>
       (the (bst_init (Some \<lparr>root = 7, f_less = (\<lambda>_ _. 0)\<rparr>) (Some by_addr))) [24, 8] = Some (m', b') \<and>
     bst_search m' (Some b') 8 = Inr (Some 8)"
proof -
  let ?m = "\<lparr>prev_of = id, next_of = id\<rparr>" and ?b = "\<lparr>root = 7, f_less = (\<lambda>_ _. 0)\<rparr> :: bst"
  obtain m' b' where i: "bst_insert_all ?m (the (bst_init (Some ?b) (Some by_addr))) [24, 8] = Some (m', b')"
    using bst_insert_all_rep [OF bst_init_rep, of "[24, 8]" ?m ?b by_addr] by auto
  from bst_search_correct [OF three_way_by_addr _ _ i, of 8]
  have "bst_search m' (Some b') 8 = Inr (Some 8)" by (auto simp: by_addr_def search_result_def)
  with i show ?thesis by blast
qed

end
