(* ===== verification/Runs.thy ===== *)
theory Runs
  imports Prelude
begin

text \<open>
  Two contracts the components' histories share. \<open>op_simulation\<close>: an operation that agrees with a
  specification step does so in every sequence of operations (\<open>Ring_Buffer\<close> and \<open>Accumulator\<close> provide
  it). \<open>budgeted_system\<close>: an invariant with a budget that every step of a concurrent system lowers by
  one holds in every state the budget reaches (\<open>Queue_Threads\<close>, \<open>Dispatch_Queue\<close>, \<open>Event_Loop_Threads\<close>
  and \<open>Asyncio_Threads\<close> provide it).
\<close>

section \<open>Sequences of operations\<close>

text \<open>The run of a fallible operation over a list of requests, and of a total specification.\<close>

fun run_ops :: "('s \<Rightarrow> 'p \<Rightarrow> ('r \<times> 's) res) \<Rightarrow> 's \<Rightarrow> 'p list \<Rightarrow> ('r list \<times> 's) res" where
  "run_ops f s [] = Inr ([], s)"
| "run_ops f s (p # ps) = bind_res (f s p) (\<lambda>(r, s').
     bind_res (run_ops f s' ps) (\<lambda>(rs, s''). Inr (r # rs, s'')))"

fun run_spec :: "('a \<Rightarrow> 'p \<Rightarrow> 'r \<times> 'a) \<Rightarrow> 'a \<Rightarrow> 'p list \<Rightarrow> 'r list \<times> 'a" where
  "run_spec g a [] = ([], a)"
| "run_spec g a (p # ps) = (let (r, a') = g a p; (rs, a'') = run_spec g a' ps in (r # rs, a''))"

text \<open>\<open>allowed s ps\<close>: what the client has to respect so that the requests \<open>ps\<close> can be made in state \<open>s\<close>.\<close>

locale op_simulation =
  fixes f :: "'s \<Rightarrow> 'p \<Rightarrow> ('r \<times> 's) res"
    and g :: "'a \<Rightarrow> 'p \<Rightarrow> 'r \<times> 'a"
    and inv :: "'s \<Rightarrow> bool"
    and abs :: "'s \<Rightarrow> 'a"
    and allowed :: "'s \<Rightarrow> 'p list \<Rightarrow> bool"
  assumes step: "inv s \<Longrightarrow> allowed s (p # ps) \<Longrightarrow>
    \<exists>r s'. f s p = Inr (r, s') \<and> inv s' \<and> allowed s' ps \<and> g (abs s) p = (r, abs s')"
begin

lemma runs:
  assumes "inv s" and "allowed s ps"
  shows "\<exists>rs s'. run_ops f s ps = Inr (rs, s') \<and> inv s' \<and> run_spec g (abs s) ps = (rs, abs s')"
  using assms
proof (induction ps arbitrary: s)
  case (Cons p ps)
  from step [OF Cons.prems] obtain r s1 where 1: "f s p = Inr (r, s1)" "inv s1" "allowed s1 ps"
    "g (abs s) p = (r, abs s1)" by blast
  from Cons.IH [OF 1(2,3)] 1(1,4) show ?case by auto
qed simp

end

section \<open>Steps of a concurrent system\<close>

locale budgeted_system =
  fixes step :: "'s \<Rightarrow> 's \<Rightarrow> bool"
    and inv :: "nat \<Rightarrow> 's \<Rightarrow> bool"
  assumes step_inv: "step s s' \<Longrightarrow> inv (Suc n) s \<Longrightarrow> inv n s'"
begin

lemma steps_inv:
  assumes "(step ^^ m) s s'" and "inv (m + n) s"
  shows "inv n s'"
  using assms
proof (induction m arbitrary: s' n)
  case (Suc m)
  from Suc.prems(1) obtain s1 where s1: "(step ^^ m) s s1" "step s1 s'" by auto
  have "inv (m + Suc n) s" using Suc.prems(2) by simp
  from step_inv [OF s1(2) Suc.IH [OF s1(1) this]] show ?case .
qed simp

end

end
