(* ===== verification/Accumulator.thy ===== *)
theory Accumulator
  imports Runs
begin

text \<open>
  The byte accumulator of \<open>inc/cutils/accumulator.h\<close>: a circular buffer with 32-bit indices that
  drops its oldest bytes to make room for new ones. One slot always stays free, so that \<open>in = out\<close>
  means empty.
\<close>

section \<open>Control block and operations\<close>

record accumulator =
  acc_buf :: "u8 list"
  total_buffer_size :: u32
  acc_in :: u32
  acc_out :: u32

record accumulator_create_params =
  cp_acc :: "accumulator option"
  cp_buf :: "u8 list"
  cp_buf_size :: u32

type_synonym accumulator_iterator = u32

definition accumulator_iterator_init :: "accumulator \<Rightarrow> accumulator_iterator" where
  "accumulator_iterator_init a = acc_out a"

definition accumulator_iterator_valid :: "accumulator \<Rightarrow> accumulator_iterator \<Rightarrow> bool" where
  "accumulator_iterator_valid a iterator \<longleftrightarrow> acc_in a \<noteq> acc_out a \<and> iterator \<noteq> acc_in a"

text \<open>The remainder operator of C faults when the buffer size is 0.\<close>

definition mod_total :: "accumulator \<Rightarrow> u32 \<Rightarrow> u32 res" where
  "mod_total a x =
     (if total_buffer_size a = 0 then Inl Div_By_Zero else Inr (x mod total_buffer_size a))"

definition accumulator_iterator_next ::
  "accumulator \<Rightarrow> accumulator_iterator \<Rightarrow> (bool \<times> accumulator_iterator) res" where
  "accumulator_iterator_next a iterator =
     (if accumulator_iterator_valid a iterator
      then bind_res (mod_total a (iterator + 1)) (\<lambda>i. Inr (True, i))
      else Inr (False, iterator))"

definition accumulator_create :: "accumulator_create_params option \<Rightarrow> accumulator res" where
  "accumulator_create params =
     (case params of
        None \<Rightarrow> Inl Assert_Failed
      | Some p \<Rightarrow>
          (case cp_acc p of
             None \<Rightarrow> Inl Assert_Failed
           | Some a \<Rightarrow> Inr (a\<lparr>acc_buf := cp_buf p, total_buffer_size := cp_buf_size p,
                               acc_in := 0, acc_out := 0\<rparr>)))"

definition accumulator_clear :: "accumulator \<Rightarrow> accumulator" where
  "accumulator_clear a = a\<lparr>acc_in := 0, acc_out := 0\<rparr>"

definition accumulator_bytes_left :: "accumulator \<Rightarrow> u32" where
  "accumulator_bytes_left a =
     (if acc_in a \<ge> acc_out a then total_buffer_size a - (acc_in a - acc_out a)
      else acc_out a - acc_in a) - 1"

definition accumulator_bytes_contained_from :: "accumulator \<Rightarrow> accumulator_iterator \<Rightarrow> u32" where
  "accumulator_bytes_contained_from a iter =
     (if acc_in a \<ge> iter then acc_in a - iter
      else total_buffer_size a - (iter - acc_in a))"

definition accumulator_iterator_advance ::
  "accumulator \<Rightarrow> accumulator_iterator \<Rightarrow> u32 \<Rightarrow> (bool \<times> accumulator_iterator) res" where
  "accumulator_iterator_advance a iterator sz =
     (if sz \<le> accumulator_bytes_contained_from a iterator
      then bind_res (mod_total a (iterator + sz))
             (\<lambda>i. if i \<noteq> acc_in a then Inr (True, i) else Inr (False, iterator))
      else Inr (False, iterator))"

definition accumulator_bytes_contained :: "accumulator \<Rightarrow> u32" where
  "accumulator_bytes_contained a = accumulator_bytes_contained_from a (acc_out a)"

text \<open>The copy of \<open>sz\<close> bytes of \<open>src\<close> into the ring at \<open>in\<close>, in one or two pieces.\<close>

definition acc_store :: "accumulator \<Rightarrow> u8 list \<Rightarrow> u32 \<Rightarrow> u8 list res" where
  "acc_store a src sz =
     (if acc_in a + sz > total_buffer_size a
      then (let first = total_buffer_size a - acc_in a;
                remaining = sz - first
            in bind_res (read_from src 0 (unat first)) (\<lambda>d1.
               bind_res (memcpy_to (acc_buf a) (unat (acc_in a)) d1) (\<lambda>b1.
               bind_res (read_from src (unat first) (unat remaining)) (\<lambda>d2.
               memcpy_to b1 0 d2))))
      else bind_res (read_from src 0 (unat sz)) (\<lambda>d.
           memcpy_to (acc_buf a) (unat (acc_in a)) d))"

text \<open>The copy of \<open>sz\<close> bytes out of the ring from index \<open>from\<close>.\<close>

definition acc_load :: "accumulator \<Rightarrow> u32 \<Rightarrow> u32 \<Rightarrow> u8 list res" where
  "acc_load a from_ix sz =
     (if from_ix + sz > total_buffer_size a
      then (let first = total_buffer_size a - from_ix;
                remaining = sz - first
            in bind_res (read_from (acc_buf a) (unat from_ix) (unat first)) (\<lambda>d1.
               bind_res (read_from (acc_buf a) 0 (unat remaining)) (\<lambda>d2. Inr (d1 @ d2))))
      else read_from (acc_buf a) (unat from_ix) (unat sz))"

definition accumulator_insert :: "accumulator \<Rightarrow> u8 list \<Rightarrow> u32 \<Rightarrow> (bool \<times> accumulator) res" where
  "accumulator_insert a src sz =
     (let bytes_left = accumulator_bytes_left a
      in if sz < total_buffer_size a
         then bind_res
                (if sz > bytes_left
                 then bind_res (mod_total a (acc_out a + (sz - bytes_left)))
                        (\<lambda>out'. Inr (a\<lparr>acc_out := out'\<rparr>))
                 else Inr a)
                (\<lambda>a1. if sz \<le> accumulator_bytes_left a1
                       then bind_res (acc_store a1 src sz) (\<lambda>b.
                            bind_res (mod_total a1 (acc_in a1 + sz)) (\<lambda>in'.
                            Inr (True, a1\<lparr>acc_buf := b, acc_in := in'\<rparr>)))
                       else Inr (False, a1))
         else Inr (False, a))"

text \<open>\<open>accumulator_peek\<close> returns the bytes it stores in the caller's buffer.\<close>

definition accumulator_peek :: "accumulator \<Rightarrow> u32 \<Rightarrow> (bool \<times> u8 list) res" where
  "accumulator_peek a sz =
     (if sz \<le> accumulator_bytes_contained a
      then bind_res (acc_load a (acc_out a) sz) (\<lambda>d. Inr (True, d))
      else Inr (False, []))"

definition accumulator_extract :: "accumulator \<Rightarrow> u32 \<Rightarrow> (bool \<times> u8 list \<times> accumulator) res" where
  "accumulator_extract a sz =
     bind_res (accumulator_peek a sz) (\<lambda>(ok, d).
       if ok then bind_res (mod_total a (acc_out a + sz)) (\<lambda>out'.
                  Inr (True, d, a\<lparr>acc_out := out'\<rparr>))
       else Inr (False, d, a))"

definition accumulator_advance :: "accumulator \<Rightarrow> u32 \<Rightarrow> (bool \<times> accumulator) res" where
  "accumulator_advance a sz =
     (let sz' = (if sz > total_buffer_size a - 1 then total_buffer_size a - 1 else sz)
      in bind_res (mod_total a (acc_out a + sz')) (\<lambda>out'.
         Inr (False, a\<lparr>acc_out := out'\<rparr>)))"

definition accumulator_peek_at ::
  "accumulator \<Rightarrow> accumulator_iterator \<Rightarrow> u32 \<Rightarrow> (u32 \<times> u8 list) res" where
  "accumulator_peek_at a iter sz =
     (if iter \<ge> total_buffer_size a then Inr (0, [])
      else (let bytes_contained = accumulator_bytes_contained_from a iter;
                sz' = (if sz > bytes_contained then bytes_contained else sz)
            in bind_res (acc_load a iter sz') (\<lambda>d. Inr (sz', d))))"

section \<open>Invariant and contents\<close>

text \<open>
  The buffer has the size the control block says, both indices are inside it, and twice its size
  fits in 32 bits (the sums \<open>in + size\<close> and \<open>out + size\<close> are computed before they are reduced).
\<close>

definition acc_inv :: "accumulator \<Rightarrow> bool" where
  "acc_inv a \<longleftrightarrow>
     length (acc_buf a) = unat (total_buffer_size a) \<and>
     acc_in a < total_buffer_size a \<and> acc_out a < total_buffer_size a \<and>
     unat (total_buffer_size a) \<le> 2 ^ 31"

definition acc_len :: "accumulator \<Rightarrow> u32 \<Rightarrow> nat" where
  "acc_len a i = ring_count (unat (total_buffer_size a)) (unat (acc_in a)) (unat i)"

text \<open>The bytes held, oldest first.\<close>

definition acc_contents :: "accumulator \<Rightarrow> u8 list" where
  "acc_contents a = ring_slice (acc_buf a) (unat (acc_out a)) (acc_len a (acc_out a))"

lemma acc_inv_nat:
  assumes "acc_inv a"
  shows "length (acc_buf a) = unat (total_buffer_size a)"
    "unat (acc_in a) < unat (total_buffer_size a)" "unat (acc_out a) < unat (total_buffer_size a)"
    "unat (total_buffer_size a) \<le> 2147483648" "total_buffer_size a \<noteq> 0"
  using assms by (auto simp: acc_inv_def word_less_nat_alt)

lemma mod_total_ok:
  "acc_inv a \<Longrightarrow> mod_total a x = Inr (x mod total_buffer_size a)"
  by (simp add: mod_total_def acc_inv_nat)

lemma mod_total_less:
  "acc_inv a \<Longrightarrow> x mod total_buffer_size a < total_buffer_size a"
  using acc_inv_nat [of a] by (simp add: word_less_nat_alt unat_mod)

lemma bytes_contained_from:
  assumes "acc_inv a" and "unat i < unat (total_buffer_size a)"
  shows "unat (accumulator_bytes_contained_from a i) = acc_len a i"
  using acc_inv_nat [OF assms(1)] assms(2)
  by (auto simp: accumulator_bytes_contained_from_def acc_len_def ring_count_def word_le_nat_alt unat_diff_fits)

lemma acc_len_less:
  "acc_inv a \<Longrightarrow> unat i < unat (total_buffer_size a) \<Longrightarrow> acc_len a i < unat (total_buffer_size a)"
  using acc_inv_nat(2) [of a] ring_count_less unfolding acc_len_def by blast

lemma bytes_left:
  assumes "acc_inv a"
  shows "unat (accumulator_bytes_left a) = unat (total_buffer_size a) - 1 - acc_len a (acc_out a)"
proof -
  note n = acc_inv_nat [OF assms]
  have one: "unat (1 :: u32) = 1" by simp
  show ?thesis
  proof (cases "acc_out a \<le> acc_in a")
    case True
    then have "unat (total_buffer_size a - (acc_in a - acc_out a)) =
        unat (total_buffer_size a) - (unat (acc_in a) - unat (acc_out a))"
      using n by (simp add: unat_diff_fits word_le_nat_alt)
    with True n show ?thesis
      by (auto simp: accumulator_bytes_left_def acc_len_def ring_count_def unat_diff_fits word_le_nat_alt)
  next
    case False
    then have "unat (acc_out a - acc_in a) = unat (acc_out a) - unat (acc_in a)"
      by (simp add: unat_diff_fits word_le_nat_alt)
    with False n show ?thesis
      by (auto simp: accumulator_bytes_left_def acc_len_def ring_count_def unat_diff_fits word_le_nat_alt)
  qed
qed

lemma length_acc_contents [simp]: "length (acc_contents a) = acc_len a (acc_out a)"
  by (simp add: acc_contents_def)

text \<open>The number of bytes held is the distance from \<open>out\<close> to \<open>in\<close> around the ring.\<close>

lemma acc_len_mod:
  assumes "acc_inv a" and "unat i < unat (total_buffer_size a)"
  shows "(unat i + acc_len a i) mod unat (total_buffer_size a) = unat (acc_in a)"
  unfolding acc_len_def using acc_inv_nat(2) [OF assms(1)] assms(2) by (rule ring_count_mod)

lemma acc_len_unique:
  assumes "acc_inv a" and "unat i < unat (total_buffer_size a)"
    and "n < unat (total_buffer_size a)"
    and "(unat i + n) mod unat (total_buffer_size a) = unat (acc_in a)"
  shows "acc_len a i = n"
  unfolding acc_len_def using acc_inv_nat(2) [OF assms(1)] assms(2-4) by (rule ring_count_unique)

lemma unat_add_total:
  assumes "acc_inv a" and "unat x < unat (total_buffer_size a)"
    and "unat y < unat (total_buffer_size a)"
  shows "unat (x + y) = unat x + unat y"
    and "unat ((x + y) mod total_buffer_size a) = (unat x + unat y) mod unat (total_buffer_size a)"
proof -
  show "unat (x + y) = unat x + unat y"
    using acc_inv_nat(4) [OF assms(1)] assms(2,3) by (intro unat_add_fits) simp
  then show "unat ((x + y) mod total_buffer_size a) =
      (unat x + unat y) mod unat (total_buffer_size a)"
    by (simp add: unat_mod)
qed

lemma acc_load_ok:
  assumes inv: "acc_inv a" and i: "unat i < unat (total_buffer_size a)"
    and sz: "unat sz \<le> acc_len a i"
  shows "acc_load a i sz = Inr (ring_slice (acc_buf a) (unat i) (unat sz))"
proof -
  note n = acc_inv_nat [OF inv]
  let ?L = "unat (total_buffer_size a)"
  have szL: "unat sz < ?L" using sz acc_len_less [OF inv i] by simp
  have c: "i + sz > total_buffer_size a \<longleftrightarrow> ?L - unat i < unat sz"
    using i by (auto simp: word_less_nat_alt unat_add_total(1) [OF inv i szL])
  have f: "unat (total_buffer_size a - i) = ?L - unat i" using i by (simp add: unat_diff_fits)
  have r: "unat (sz - (total_buffer_size a - i)) = unat sz - (?L - unat i)"
    if "?L - unat i < unat sz"
    using that f by (simp add: unat_diff_fits)
  have "acc_load a i sz = (if length (acc_buf a) - unat i < unat sz
      then bind_res (read_from (acc_buf a) (unat i) (length (acc_buf a) - unat i)) (\<lambda>x1.
           bind_res (read_from (acc_buf a) 0 (unat sz - (length (acc_buf a) - unat i)))
             (\<lambda>x2. Inr (x1 @ x2)))
      else read_from (acc_buf a) (unat i) (unat sz))"
    unfolding acc_load_def c n(1) by (cases "?L - unat i < unat sz") (simp_all only: if_True if_False Let_def f r)
  also have "\<dots> = Inr (ring_slice (acc_buf a) (unat i) (unat sz))"
    using i szL n(1) by (intro two_piece_load) simp_all
  finally show ?thesis .
qed

lemma acc_store_ok:
  assumes inv: "acc_inv a" and sz: "unat sz < unat (total_buffer_size a)"
    and src: "unat sz \<le> length src"
  shows "acc_store a src sz = Inr (ring_write (acc_buf a) (unat (acc_in a)) (take (unat sz) src))"
proof -
  note n = acc_inv_nat [OF inv]
  let ?L = "unat (total_buffer_size a)" and ?i = "unat (acc_in a)"
  have c: "acc_in a + sz > total_buffer_size a \<longleftrightarrow> ?L - ?i < unat sz"
    using n(2) by (auto simp: word_less_nat_alt unat_add_total(1) [OF inv n(2) sz])
  have f: "unat (total_buffer_size a - acc_in a) = ?L - ?i" using n by (simp add: unat_diff_fits)
  have r: "unat (sz - (total_buffer_size a - acc_in a)) = unat sz - (?L - ?i)"
    if "?L - ?i < unat sz"
    using that f by (simp add: unat_diff_fits)
  have "acc_store a src sz = (if length (acc_buf a) - ?i < unat sz
      then bind_res (read_from src 0 (length (acc_buf a) - ?i)) (\<lambda>x1.
           bind_res (memcpy_to (acc_buf a) ?i x1) (\<lambda>d1.
           bind_res (read_from src (length (acc_buf a) - ?i) (unat sz - (length (acc_buf a) - ?i)))
             (\<lambda>x2. memcpy_to d1 0 x2)))
      else bind_res (read_from src 0 (unat sz)) (\<lambda>x. memcpy_to (acc_buf a) ?i x))"
    unfolding acc_store_def c n(1)
    by (cases "?L - ?i < unat sz") (simp_all only: if_True if_False Let_def f r)
  also have "\<dots> = Inr (ring_write (acc_buf a) ?i (take (unat sz) src))"
    using n sz src by (intro two_piece_store) simp_all
  finally show ?thesis .
qed

section \<open>What the operations do to the contents\<close>

lemma acc_move_out:
  assumes inv: "acc_inv a" and k: "k \<le> acc_len a (acc_out a)"
    and o': "unat out' = (unat (acc_out a) + k) mod unat (total_buffer_size a)"
  shows "acc_inv (a\<lparr>acc_out := out'\<rparr>)"
    and "acc_contents (a\<lparr>acc_out := out'\<rparr>) = drop k (acc_contents a)"
proof -
  note n = acc_inv_nat [OF inv]
  let ?L = "unat (total_buffer_size a)" and ?c = "acc_len a (acc_out a)"
  have oL: "unat out' < ?L" using o' n by simp
  then show inv': "acc_inv (a\<lparr>acc_out := out'\<rparr>)"
    using inv by (simp add: acc_inv_def word_less_nat_alt)
  have "(unat out' + (?c - k)) mod ?L = (unat (acc_out a) + k + (?c - k)) mod ?L"
    unfolding o' by (rule mod_add_left_eq)
  also have "\<dots> = unat (acc_in a)" using acc_len_mod [OF inv n(3)] k by simp
  finally have "acc_len (a\<lparr>acc_out := out'\<rparr>) out' = ?c - k"
    using acc_len_unique [OF inv', of out' "?c - k"] oL acc_len_less [OF inv n(3)] by simp
  then have "acc_contents (a\<lparr>acc_out := out'\<rparr>) =
      ring_slice (acc_buf a) ((unat (acc_out a) + k) mod ?L) (?c - k)"
    using o' by (simp add: acc_contents_def)
  also have "\<dots> = drop k (acc_contents a)"
    using k n(1) ring_slice_mod [of "acc_buf a" "unat (acc_out a) + k"]
    by (simp add: acc_contents_def)
  finally show "acc_contents (a\<lparr>acc_out := out'\<rparr>) = drop k (acc_contents a)" .
qed

lemma acc_append:
  assumes inv: "acc_inv a" and room: "acc_len a (acc_out a) + length xs < unat (total_buffer_size a)"
    and i': "unat in' = (unat (acc_in a) + length xs) mod unat (total_buffer_size a)"
  defines "a' \<equiv> a\<lparr>acc_buf := ring_write (acc_buf a) (unat (acc_in a)) xs, acc_in := in'\<rparr>"
  shows "acc_inv a'" and "acc_contents a' = acc_contents a @ xs"
proof -
  note n = acc_inv_nat [OF inv]
  let ?L = "unat (total_buffer_size a)" and ?c = "acc_len a (acc_out a)"
  have iL: "unat in' < ?L" using i' n by simp
  then show inv': "acc_inv a'"
    using inv by (simp add: a'_def acc_inv_def word_less_nat_alt)
  have "(unat (acc_out a) + (?c + length xs)) mod ?L = (unat (acc_in a) + length xs) mod ?L"
    using acc_len_mod [OF inv n(3)] by (metis add.assoc mod_add_left_eq)
  then have len: "acc_len a' (acc_out a) = ?c + length xs"
    using acc_len_unique [OF inv', of "acc_out a" "?c + length xs"] n room i'
    by (simp add: a'_def)
  have "ring_write (acc_buf a) (unat (acc_in a)) xs =
      ring_write (acc_buf a) (unat (acc_out a) + ?c) xs"
    using acc_len_mod [OF inv n(3)] n(1) ring_write_mod by metis
  then show "acc_contents a' = acc_contents a @ xs"
    using ring_slice_write [of ?c xs "acc_buf a" "unat (acc_out a)"] room n len
    by (simp add: acc_contents_def a'_def)
qed

text \<open>Making room for \<open>sz\<close> bytes drops just the oldest bytes that are in the way.\<close>

definition acc_make_room :: "accumulator \<Rightarrow> u32 \<Rightarrow> accumulator" where
  "acc_make_room a sz =
     (if sz > accumulator_bytes_left a
      then a\<lparr>acc_out := (acc_out a + (sz - accumulator_bytes_left a)) mod total_buffer_size a\<rparr>
      else a)"

lemma acc_make_room_ok:
  assumes inv: "acc_inv a" and sz: "unat sz < unat (total_buffer_size a)"
  defines "a' \<equiv> acc_make_room a sz" and "L \<equiv> unat (total_buffer_size a)"
  shows "acc_inv a'"
    and "acc_contents a' = drop (length (acc_contents a) + unat sz - (L - 1)) (acc_contents a)"
    and "total_buffer_size a' = total_buffer_size a"
proof -
  note n = acc_inv_nat [OF inv]
  let ?c = "acc_len a (acc_out a)"
  have c: "?c < L" unfolding L_def by (rule acc_len_less [OF inv n(3)])
  note bl = bytes_left [OF inv, folded L_def]
  show "total_buffer_size a' = total_buffer_size a" by (simp add: a'_def acc_make_room_def)
  have "acc_inv a' \<and>
    acc_contents a' = drop (length (acc_contents a) + unat sz - (L - 1)) (acc_contents a)"
  proof (cases "sz > accumulator_bytes_left a")
    case True
    let ?k = "sz - accumulator_bytes_left a"
    have lt: "L - 1 - ?c < unat sz" using True by (simp add: word_less_nat_alt bl)
    then have uk: "unat ?k = ?c + unat sz - (L - 1)"
      using bl c by (simp add: unat_diff_fits)
    have kc: "unat ?k \<le> ?c" using uk sz by (simp add: L_def)
    then have kL: "unat ?k < unat (total_buffer_size a)" using c by (simp add: L_def)
    show ?thesis
      using acc_move_out [OF inv kc unat_add_total(2) [OF inv n(3) kL]] True uk
      by (simp add: a'_def acc_make_room_def)
  next
    case False
    then have "unat sz \<le> L - 1 - ?c" by (simp add: word_less_nat_alt bl)
    then have "?c + unat sz \<le> L - 1" using c by linarith
    with False inv show ?thesis by (simp add: a'_def acc_make_room_def)
  qed
  then show "acc_inv a'"
    and "acc_contents a' = drop (length (acc_contents a) + unat sz - (L - 1)) (acc_contents a)"
    by blast+
qed

lemma accumulator_insert_steps:
  assumes inv: "acc_inv a" and sz: "unat sz < unat (total_buffer_size a)"
    and src: "unat sz \<le> length src"
  defines "a1 \<equiv> acc_make_room a sz"
  shows "accumulator_insert a src sz =
    Inr (True, a1\<lparr>acc_buf := ring_write (acc_buf a1) (unat (acc_in a1)) (take (unat sz) src),
                  acc_in := (acc_in a1 + sz) mod total_buffer_size a1\<rparr>)"
    and "acc_len a1 (acc_out a1) + unat sz < unat (total_buffer_size a1)"
proof -
  note r = acc_make_room_ok [OF inv sz, folded a1_def]
  let ?L = "unat (total_buffer_size a)"
  have len: "acc_len a1 (acc_out a1) = length (acc_contents a) -
      (length (acc_contents a) + unat sz - (?L - 1))"
    using r(2) by (metis length_acc_contents length_drop)
  have c: "length (acc_contents a) < ?L"
    using acc_len_less [OF inv acc_inv_nat(3) [OF inv]] by simp
  show fits: "acc_len a1 (acc_out a1) + unat sz < unat (total_buffer_size a1)"
    using len c sz r(3) by simp
  have left: "sz \<le> accumulator_bytes_left a1"
    using fits bytes_left [OF r(1)] by (simp add: word_le_nat_alt)
  have store: "acc_store a1 src sz =
      Inr (ring_write (acc_buf a1) (unat (acc_in a1)) (take (unat sz) src))"
    using acc_store_ok [OF r(1) _ src] sz r(3) by simp
  have lt: "sz < total_buffer_size a" using sz by (simp add: word_less_nat_alt)
  have pick: "(if sz > accumulator_bytes_left a
      then bind_res (mod_total a (acc_out a + (sz - accumulator_bytes_left a)))
             (\<lambda>out'. Inr (a\<lparr>acc_out := out'\<rparr>))
      else Inr a) = Inr a1"
    by (simp add: a1_def acc_make_room_def mod_total_ok [OF inv])
  show "accumulator_insert a src sz =
    Inr (True, a1\<lparr>acc_buf := ring_write (acc_buf a1) (unat (acc_in a1)) (take (unat sz) src),
                  acc_in := (acc_in a1 + sz) mod total_buffer_size a1\<rparr>)"
    unfolding accumulator_insert_def Let_def pick
    using lt left by (simp add: store mod_total_ok [OF r(1)])
qed

lemma accumulator_insert_ok:
  assumes inv: "acc_inv a" and sz: "unat sz < unat (total_buffer_size a)"
    and src: "unat sz \<le> length src"
  obtains a' where "accumulator_insert a src sz = Inr (True, a')" "acc_inv a'"
    "total_buffer_size a' = total_buffer_size a"
    "acc_contents a' =
       lastn (unat (total_buffer_size a) - 1) (acc_contents a @ take (unat sz) src)"
proof -
  let ?a1 = "acc_make_room a sz" and ?d = "take (unat sz) src"
  note r = acc_make_room_ok [OF inv sz]
  note st = accumulator_insert_steps [OF inv sz src]
  have ld: "length ?d = unat sz" using src by simp
  have szL: "unat sz < unat (total_buffer_size ?a1)" using sz r(3) by simp
  have in': "unat ((acc_in ?a1 + sz) mod total_buffer_size ?a1) =
      (unat (acc_in ?a1) + length ?d) mod unat (total_buffer_size ?a1)"
    using unat_add_total(2) [OF r(1) acc_inv_nat(2) [OF r(1)] szL] ld by simp
  have room: "acc_len ?a1 (acc_out ?a1) + length ?d < unat (total_buffer_size ?a1)"
    using st(2) ld by simp
  note ap = acc_append [OF r(1) room in']
  have "drop (length (acc_contents a) + unat sz - (unat (total_buffer_size a) - 1))
      (acc_contents a) @ ?d =
    lastn (unat (total_buffer_size a) - 1) (acc_contents a @ ?d)"
    using sz ld by (simp add: lastn_def)
  with ap r st(1) that show ?thesis by fastforce
qed

lemma accumulator_peek_ok:
  assumes inv: "acc_inv a"
  shows "accumulator_peek a sz =
    (if unat sz \<le> length (acc_contents a) then Inr (True, take (unat sz) (acc_contents a))
     else Inr (False, []))"
proof -
  note o' = acc_inv_nat(3) [OF inv]
  have "sz \<le> accumulator_bytes_contained a \<longleftrightarrow> unat sz \<le> acc_len a (acc_out a)"
    by (simp add: accumulator_bytes_contained_def word_le_nat_alt bytes_contained_from [OF inv o'])
  then show ?thesis
    by (auto simp: accumulator_peek_def acc_load_ok [OF inv o'] acc_contents_def)
qed

lemma accumulator_extract_ok:
  assumes inv: "acc_inv a" and sz: "unat sz \<le> length (acc_contents a)"
  obtains a' where "accumulator_extract a sz = Inr (True, take (unat sz) (acc_contents a), a')"
    "acc_inv a'" "total_buffer_size a' = total_buffer_size a"
    "acc_contents a' = drop (unat sz) (acc_contents a)"
proof -
  note o' = acc_inv_nat(3) [OF inv]
  have k: "unat sz \<le> acc_len a (acc_out a)" using sz by simp
  have kL: "unat sz < unat (total_buffer_size a)" using k acc_len_less [OF inv o'] by simp
  note m = acc_move_out [OF inv k unat_add_total(2) [OF inv o' kL]]
  have "accumulator_extract a sz = Inr (True, take (unat sz) (acc_contents a),
      a\<lparr>acc_out := (acc_out a + sz) mod total_buffer_size a\<rparr>)"
    using sz by (simp add: accumulator_extract_def accumulator_peek_ok [OF inv] mod_total_ok [OF inv])
  with m that show ?thesis by simp
qed

lemma accumulator_extract_too_many:
  assumes "acc_inv a" and "length (acc_contents a) < unat sz"
  shows "accumulator_extract a sz = Inr (False, [], a)"
  using assms by (simp add: accumulator_extract_def accumulator_peek_ok)

section \<open>Iterators\<close>

text \<open>The iterator that stands at the \<open>k\<close>-th byte held.\<close>

definition acc_position :: "accumulator \<Rightarrow> nat \<Rightarrow> accumulator_iterator" where
  "acc_position a k = (acc_out a + of_nat k) mod total_buffer_size a"

lemma unat_acc_position:
  assumes inv: "acc_inv a" and k: "k \<le> acc_len a (acc_out a)"
  shows "unat (acc_position a k) = (unat (acc_out a) + k) mod unat (total_buffer_size a)"
proof -
  note n = acc_inv_nat [OF inv]
  have kL: "k < unat (total_buffer_size a)" using k acc_len_less [OF inv n(3)] by simp
  then have "unat (of_nat k :: u32) = k"
    using n(4) by (simp add: unat_of_nat)
  then show ?thesis
    using unat_add_total(2) [OF inv n(3), of "of_nat k"] kL by (simp add: acc_position_def)
qed

lemma acc_position_less:
  assumes "acc_inv a" and "k \<le> acc_len a (acc_out a)"
  shows "unat (acc_position a k) < unat (total_buffer_size a)"
  using unat_acc_position [OF assms] acc_inv_nat [OF assms(1)] by simp

lemma acc_len_position:
  assumes inv: "acc_inv a" and k: "k \<le> acc_len a (acc_out a)"
  shows "acc_len a (acc_position a k) = acc_len a (acc_out a) - k"
proof (rule acc_len_unique [OF inv acc_position_less [OF inv k]])
  note n = acc_inv_nat [OF inv]
  show "acc_len a (acc_out a) - k < unat (total_buffer_size a)"
    using acc_len_less [OF inv n(3)] by simp
  have "(unat (acc_position a k) + (acc_len a (acc_out a) - k)) mod unat (total_buffer_size a) =
      (unat (acc_out a) + k + (acc_len a (acc_out a) - k)) mod unat (total_buffer_size a)"
    unfolding unat_acc_position [OF inv k] by (rule mod_add_left_eq)
  then show "(unat (acc_position a k) + (acc_len a (acc_out a) - k)) mod
      unat (total_buffer_size a) = unat (acc_in a)"
    using acc_len_mod [OF inv n(3)] k by simp
qed

lemma acc_len_0_iff:
  assumes "acc_inv a" and "unat i < unat (total_buffer_size a)"
  shows "acc_len a i = 0 \<longleftrightarrow> i = acc_in a"
  using acc_inv_nat(2) [OF assms(1)] assms(2) ring_count_0_iff word_unat_eq_iff [of i "acc_in a"]
  unfolding acc_len_def by metis

lemma acc_position_Suc:
  assumes inv: "acc_inv a" and k: "k < acc_len a (acc_out a)"
  shows "(acc_position a k + 1) mod total_buffer_size a = acc_position a (Suc k)"
proof -
  note n = acc_inv_nat [OF inv]
  let ?L = "unat (total_buffer_size a)"
  have k': "k \<le> acc_len a (acc_out a)" "Suc k \<le> acc_len a (acc_out a)" using k by auto
  have L: "1 < ?L" using k acc_len_less [OF inv n(3)] by simp
  have "unat ((acc_position a k + 1) mod total_buffer_size a) =
      (unat (acc_position a k) + unat (1 :: u32)) mod ?L"
    using L by (intro unat_add_total(2) [OF inv acc_position_less [OF inv k'(1)]]) simp
  also have "\<dots> = (unat (acc_out a) + Suc k) mod ?L"
    unfolding unat_acc_position [OF inv k'(1)] by (simp add: mod_Suc_eq)
  also have "\<dots> = unat (acc_position a (Suc k))"
    by (simp only: unat_acc_position [OF inv k'(2)])
  finally show ?thesis by (simp add: word_unat_eq_iff)
qed

section \<open>Refinement: a window on a byte stream\<close>

text \<open>
  The promise of the component: a window over the last \<open>total_buffer_size - 1\<close> bytes stored and
  not yet taken. A request for more bytes than the window holds, or an insertion of a block that
  can never fit, changes nothing and is refused.
\<close>

datatype acc_op = Acc_Insert "u8 list" | Acc_Extract u32 | Acc_Peek u32 | Acc_Clear

fun acc_step :: "accumulator \<Rightarrow> acc_op \<Rightarrow> ((bool \<times> u8 list) \<times> accumulator) res" where
  "acc_step a (Acc_Insert xs) =
     bind_res (accumulator_insert a xs (of_nat (length xs))) (\<lambda>(ok, a'). Inr ((ok, []), a'))"
| "acc_step a (Acc_Extract sz) =
     bind_res (accumulator_extract a sz) (\<lambda>(ok, d, a'). Inr ((ok, d), a'))"
| "acc_step a (Acc_Peek sz) = bind_res (accumulator_peek a sz) (\<lambda>r. Inr (r, a))"
| "acc_step a Acc_Clear = Inr ((True, []), accumulator_clear a)"

fun window_step :: "nat \<Rightarrow> u8 list \<Rightarrow> acc_op \<Rightarrow> (bool \<times> u8 list) \<times> u8 list" where
  "window_step L w (Acc_Insert xs) =
     (if length xs < L then ((True, []), lastn (L - 1) (w @ xs)) else ((False, []), w))"
| "window_step L w (Acc_Extract sz) =
     (if unat sz \<le> length w then ((True, take (unat sz) w), drop (unat sz) w)
      else ((False, []), w))"
| "window_step L w (Acc_Peek sz) =
     (if unat sz \<le> length w then ((True, take (unat sz) w), w) else ((False, []), w))"
| "window_step L w Acc_Clear = ((True, []), [])"

abbreviation acc_run :: "accumulator \<Rightarrow> acc_op list \<Rightarrow> ((bool \<times> u8 list) list \<times> accumulator) res" where
  "acc_run \<equiv> run_ops acc_step"

abbreviation window_run :: "nat \<Rightarrow> u8 list \<Rightarrow> acc_op list \<Rightarrow> (bool \<times> u8 list) list \<times> u8 list" where
  "window_run L \<equiv> run_spec (window_step L)"

fun acc_op_fits :: "acc_op \<Rightarrow> bool" where
  "acc_op_fits (Acc_Insert xs) = (length xs < 2 ^ 32)"
| "acc_op_fits _ = True"

lemma accumulator_insert_too_big:
  "total_buffer_size a \<le> sz \<Longrightarrow> accumulator_insert a src sz = Inr (False, a)"
  by (simp add: accumulator_insert_def Let_def leD)

lemma acc_clear_ok:
  assumes "acc_inv a"
  shows "acc_inv (accumulator_clear a)" and "acc_contents (accumulator_clear a) = []"
    and "total_buffer_size (accumulator_clear a) = total_buffer_size a"
  using acc_inv_nat [OF assms] assms
  by (auto simp: acc_inv_def accumulator_clear_def acc_contents_def acc_len_def ring_count_def word_less_nat_alt)

lemma acc_step_window:
  assumes inv: "acc_inv a" and fits: "acc_op_fits p"
  shows "\<exists>r a'. acc_step a p = Inr (r, a') \<and> acc_inv a' \<and>
    total_buffer_size a' = total_buffer_size a \<and>
    window_step (unat (total_buffer_size a)) (acc_contents a) p = (r, acc_contents a')"
proof (cases p)
  case (Acc_Insert xs)
  with fits have u: "unat (of_nat (length xs) :: u32) = length xs" by (simp add: unat_of_nat)
  show ?thesis
  proof (cases "length xs < unat (total_buffer_size a)")
    case True
    obtain a' where "accumulator_insert a xs (of_nat (length xs)) = Inr (True, a')" "acc_inv a'"
      "total_buffer_size a' = total_buffer_size a"
      "acc_contents a' = lastn (unat (total_buffer_size a) - 1)
         (acc_contents a @ take (unat (of_nat (length xs) :: u32)) xs)"
      using True u by (auto intro: accumulator_insert_ok [OF inv, of "of_nat (length xs)" xs])
    with True u Acc_Insert show ?thesis
      by (intro exI [of _ "(True, [])"] exI [of _ a']) simp
  next
    case False
    then have "total_buffer_size a \<le> of_nat (length xs)" using u by (simp add: word_le_nat_alt)
    with False inv Acc_Insert show ?thesis
      by (intro exI [of _ "(False, [])"] exI [of _ a]) (simp add: accumulator_insert_too_big)
  qed
next
  case (Acc_Extract sz)
  show ?thesis
  proof (cases "unat sz \<le> length (acc_contents a)")
    case True
    obtain a' where "accumulator_extract a sz = Inr (True, take (unat sz) (acc_contents a), a')"
      "acc_inv a'" "total_buffer_size a' = total_buffer_size a"
      "acc_contents a' = drop (unat sz) (acc_contents a)"
      by (rule accumulator_extract_ok [OF inv True])
    with True Acc_Extract show ?thesis
      by (intro exI [of _ "(True, take (unat sz) (acc_contents a))"] exI [of _ a']) simp
  next
    case False
    with Acc_Extract inv show ?thesis
      by (intro exI [of _ "(False, [])"] exI [of _ a]) (simp add: accumulator_extract_too_many)
  qed
next
  case (Acc_Peek sz)
  let ?r = "window_step (unat (total_buffer_size a)) (acc_contents a) (Acc_Peek sz)"
  from Acc_Peek inv show ?thesis
    by (intro exI [of _ "fst ?r"] exI [of _ a]) (simp add: accumulator_peek_ok)
next
  case Acc_Clear
  with acc_clear_ok [OF inv] show ?thesis
    by (intro exI [of _ "(True, [])"] exI [of _ "accumulator_clear a"]) simp
qed

interpretation accw: op_simulation acc_step "window_step L" "\<lambda>a. acc_inv a \<and> total_buffer_size a = n \<and> unat n = L" acc_contents
  "\<lambda>a. list_all acc_op_fits" for n L
proof
  fix a p ps
  assume "acc_inv a \<and> total_buffer_size a = n \<and> unat n = L" "list_all acc_op_fits (p # ps)"
  with acc_step_window [of a p] show "\<exists>r s'. acc_step a p = Inr (r, s') \<and>
      (acc_inv s' \<and> total_buffer_size s' = n \<and> unat n = L) \<and> list_all acc_op_fits ps \<and>
      window_step L (acc_contents a) p = (r, acc_contents s')"
    by auto
qed

section \<open>Properties\<close>

text \<open>
  C13: (refinement) Any sequence of insertions, extractions, peeks and clears on an accumulator that
  satisfies the invariant runs without a fault, returns what the window specification returns, and
  ends in an accumulator that satisfies the invariant and holds the bytes of the window.
\<close>

theorem accumulator_refines_window:
  assumes "acc_inv a" and "list_all acc_op_fits ps"
  shows "\<exists>rs a'. acc_run a ps = Inr (rs, a') \<and> acc_inv a' \<and>
    total_buffer_size a' = total_buffer_size a \<and>
    window_run (unat (total_buffer_size a)) (acc_contents a) ps = (rs, acc_contents a')"
  using accw.runs [of a "total_buffer_size a" "unat (total_buffer_size a)" ps] assms by auto

definition acc_example :: accumulator where
  "acc_example = \<lparr>acc_buf = [4, 9, 2, 3], total_buffer_size = 4, acc_in = 1, acc_out = 2\<rparr>"

lemma acc_example_ok:
  "acc_inv acc_example" "acc_contents acc_example = [2, 3, 4]" "total_buffer_size acc_example = 4"
    apply (simp add: acc_inv_def acc_example_def)
   apply code_simp
  apply (simp add: acc_example_def)
  done

theorem accumulator_refines_window_witness:
  "\<exists>rs a'. acc_run acc_example
      [Acc_Insert [1, 2], Acc_Extract 2, Acc_Peek 7] = Inr (rs, a') \<and>
    acc_inv a' \<and> rs = [(True, []), (True, [4, 1]), (False, [])]"
proof -
  have "list_all acc_op_fits [Acc_Insert [1, 2], Acc_Extract 2, Acc_Peek 7]" by simp
  from accumulator_refines_window [OF acc_example_ok(1) this]
  obtain rs a' where r: "acc_run acc_example [Acc_Insert [1, 2], Acc_Extract 2, Acc_Peek 7] =
      Inr (rs, a')" "acc_inv a'"
    "window_run (unat (total_buffer_size acc_example)) (acc_contents acc_example)
      [Acc_Insert [1, 2], Acc_Extract 2, Acc_Peek 7] = (rs, acc_contents a')"
    by blast
  moreover have "window_run (unat (4 :: u32)) [2, 3, 4]
      [Acc_Insert [1, 2], Acc_Extract 2, Acc_Peek 7] =
    ([(True, []), (True, [4, 1]), (False, [])], [2])"
    by code_simp
  ultimately have "rs = [(True, []), (True, [4, 1]), (False, [])]"
    by (simp only: acc_example_ok prod.inject)
  with r show ?thesis by blast
qed

text \<open>
  (functional) Iterating with \<open>accumulator_iterator_init\<close>, \<open>_valid\<close> and \<open>_next\<close> visits exactly
  the bytes held, oldest first: the iterator at position \<open>k\<close> is valid while \<open>k\<close> is below the number
  of bytes held, \<open>accumulator_peek_at\<close> there returns the bytes from position \<open>k\<close> on (as many as
  asked for, or all that are left), and \<open>_next\<close> moves to position \<open>k + 1\<close>.
\<close>

theorem accumulator_iteration:
  assumes inv: "acc_inv a" and k: "k \<le> length (acc_contents a)"
  shows "accumulator_iterator_init a = acc_position a 0 \<and>
    (accumulator_iterator_valid a (acc_position a k) \<longleftrightarrow> k < length (acc_contents a)) \<and>
    accumulator_iterator_next a (acc_position a k) =
      Inr (if k < length (acc_contents a) then (True, acc_position a (Suc k))
           else (False, acc_position a k)) \<and>
    (\<exists>m. accumulator_peek_at a (acc_position a k) sz =
        Inr (m, take (unat sz) (drop k (acc_contents a))) \<and>
      unat m = min (unat sz) (length (acc_contents a) - k))"
proof (intro conjI)
  note n = acc_inv_nat [OF inv]
  have k': "k \<le> acc_len a (acc_out a)" using k by simp
  note pos = acc_position_less [OF inv k'] unat_acc_position [OF inv k']
    acc_len_position [OF inv k']
  show "accumulator_iterator_init a = acc_position a 0"
    using n by (simp add: accumulator_iterator_init_def acc_position_def word_unat_eq_iff unat_mod)
  show valid: "accumulator_iterator_valid a (acc_position a k) \<longleftrightarrow> k < length (acc_contents a)"
  proof -
    have "acc_in a \<noteq> acc_out a \<longleftrightarrow> 0 < acc_len a (acc_out a)"
      using acc_len_0_iff [OF inv n(3)] by (metis gr0I less_irrefl)
    moreover have "acc_position a k \<noteq> acc_in a \<longleftrightarrow> 0 < acc_len a (acc_out a) - k"
      using acc_len_0_iff [OF inv pos(1)] unfolding pos(3) by (metis gr0I less_irrefl)
    ultimately show ?thesis unfolding accumulator_iterator_valid_def by simp linarith
  qed
  show "accumulator_iterator_next a (acc_position a k) =
      Inr (if k < length (acc_contents a) then (True, acc_position a (Suc k))
           else (False, acc_position a k))"
    using valid acc_position_Suc [OF inv, of k]
    by (simp add: accumulator_iterator_next_def mod_total_ok [OF inv])
  define m where "m = min sz (accumulator_bytes_contained_from a (acc_position a k))"
  have um: "unat m = min (unat sz) (acc_len a (acc_out a) - k)"
    by (simp add: m_def unat_min bytes_contained_from [OF inv pos(1)] pos(3))
  have pick: "(if sz > accumulator_bytes_contained_from a (acc_position a k)
      then accumulator_bytes_contained_from a (acc_position a k) else sz) = m"
    by (simp add: m_def min_def flip: not_le)
  have load: "acc_load a (acc_position a k) m =
      Inr (ring_slice (acc_buf a) (unat (acc_position a k)) (unat m))"
    using um pos(3) by (intro acc_load_ok [OF inv pos(1)]) simp
  have "\<not> total_buffer_size a \<le> acc_position a k" using pos(1) by (simp add: word_le_nat_alt)
  then have "accumulator_peek_at a (acc_position a k) sz =
      Inr (m, ring_slice (acc_buf a) (unat (acc_position a k)) (unat m))"
    by (simp add: accumulator_peek_at_def Let_def pick load)
  moreover have "ring_slice (acc_buf a) (unat (acc_position a k)) (unat m) =
      take (unat sz) (drop k (acc_contents a))"
    using k' um n(1) pos(2) ring_slice_mod [of "acc_buf a" "unat (acc_out a) + k"]
    by (cases "unat sz \<le> acc_len a (acc_out a) - k") (simp_all add: acc_contents_def min_def)
  ultimately show "\<exists>m. accumulator_peek_at a (acc_position a k) sz =
        Inr (m, take (unat sz) (drop k (acc_contents a))) \<and>
      unat m = min (unat sz) (length (acc_contents a) - k)"
    using um by auto
qed

theorem accumulator_iteration_witness:
  "accumulator_iterator_next acc_example 3 = Inr (True, 0)"
proof -
  have "acc_position acc_example 1 = 3" "acc_position acc_example (Suc 1) = 0" by code_simp+
  then show ?thesis
    using accumulator_iteration [OF acc_example_ok(1), of 1] acc_example_ok(2) by simp
qed

text \<open>
  (functional) \<open>accumulator_advance\<close> drops the oldest \<open>size\<close> bytes when that many are held, but it
  returns \<open>false\<close> on every path, the successful ones too.
\<close>

theorem accumulator_advance_drops:
  assumes inv: "acc_inv a" and sz: "unat sz \<le> length (acc_contents a)"
  shows "\<exists>a'. accumulator_advance a sz = Inr (False, a') \<and> acc_inv a' \<and>
    acc_contents a' = drop (unat sz) (acc_contents a)"
proof -
  note n = acc_inv_nat [OF inv]
  have k: "unat sz \<le> acc_len a (acc_out a)" using sz by simp
  then have kL: "unat sz < unat (total_buffer_size a)" using acc_len_less [OF inv n(3)] by simp
  have one: "unat (total_buffer_size a - 1) = unat (total_buffer_size a) - 1"
    using n by (intro unat_minus_one) simp
  have "\<not> total_buffer_size a - 1 < sz"
    using kL one by (simp add: word_less_nat_alt)
  then have "accumulator_advance a sz =
      Inr (False, a\<lparr>acc_out := (acc_out a + sz) mod total_buffer_size a\<rparr>)"
    by (simp add: accumulator_advance_def Let_def mod_total_ok [OF inv])
  with acc_move_out [OF inv k unat_add_total(2) [OF inv n(3) kL]] show ?thesis by simp
qed

theorem accumulator_advance_drops_witness:
  "\<exists>a'. accumulator_advance acc_example 2 = Inr (False, a') \<and> acc_inv a' \<and> acc_contents a' = [4]"
proof -
  have "unat (2 :: u32) \<le> length (acc_contents acc_example)"
    and "drop (unat (2 :: u32)) (acc_contents acc_example) = [4]"
    unfolding acc_example_ok by simp_all
  then show ?thesis using accumulator_advance_drops [OF acc_example_ok(1), of 2] by simp
qed

end
