(* ===== verification/Ring_Buffer.thy ===== *)
theory Ring_Buffer
  imports Runs
begin

text \<open>
  The ring buffer of \<open>inc/cutils/ring_buffer.h\<close> and \<open>src/ring_buffer.c\<close>: two 64-bit offsets that only
  grow, reduced modulo the buffer size on each access, and 32-bit data ranges cut out of them. The
  sections below hold the operations, the invariant, and the refinement to a bounded byte queue.
\<close>

section \<open>Data ranges\<close>

record data_range =
  location :: u32
  range_length :: u32

definition make_data_range :: "u32 \<Rightarrow> u32 \<Rightarrow> data_range" where
  "make_data_range loc len = \<lparr>location = loc, range_length = len\<rparr>"

definition location_in_data_range :: "u32 \<Rightarrow> data_range \<Rightarrow> bool" where
  "location_in_data_range loc r \<longleftrightarrow> \<not> loc < location r \<and> loc - location r < range_length r"

definition max_data_range :: "data_range \<Rightarrow> u32" where
  "max_data_range r = location r + range_length r"

text \<open>
  A \<open>buffer_data_t\<close> points into the buffer: its pointer is the index of the first byte, \<open>None\<close> for
  the null pointer.
\<close>

record buffer_data =
  bd_pos :: "u32 option"
  bd_length :: u32

record ring_buffer_data =
  entryCount :: int
  total_bytes :: u32
  bd0 :: buffer_data
  bd1 :: buffer_data

definition no_data :: buffer_data where
  "no_data = \<lparr>bd_pos = None, bd_length = 0\<rparr>"

definition no_ring_data :: ring_buffer_data where
  "no_ring_data = \<lparr>entryCount = 0, total_bytes = 0, bd0 = no_data, bd1 = no_data\<rparr>"

definition read_region :: "u8 list \<Rightarrow> buffer_data \<Rightarrow> u8 list res" where
  "read_region d r =
     (case bd_pos r of
        None \<Rightarrow> Inl Null_Deref
      | Some p \<Rightarrow> read_from d (unat p) (unat (bd_length r)))"

definition copy_ring_data_to_buffer ::
  "u8 list \<Rightarrow> ring_buffer_data \<Rightarrow> u8 list \<Rightarrow> u8 list res" where
  "copy_ring_data_to_buffer d data_to_copy dst =
     (if entryCount data_to_copy = 0 then Inr dst
      else bind_res (read_region d (bd0 data_to_copy)) (\<lambda>x0.
           bind_res (memcpy_to dst 0 x0) (\<lambda>dst1.
           if entryCount data_to_copy = 2
           then bind_res (read_region d (bd1 data_to_copy)) (\<lambda>x1.
                memcpy_to dst1 (unat (bd_length (bd0 data_to_copy))) x1)
           else Inr dst1)))"

section \<open>The buffer and its operations\<close>

text \<open>
  Callbacks are addresses, \<open>NULL\<close> when not set; a notification is recorded with the callback, the
  context it is given and the range.
\<close>

record ring_buffer =
  rb_size :: u32
  read_offset :: u64
  write_offset :: u64
  rb_data :: "u8 list option"
  ctx :: addr
  on_data_read_at_range :: addr
  on_data_written_at_range :: addr

type_synonym rb_events = "(addr \<times> addr \<times> data_range) list"

record ring_buffer_create_params =
  rp_buffer :: "ring_buffer option"
  rp_data :: "u8 list option"
  rp_size_in_bytes :: u32

text \<open>
  The first component is the buffer object after the call (the caller still owns it when the call
  returns the null pointer), the second whether a buffer is returned. The offsets are not touched.
\<close>

definition create_ring_buffer :: "ring_buffer_create_params \<Rightarrow> ring_buffer option \<times> bool" where
  "create_ring_buffer params =
     (case rp_buffer params of
        None \<Rightarrow> (None, False)
      | Some b \<Rightarrow>
          (let b1 = b\<lparr>rb_data := rp_data params\<rparr>
           in if rb_data b1 = None then (Some b1, False)
              else (Some (b1\<lparr>rb_size := rp_size_in_bytes params\<rparr>), True)))"

definition ring_buffer_reset_at_offset :: "ring_buffer option \<Rightarrow> u32 \<Rightarrow> ring_buffer res" where
  "ring_buffer_reset_at_offset buffer off =
     (case buffer of
        None \<Rightarrow> Inl Null_Deref
      | Some b \<Rightarrow> Inr (b\<lparr>read_offset := ucast off, write_offset := ucast off\<rparr>))"

definition ring_buffer_release :: "ring_buffer option \<Rightarrow> ring_buffer res" where
  "ring_buffer_release buffer = ring_buffer_reset_at_offset buffer 0"

definition ring_buffer_get_bytes_available_for_read :: "ring_buffer \<Rightarrow> u32" where
  "ring_buffer_get_bytes_available_for_read b = ucast (write_offset b - read_offset b)"

definition ring_buffer_get_bytes_available_for_write :: "ring_buffer \<Rightarrow> u32" where
  "ring_buffer_get_bytes_available_for_write b =
     rb_size b - ring_buffer_get_bytes_available_for_read b"

definition ring_buffer_is_empty :: "ring_buffer \<Rightarrow> bool" where
  "ring_buffer_is_empty b \<longleftrightarrow> ring_buffer_get_bytes_available_for_read b = 0"

definition ring_buffer_is_full :: "ring_buffer \<Rightarrow> bool" where
  "ring_buffer_is_full b \<longleftrightarrow> ring_buffer_get_bytes_available_for_write b = 0"

definition ring_buffer_get_total_range :: "ring_buffer \<Rightarrow> data_range" where
  "ring_buffer_get_total_range b = make_data_range (ucast (read_offset b)) (rb_size b)"

definition ring_buffer_get_current_data_range :: "ring_buffer \<Rightarrow> data_range" where
  "ring_buffer_get_current_data_range b =
     make_data_range (ucast (read_offset b)) (ring_buffer_get_bytes_available_for_read b)"

definition ring_buffer_get_size :: "ring_buffer \<Rightarrow> u32" where
  "ring_buffer_get_size b = rb_size b"

text \<open>The two index computations; the remainder is taken in 64 bits.\<close>

definition bufferReadOffsetWithOffset :: "ring_buffer \<Rightarrow> u32 \<Rightarrow> u32 res" where
  "bufferReadOffsetWithOffset b off =
     (if rb_size b = 0 then Inl Div_By_Zero
      else Inr (ucast ((read_offset b + ucast off) mod ucast (rb_size b))))"

definition bufferWriteOffset :: "ring_buffer \<Rightarrow> u32 res" where
  "bufferWriteOffset b =
     (if rb_size b = 0 then Inl Div_By_Zero
      else Inr (ucast (write_offset b mod ucast (rb_size b))))"

definition notify_range :: "addr \<Rightarrow> ring_buffer \<Rightarrow> data_range \<Rightarrow> rb_events" where
  "notify_range cb b r = (if cb \<noteq> NULL then [(cb, ctx b, r)] else [])"

definition ring_buffer_write_data ::
  "ring_buffer \<Rightarrow> u8 list \<Rightarrow> u32 \<Rightarrow> (u32 \<times> ring_buffer \<times> rb_events) res" where
  "ring_buffer_write_data b src sz =
     (if ring_buffer_is_full b \<or> sz = 0 then Inr (0, b, [])
      else bind_res (bufferWriteOffset b) (\<lambda>file_write_offset.
        let bytes_to_write = min sz (ring_buffer_get_bytes_available_for_write b);
            remaining_write_bytes = rb_size b - file_write_offset
        in (case rb_data b of
              None \<Rightarrow> Inl Null_Deref
            | Some d \<Rightarrow>
               bind_res
                (if bytes_to_write > remaining_write_bytes
                 then bind_res (read_from src 0 (unat remaining_write_bytes)) (\<lambda>x1.
                      bind_res (memcpy_to d (unat file_write_offset) x1) (\<lambda>d1.
                      bind_res (read_from src (unat remaining_write_bytes)
                                  (unat (bytes_to_write - remaining_write_bytes))) (\<lambda>x2.
                      memcpy_to d1 0 x2)))
                 else (let bytes_to_copy = (if bytes_to_write < sz then bytes_to_write else sz)
                       in bind_res (read_from src 0 (unat bytes_to_copy)) (\<lambda>x.
                          memcpy_to d (unat file_write_offset) x)))
                (\<lambda>d'. let range_read = make_data_range (ucast (write_offset b)) bytes_to_write;
                           b' = b\<lparr>rb_data := Some d',
                                  write_offset := write_offset b + ucast bytes_to_write\<rparr>
                       in Inr (bytes_to_write, b',
                            notify_range (on_data_written_at_range b') b' range_read)))))"

definition read_regions :: "u32 \<Rightarrow> u32 \<Rightarrow> u32 \<Rightarrow> ring_buffer_data" where
  "read_regions file_read_offset remaining_read_bytes bytes_to_read =
     (if bytes_to_read > remaining_read_bytes
      then \<lparr>entryCount = 2, total_bytes = bytes_to_read,
            bd0 = \<lparr>bd_pos = Some file_read_offset, bd_length = remaining_read_bytes\<rparr>,
            bd1 = \<lparr>bd_pos = Some 0, bd_length = bytes_to_read - remaining_read_bytes\<rparr>\<rparr>
      else \<lparr>entryCount = 1, total_bytes = bytes_to_read,
            bd0 = \<lparr>bd_pos = Some file_read_offset, bd_length = bytes_to_read\<rparr>,
            bd1 = no_data\<rparr>)"

definition ring_buffer_get_data_at_range ::
  "ring_buffer \<Rightarrow> data_range \<Rightarrow> bool \<Rightarrow> (ring_buffer_data \<times> ring_buffer \<times> rb_events) res" where
  "ring_buffer_get_data_at_range b requested_range peek =
     (let current_range = ring_buffer_get_current_data_range b
      in if ring_buffer_is_empty b \<or>
            \<not> location_in_data_range (location requested_range) current_range
         then Inr (no_ring_data, b, [])
         else
           (let update_read_offset = (\<not> peek);
                move_offset = location requested_range - location current_range
            in bind_res (bufferReadOffsetWithOffset b move_offset) (\<lambda>file_read_offset.
               let bytes_to_read = min (range_length requested_range) (range_length current_range);
                   remaining_read_bytes = rb_size b - file_read_offset;
                   data = read_regions file_read_offset remaining_read_bytes bytes_to_read
               in bind_res (assert_res (bytes_to_read = bd_length (bd0 data) + bd_length (bd1 data)))
                 (\<lambda>_. bind_res (assert_res
                         (location current_range + move_offset = location requested_range))
                 (\<lambda>_. bind_res (assert_res
                         (location requested_range + bytes_to_read \<le> max_data_range current_range))
                 (\<lambda>_. let range_read = make_data_range (location requested_range) bytes_to_read;
                          b' = (if update_read_offset
                                then b\<lparr>read_offset := read_offset b + ucast bytes_to_read\<rparr>
                                else b)
                      in Inr (data, b', notify_range (on_data_read_at_range b') b' range_read)))))))"

definition ring_buffer_get_data ::
  "ring_buffer \<Rightarrow> u32 \<Rightarrow> bool \<Rightarrow> (ring_buffer_data \<times> ring_buffer \<times> rb_events) res" where
  "ring_buffer_get_data b len peek =
     ring_buffer_get_data_at_range b (make_data_range (ucast (read_offset b)) len) peek"

definition ring_buffer_clear_data :: "ring_buffer \<Rightarrow> u32 \<Rightarrow> ring_buffer" where
  "ring_buffer_clear_data b len =
     (let current_range = ring_buffer_get_current_data_range b;
          bytes_to_clear = min len (range_length current_range)
      in b\<lparr>read_offset := read_offset b + ucast bytes_to_clear\<rparr>)"

definition ring_buffer_set_callback_context :: "ring_buffer \<Rightarrow> addr \<Rightarrow> ring_buffer" where
  "ring_buffer_set_callback_context b c = b\<lparr>ctx := c\<rparr>"

definition ring_buffer_get_callback_context :: "ring_buffer \<Rightarrow> addr" where
  "ring_buffer_get_callback_context b = ctx b"

definition ring_buffer_set_on_read_callback :: "ring_buffer \<Rightarrow> addr \<Rightarrow> ring_buffer" where
  "ring_buffer_set_on_read_callback b callback = b\<lparr>on_data_read_at_range := callback\<rparr>"

definition ring_buffer_set_on_write_callback :: "ring_buffer \<Rightarrow> addr \<Rightarrow> ring_buffer" where
  "ring_buffer_set_on_write_callback b callback = b\<lparr>on_data_written_at_range := callback\<rparr>"

text \<open>The three values stored through the out parameters.\<close>

definition ring_buffer_get_offsets :: "ring_buffer \<Rightarrow> u32 \<times> u32 \<times> u32" where
  "ring_buffer_get_offsets b = (rb_size b, ucast (read_offset b), ucast (write_offset b))"

section \<open>Invariant and contents\<close>

definition rb_len :: "ring_buffer \<Rightarrow> nat" where
  "rb_len b = unat (write_offset b) - unat (read_offset b)"

definition rb_inv :: "ring_buffer \<Rightarrow> bool" where
  "rb_inv b \<longleftrightarrow>
     (case rb_data b of None \<Rightarrow> False | Some d \<Rightarrow> length d = unat (rb_size b)) \<and>
     0 < rb_size b \<and> read_offset b \<le> write_offset b \<and> rb_len b \<le> unat (rb_size b)"

definition rb_contents :: "ring_buffer \<Rightarrow> u8 list" where
  "rb_contents b = ring_slice (the (rb_data b)) (unat (read_offset b)) (rb_len b)"

lemma rb_inv_nat:
  assumes "rb_inv b"
  shows "rb_data b = Some (the (rb_data b))" "length (the (rb_data b)) = unat (rb_size b)"
    "0 < unat (rb_size b)" "unat (read_offset b) \<le> unat (write_offset b)"
    "rb_len b \<le> unat (rb_size b)" "unat (write_offset b) = unat (read_offset b) + rb_len b"
    "rb_size b \<noteq> 0"
proof -
  obtain d where d: "rb_data b = Some d" "length d = unat (rb_size b)"
    using assms by (auto simp: rb_inv_def split: option.splits)
  then show "rb_data b = Some (the (rb_data b))" "length (the (rb_data b)) = unat (rb_size b)"
    by simp_all
  have z: "0 < rb_size b" and rw: "read_offset b \<le> write_offset b"
    and l: "rb_len b \<le> unat (rb_size b)"
    using assms by (simp_all add: rb_inv_def)
  show "0 < unat (rb_size b)" using z by (simp add: word_less_nat_alt)
  show "rb_size b \<noteq> 0" using z by auto
  show le: "unat (read_offset b) \<le> unat (write_offset b)" using rw by (simp add: word_le_nat_alt)
  show "rb_len b \<le> unat (rb_size b)" by (rule l)
  show "unat (write_offset b) = unat (read_offset b) + rb_len b" using le by (simp add: rb_len_def)
qed

lemma length_rb_contents [simp]: "length (rb_contents b) = rb_len b"
  by (simp add: rb_contents_def)

lemma unat_ucast_u64_u32: "unat (ucast (x :: u64) :: u32) = unat x mod 4294967296"
  by (simp add: unsigned_ucast_eq take_bit_eq_mod)

lemma unat_ucast_u32_u64 [simp]: "unat (ucast (x :: u32) :: u64) = unat x"
  using unat_u32_bound [of x] by (simp add: unsigned_ucast_eq take_bit_eq_mod)

lemma available_for_read:
  assumes "rb_inv b"
  shows "unat (ring_buffer_get_bytes_available_for_read b) = rb_len b"
proof -
  note n = rb_inv_nat [OF assms]
  have "rb_len b < 4294967296" using n(5) unat_u32_bound [of "rb_size b"] by linarith
  then show ?thesis
    using unat_diff_fits [OF n(4)]
    by (simp add: ring_buffer_get_bytes_available_for_read_def unat_ucast_u64_u32 rb_len_def)
qed

lemma available_for_write:
  assumes "rb_inv b"
  shows "unat (ring_buffer_get_bytes_available_for_write b) = unat (rb_size b) - rb_len b"
  using rb_inv_nat(5) [OF assms]
  by (simp add: ring_buffer_get_bytes_available_for_write_def unat_diff_fits
      available_for_read [OF assms])

lemma is_empty_iff: "rb_inv b \<Longrightarrow> ring_buffer_is_empty b \<longleftrightarrow> rb_len b = 0"
  using available_for_read [of b] by (metis ring_buffer_is_empty_def unat_eq_zero)

lemma is_full_iff:
  assumes "rb_inv b"
  shows "ring_buffer_is_full b \<longleftrightarrow> rb_len b = unat (rb_size b)"
proof -
  have "ring_buffer_is_full b \<longleftrightarrow> unat (rb_size b) - rb_len b = 0"
    using available_for_write [OF assms] by (metis ring_buffer_is_full_def unat_eq_zero)
  then show ?thesis using rb_inv_nat(5) [OF assms] by linarith
qed

text \<open>The index of a stream offset in the buffer.\<close>

lemma unat_file_offset:
  assumes "0 < unat (sz :: u32)"
  shows "unat (ucast ((x :: u64) mod ucast sz) :: u32) = unat x mod unat sz"
proof -
  have "unat x mod unat sz < 4294967296"
    using assms unat_u32_bound [of sz] by (meson less_trans mod_less_divisor)
  then show ?thesis by (simp add: unat_ucast_u64_u32 unat_mod)
qed

section \<open>What the operations do to the contents\<close>

lemma rb_write_empty:
  assumes "rb_inv b" and "rb_len b = unat (rb_size b) \<or> sz = 0"
  shows "ring_buffer_write_data b src sz = Inr (0, b, [])"
  using assms by (auto simp: ring_buffer_write_data_def is_full_iff)

text \<open>The store of \<open>ring_buffer_write_data\<close>, in one or two pieces, with its 32-bit offsets.\<close>

lemma word_two_piece_store:
  fixes size fo n :: u32
  assumes "length d = unat size" and "unat fo < unat size" and "unat n \<le> unat size" and "unat n \<le> length src"
  shows "(if n > size - fo
      then bind_res (read_from src 0 (unat (size - fo))) (\<lambda>x1.
           bind_res (memcpy_to d (unat fo) x1) (\<lambda>d1.
           bind_res (read_from src (unat (size - fo)) (unat (n - (size - fo)))) (\<lambda>x2.
           memcpy_to d1 0 x2)))
      else bind_res (read_from src 0 (unat n)) (\<lambda>x. memcpy_to d (unat fo) x)) =
    Inr (ring_write d (unat fo) (take (unat n) src))"
proof -
  have rem: "unat (size - fo) = length d - unat fo" using assms(1,2) by (simp add: unat_diff_fits)
  have c: "n > size - fo \<longleftrightarrow> length d - unat fo < unat n" by (simp add: word_less_nat_alt rem)
  have part: "unat (n - (size - fo)) = unat n - (length d - unat fo)" if "length d - unat fo < unat n"
    using that rem by (simp add: unat_diff_fits)
  show ?thesis
    using two_piece_store [of "unat fo" d "unat n" src] assms unfolding c
    by (cases "length d - unat fo < unat n") (simp_all only: if_True if_False rem part)
qed

lemma rb_write_result:
  assumes inv: "rb_inv b" and sz: "sz \<noteq> 0" and room: "rb_len b < unat (rb_size b)"
    and src: "unat sz \<le> length src"
  defines "n \<equiv> min sz (ring_buffer_get_bytes_available_for_write b)"
  defines "b' \<equiv> b\<lparr>rb_data := Some (ring_write (the (rb_data b)) (unat (write_offset b))
                                     (take (unat n) src)),
                  write_offset := write_offset b + ucast n\<rparr>"
  shows "ring_buffer_write_data b src sz =
      Inr (n, b', notify_range (on_data_written_at_range b) b
                    (make_data_range (ucast (write_offset b)) n))"
    and "unat n = min (unat sz) (unat (rb_size b) - rb_len b)"
proof -
  note i = rb_inv_nat [OF inv]
  let ?d = "the (rb_data b)" and ?L = "unat (rb_size b)"
  let ?pos = "unat (write_offset b) mod ?L"
  define fo :: u32 where "fo = ucast (write_offset b mod ucast (rb_size b))"
  show un: "unat n = min (unat sz) (?L - rb_len b)"
    by (simp add: n_def unat_min available_for_write [OF inv])
  have fo: "unat fo = ?pos" unfolding fo_def by (rule unat_file_offset [OF i(3)])
  have pick: "(if n < sz then n else sz) = n" by (auto simp: n_def min_def)
  have w: "ring_write ?d (unat fo) (take (unat n) src) = ring_write ?d (unat (write_offset b)) (take (unat n) src)"
    using ring_write_mod [of ?d] i(2) fo by simp
  have "unat fo < ?L" "unat n \<le> ?L" "unat n \<le> length src" using fo i(3) un src by simp_all
  note store = word_two_piece_store [OF i(2) this, unfolded w]
  have off: "bufferWriteOffset b = Inr fo" using i(7) by (simp add: bufferWriteOffset_def fo_def)
  have nf: "\<not> (ring_buffer_is_full b \<or> sz = 0)" using room sz is_full_iff [OF inv] by simp
  have cs: "(case rb_data b of None \<Rightarrow> e | Some d \<Rightarrow> f d) = f ?d" for e :: "'x" and f
    by (subst i(1)) simp
  show "ring_buffer_write_data b src sz =
      Inr (n, b', notify_range (on_data_written_at_range b) b
                    (make_data_range (ucast (write_offset b)) n))"
    unfolding ring_buffer_write_data_def if_not_P [OF nf] off bind_res_Inr Let_def cs
    unfolding n_def [symmetric] pick store
    by (simp add: b'_def notify_range_def)
qed

lemma rb_write_inv:
  assumes inv: "rb_inv b" and k: "length xs + rb_len b \<le> unat (rb_size b)"
    and fits: "unat (write_offset b) + length xs < 2 ^ 64" and n: "unat n = length xs"
  defines "b' \<equiv> b\<lparr>rb_data := Some (ring_write (the (rb_data b)) (unat (write_offset b)) xs),
                  write_offset := write_offset b + ucast (n :: u32)\<rparr>"
  shows "rb_inv b'" and "rb_contents b' = rb_contents b @ xs"
proof -
  note i = rb_inv_nat [OF inv]
  have w: "unat (write_offset b') = unat (write_offset b) + length xs"
    unfolding b'_def using fits n by (simp add: unat_add_fits)
  have len: "rb_len b' = rb_len b + length xs" using w i(4) by (simp add: rb_len_def b'_def)
  have "read_offset b' \<le> write_offset b'" using i(4) w by (simp add: word_le_nat_alt b'_def)
  with inv len k i(2) show "rb_inv b'" by (simp add: rb_inv_def b'_def)
  have "rb_contents b' = ring_slice (ring_write (the (rb_data b))
      (unat (read_offset b) + rb_len b) xs) (unat (read_offset b)) (rb_len b + length xs)"
    using len i(6) by (simp add: rb_contents_def b'_def)
  also have "\<dots> = rb_contents b @ xs"
    unfolding rb_contents_def using k i(2) by (intro ring_slice_write) simp
  finally show "rb_contents b' = rb_contents b @ xs" .
qed

lemma rb_read_inv:
  assumes inv: "rb_inv b" and k: "unat (n :: u32) \<le> rb_len b"
  defines "b' \<equiv> b\<lparr>read_offset := read_offset b + ucast n\<rparr>"
  shows "rb_inv b'" and "rb_contents b' = drop (unat n) (rb_contents b)"
    and "unat (read_offset b') = unat (read_offset b) + unat n"
proof -
  note i = rb_inv_nat [OF inv]
  have "unat (write_offset b) < 2 ^ 64" using unsigned_less [of "write_offset b"] by simp
  then show r: "unat (read_offset b') = unat (read_offset b) + unat n"
    unfolding b'_def using k i(6) by (simp add: unat_add_fits)
  have len: "rb_len b' = rb_len b - unat n" using r by (simp add: rb_len_def b'_def)
  have "read_offset b' \<le> write_offset b'"
    using r k i(6) by (simp add: word_le_nat_alt b'_def)
  with inv len i show "rb_inv b'" by (auto simp: rb_inv_def b'_def split: option.splits)
  show "rb_contents b' = drop (unat n) (rb_contents b)"
    using k r len by (simp add: rb_contents_def b'_def)
qed

lemma rb_clear_ok:
  assumes inv: "rb_inv b"
  shows "rb_inv (ring_buffer_clear_data b len)"
    and "rb_contents (ring_buffer_clear_data b len) = drop (unat len) (rb_contents b)"
proof -
  let ?n = "min len (ring_buffer_get_bytes_available_for_read b)"
  have n: "unat ?n = min (unat len) (rb_len b)"
    by (simp add: unat_min available_for_read [OF inv])
  then have k: "unat ?n \<le> rb_len b" by simp
  have eq: "ring_buffer_clear_data b len = b\<lparr>read_offset := read_offset b + ucast ?n\<rparr>"
    by (simp add: ring_buffer_clear_data_def ring_buffer_get_current_data_range_def
        make_data_range_def)
  from rb_read_inv [OF inv k] show "rb_inv (ring_buffer_clear_data b len)"
    and "rb_contents (ring_buffer_clear_data b len) = drop (unat len) (rb_contents b)"
    unfolding eq n by (simp_all add: min_def)
qed

text \<open>
  A read at offset \<open>m\<close> from the oldest byte: the regions it returns cover the requested bytes, and
  the bounds assertion of the code decides whether it returns at all.
\<close>

lemma location_in_current_range:
  assumes inv: "rb_inv b" and m: "m < rb_len b"
    and fits: "unat (ucast (read_offset b) :: u32) + m < 4294967296"
  shows "location_in_data_range (ucast (read_offset b) + of_nat m)
    (ring_buffer_get_current_data_range b)"
proof -
  let ?l = "ucast (read_offset b) :: u32"
  have m': "unat (of_nat m :: u32) = m" using fits by (simp add: unat_of_nat)
  then have "unat (?l + of_nat m) = unat ?l + m" using fits by (subst unat_add_fits) simp_all
  then have "\<not> ?l + of_nat m < ?l" by (simp add: word_less_nat_alt)
  moreover have "of_nat m < ring_buffer_get_bytes_available_for_read b"
    using m m' by (simp add: word_less_nat_alt available_for_read [OF inv])
  ultimately show ?thesis
    by (simp add: location_in_data_range_def ring_buffer_get_current_data_range_def
        make_data_range_def)
qed

lemma rb_get_data_at:
  fixes len :: u32
  assumes inv: "rb_inv b" and m: "m < rb_len b"
    and fits: "unat (ucast (read_offset b) :: u32) + m < 4294967296"
  defines "loc \<equiv> ucast (read_offset b) :: u32"
  defines "n \<equiv> min len (ring_buffer_get_bytes_available_for_read b)"
  defines "fo \<equiv> ucast ((read_offset b + of_nat m) mod ucast (rb_size b)) :: u32"
  shows "ring_buffer_get_data_at_range b (make_data_range (loc + of_nat m) len) peek =
    (if loc + of_nat m + n \<le> loc + ring_buffer_get_bytes_available_for_read b
     then (let b' = (if peek then b else b\<lparr>read_offset := read_offset b + ucast n\<rparr>)
           in Inr (read_regions fo (rb_size b - fo) n, b',
                   notify_range (on_data_read_at_range b) b
                     (make_data_range (loc + of_nat m) n)))
     else Inl Assert_Failed)"
proof -
  note i = rb_inv_nat [OF inv]
  have ne: "\<not> (ring_buffer_is_empty b \<or>
      \<not> location_in_data_range (loc + of_nat m) (ring_buffer_get_current_data_range b))"
    using location_in_current_range [OF inv m fits] m is_empty_iff [OF inv] by (simp add: loc_def)
  have mv: "(ucast (of_nat m :: u32) :: u64) = of_nat m"
  proof -
    have "unat (of_nat m :: u32) = m" "unat (of_nat m :: u64) = m"
      using fits by (simp_all add: unat_of_nat)
    then show ?thesis by (simp add: word_unat_eq_iff)
  qed
  have sum: "n = bd_length (bd0 (read_regions fo r n)) + bd_length (bd1 (read_regions fo r n))"
    for r by (simp add: read_regions_def no_data_def)
  have off: "bufferReadOffsetWithOffset b (of_nat m) = Inr fo"
    using i(7) by (simp add: bufferReadOffsetWithOffset_def fo_def mv)
  have cr: "location (ring_buffer_get_current_data_range b) = loc"
    "range_length (ring_buffer_get_current_data_range b) =
       ring_buffer_get_bytes_available_for_read b"
    "max_data_range (ring_buffer_get_current_data_range b) =
       loc + ring_buffer_get_bytes_available_for_read b"
    by (simp_all add: ring_buffer_get_current_data_range_def make_data_range_def max_data_range_def
        loc_def)
  have rr: "location (make_data_range (loc + of_nat m) len) = loc + of_nat m"
    "range_length (make_data_range (loc + of_nat m) len) = len"
    by (simp_all add: make_data_range_def)
  have mo: "loc + of_nat m - loc = of_nat m" by simp
  show ?thesis
    unfolding ring_buffer_get_data_at_range_def Let_def rr if_not_P [OF ne]
    unfolding cr mo off bind_res_Inr n_def [symmetric] sum [symmetric]
    by (simp add: assert_res_def notify_range_def)
qed

lemma copy_read_regions:
  assumes fo: "unat fo < length d" and L: "unat sz = length d" and n: "unat n \<le> length d"
    and dst: "length dst = unat n"
  shows "copy_ring_data_to_buffer d (read_regions fo (sz - fo) n) dst =
    Inr (ring_slice d (unat fo) (unat n))"
proof -
  have rem: "unat (sz - fo) = length d - unat fo" using fo L by (simp add: unat_diff_fits)
  show ?thesis
  proof (cases "n > sz - fo")
    case True
    then have c: "length d - unat fo < unat n" by (simp add: word_less_nat_alt rem)
    then have part: "unat (n - (sz - fo)) = unat n - (length d - unat fo)"
      using rem by (simp add: unat_diff_fits)
    have "ring_slice d (unat fo) (unat n) =
        drop (unat fo) d @ take (unat n - (length d - unat fo)) d"
      using c fo n by (subst ring_slice_wrap) (auto simp: algebra_simps)
    with True c fo n dst rem part show ?thesis
      by (simp add: copy_ring_data_to_buffer_def read_regions_def read_region_def splice_def)
  next
    case False
    then have "unat fo + unat n \<le> length d" using fo by (simp add: word_less_nat_alt rem)
    with False dst show ?thesis
      by (simp add: copy_ring_data_to_buffer_def read_regions_def read_region_def splice_def
          ring_slice_contiguous)
  qed
qed

text \<open>The bytes a caller of \<open>ring_buffer_get_data\<close> copies out of the regions it gets.\<close>

definition read_bytes :: "ring_buffer \<Rightarrow> u32 \<Rightarrow> bool \<Rightarrow> (u8 list \<times> ring_buffer \<times> rb_events) res" where
  "read_bytes b len peek =
     bind_res (ring_buffer_get_data b len peek) (\<lambda>(data, b', ev).
       case rb_data b of
         None \<Rightarrow> Inl Null_Deref
       | Some d \<Rightarrow>
           bind_res (copy_ring_data_to_buffer d data (replicate (unat (total_bytes data)) 0))
             (\<lambda>xs. Inr (xs, b', ev)))"

lemma read_bytes_ok:
  assumes inv: "rb_inv b"
    and fits: "unat (ucast (read_offset b) :: u32) + rb_len b < 4294967296"
  shows "\<exists>b' ev. read_bytes b len peek = Inr (take (unat len) (rb_contents b), b', ev) \<and>
    rb_inv b' \<and> rb_size b' = rb_size b \<and> write_offset b' = write_offset b \<and>
    rb_contents b' = (if peek then rb_contents b else drop (unat len) (rb_contents b)) \<and>
    unat (read_offset b') \<le> unat (write_offset b')"
proof (cases "rb_len b = 0")
  case True
  then have "read_bytes b len peek = Inr ([], b, [])"
    using is_empty_iff [OF inv] rb_inv_nat(1) [OF inv]
    by (cases "rb_data b")
       (simp_all add: read_bytes_def ring_buffer_get_data_def ring_buffer_get_data_at_range_def
          Let_def no_ring_data_def copy_ring_data_to_buffer_def)
  moreover have "rb_contents b = []" using True by (simp add: rb_contents_def)
  ultimately show ?thesis using inv rb_inv_nat(4) [OF inv] by simp
next
  case False
  note i = rb_inv_nat [OF inv]
  let ?loc = "ucast (read_offset b) :: u32"
  let ?n = "min len (ring_buffer_get_bytes_available_for_read b)"
  let ?fo = "ucast (read_offset b mod ucast (rb_size b)) :: u32"
  let ?b = "if peek then b else b\<lparr>read_offset := read_offset b + ucast ?n\<rparr>"
  have un: "unat ?n = min (unat len) (rb_len b)"
    by (simp add: unat_min available_for_read [OF inv])
  have "unat (?loc + ?n) = unat ?loc + unat ?n"
    "unat (?loc + ring_buffer_get_bytes_available_for_read b) = unat ?loc + rb_len b"
    using fits un available_for_read [OF inv] by (simp_all add: unat_add_fits)
  then have le: "?loc + ?n \<le> ?loc + ring_buffer_get_bytes_available_for_read b"
    using un by (simp add: word_le_nat_alt)
  have fo: "unat ?fo = unat (read_offset b) mod unat (rb_size b)"
    by (rule unat_file_offset [OF i(3)])
  have "ring_buffer_get_data b len peek = Inr (read_regions ?fo (rb_size b - ?fo) ?n, ?b,
      notify_range (on_data_read_at_range b) b (make_data_range ?loc ?n))"
    using rb_get_data_at [OF inv, of 0 len peek] False fits le
    by (simp add: ring_buffer_get_data_def Let_def)
  moreover have "copy_ring_data_to_buffer (the (rb_data b)) (read_regions ?fo (rb_size b - ?fo) ?n)
      (replicate (unat ?n) 0) = Inr (ring_slice (the (rb_data b)) (unat ?fo) (unat ?n))"
    using fo i un by (intro copy_read_regions) simp_all
  moreover have "ring_slice (the (rb_data b)) (unat ?fo) (unat ?n) =
      take (unat len) (rb_contents b)"
    unfolding fo un rb_contents_def using ring_slice_mod [of "the (rb_data b)"] i(2)
    by (simp add: min_def)
  moreover have "total_bytes (read_regions ?fo r ?n) = ?n" for r by (simp add: read_regions_def)
  ultimately have rd: "read_bytes b len peek = Inr (take (unat len) (rb_contents b), ?b,
      notify_range (on_data_read_at_range b) b (make_data_range ?loc ?n))"
    unfolding read_bytes_def using i(1) by (cases "rb_data b") simp_all
  have k: "unat ?n \<le> rb_len b" using un by simp
  have drop: "drop (unat ?n) (rb_contents b) = drop (unat len) (rb_contents b)"
    unfolding un by (simp add: min_def)
  have "rb_inv ?b" "rb_contents ?b =
      (if peek then rb_contents b else drop (unat len) (rb_contents b))"
    using inv rb_read_inv [OF inv k] drop by auto
  with rd rb_inv_nat(4) show ?thesis by auto
qed

section \<open>Refinement: a bounded byte queue\<close>

datatype rb_op = RB_Write "u8 list" | RB_Read u32 bool | RB_Clear u32

text \<open>The result of a step: the number of bytes written and the bytes read.\<close>

fun rb_step :: "ring_buffer \<Rightarrow> rb_op \<Rightarrow> ((nat \<times> u8 list) \<times> ring_buffer) res" where
  "rb_step b (RB_Write xs) =
     bind_res (ring_buffer_write_data b xs (of_nat (length xs)))
       (\<lambda>(n, b', _). Inr ((unat n, []), b'))"
| "rb_step b (RB_Read len peek) = bind_res (read_bytes b len peek) (\<lambda>(xs, b', _). Inr ((0, xs), b'))"
| "rb_step b (RB_Clear len) = Inr ((0, []), ring_buffer_clear_data b len)"

fun bq_step :: "nat \<Rightarrow> u8 list \<Rightarrow> rb_op \<Rightarrow> (nat \<times> u8 list) \<times> u8 list" where
  "bq_step cap w (RB_Write xs) =
     (let k = min (length xs) (cap - length w) in ((k, []), w @ take k xs))"
| "bq_step cap w (RB_Read len peek) =
     ((0, take (unat len) w), if peek then w else drop (unat len) w)"
| "bq_step cap w (RB_Clear len) = ((0, []), drop (unat len) w)"

abbreviation rb_run :: "ring_buffer \<Rightarrow> rb_op list \<Rightarrow> ((nat \<times> u8 list) list \<times> ring_buffer) res" where
  "rb_run \<equiv> run_ops rb_step"

abbreviation bq_run :: "nat \<Rightarrow> u8 list \<Rightarrow> rb_op list \<Rightarrow> (nat \<times> u8 list) list \<times> u8 list" where
  "bq_run cap \<equiv> run_spec (bq_step cap)"

text \<open>The bytes a sequence of operations may write.\<close>

fun write_volume :: "rb_op list \<Rightarrow> nat" where
  "write_volume [] = 0"
| "write_volume (RB_Write xs # ps) = length xs + write_volume ps"
| "write_volume (_ # ps) = write_volume ps"

lemma rb_step_write:
  assumes inv: "rb_inv b" and fits: "unat (write_offset b) + length xs < 4294967296"
  shows "\<exists>n b'. rb_step b (RB_Write xs) = Inr ((n, []), b') \<and> rb_inv b' \<and>
    rb_size b' = rb_size b \<and> n = min (length xs) (unat (rb_size b) - rb_len b) \<and>
    rb_contents b' = rb_contents b @ take n xs \<and>
    unat (write_offset b') \<le> unat (write_offset b) + length xs"
proof -
  let ?sz = "of_nat (length xs) :: u32"
  have sz: "unat ?sz = length xs" using fits by (simp add: unat_of_nat)
  show ?thesis
  proof (cases "rb_len b = unat (rb_size b) \<or> ?sz = 0")
    case True
    then have "length xs = 0 \<or> rb_len b = unat (rb_size b)" using sz by (metis unat_0)
    with rb_write_empty [OF inv True, of xs] inv show ?thesis by auto
  next
    case False
    then have ne: "?sz \<noteq> 0" and room: "rb_len b < unat (rb_size b)"
      using rb_inv_nat(5) [OF inv] by auto
    have src: "unat ?sz \<le> length xs" using sz by simp
    note w = rb_write_result [OF inv ne room src]
    let ?n = "min ?sz (ring_buffer_get_bytes_available_for_write b)"
    have un: "unat ?n = min (length xs) (unat (rb_size b) - rb_len b)" using w(2) sz by simp
    have len: "length (take (unat ?n) xs) = unat ?n" using un by simp
    have bounds: "length (take (unat ?n) xs) + rb_len b \<le> unat (rb_size b)"
      "unat (write_offset b) + length (take (unat ?n) xs) < 2 ^ 64"
      using len un room fits by auto
    note v = rb_write_inv [OF inv bounds len [symmetric]]
    have "unat (write_offset b + ucast ?n) = unat (write_offset b) + unat ?n"
      using bounds len by (simp add: unat_add_fits)
    then have "unat (write_offset b + ucast ?n) \<le> unat (write_offset b) + length xs"
      using un by simp
    with w(1) v un show ?thesis by auto
  qed
qed

lemma rb_step_queue:
  assumes inv: "rb_inv b" and fits: "unat (write_offset b) + write_volume [p] < 4294967296"
  shows "\<exists>r b'. rb_step b p = Inr (r, b') \<and> rb_inv b' \<and> rb_size b' = rb_size b \<and>
    bq_step (unat (rb_size b)) (rb_contents b) p = (r, rb_contents b') \<and>
    unat (write_offset b') \<le> unat (write_offset b) + write_volume [p]"
proof (cases p)
  case (RB_Write xs)
  with fits obtain n b' where "rb_step b p = Inr ((n, []), b')" "rb_inv b'"
    "rb_size b' = rb_size b" "n = min (length xs) (unat (rb_size b) - rb_len b)"
    "rb_contents b' = rb_contents b @ take n xs"
    "unat (write_offset b') \<le> unat (write_offset b) + length xs"
    using rb_step_write [OF inv, of xs] by auto
  with RB_Write show ?thesis
    by (intro exI [of _ "(n, [])"] exI [of _ b']) (simp add: Let_def)
next
  case (RB_Read len peek)
  have "unat (read_offset b) + rb_len b < 4294967296"
    using fits rb_inv_nat(6) [OF inv] by simp
  then have "unat (ucast (read_offset b) :: u32) + rb_len b < 4294967296"
    by (simp add: unat_ucast_u64_u32)
  from read_bytes_ok [OF inv this, of len peek]
  obtain b' ev where "read_bytes b len peek = Inr (take (unat len) (rb_contents b), b', ev)"
    "rb_inv b'" "rb_size b' = rb_size b" "write_offset b' = write_offset b"
    "rb_contents b' = (if peek then rb_contents b else drop (unat len) (rb_contents b))"
    by blast
  with RB_Read show ?thesis
    by (intro exI [of _ "(0, take (unat len) (rb_contents b))"] exI [of _ b']) simp
next
  case (RB_Clear len)
  with rb_clear_ok [OF inv, of len] show ?thesis
    by (intro exI [of _ "(0, [])"] exI [of _ "ring_buffer_clear_data b len"])
       (simp add: ring_buffer_clear_data_def Let_def)
qed

lemma write_volume_Cons: "write_volume (p # ps) = write_volume [p] + write_volume ps"
  by (cases p) simp_all

interpretation rbq: op_simulation rb_step "bq_step cap" "\<lambda>b. rb_inv b \<and> unat (rb_size b) = cap" rb_contents
  "\<lambda>b ps. unat (write_offset b) + write_volume ps < 2 ^ 32" for cap
proof
  fix b p ps
  assume a: "rb_inv b \<and> unat (rb_size b) = cap" "unat (write_offset b) + write_volume (p # ps) < 2 ^ 32"
  have "unat (write_offset b) + write_volume [p] < 2 ^ 32" using a(2) write_volume_Cons [of p ps] by simp
  with rb_step_queue [of b p] a(1) obtain r b1 where 1: "rb_step b p = Inr (r, b1)" "rb_inv b1" "rb_size b1 = rb_size b"
    "bq_step (unat (rb_size b)) (rb_contents b) p = (r, rb_contents b1)"
    "unat (write_offset b1) \<le> unat (write_offset b) + write_volume [p]"
    by auto
  moreover have "unat (write_offset b1) + write_volume ps < 2 ^ 32" using 1(5) a(2) write_volume_Cons [of p ps] by simp
  ultimately show "\<exists>r s'. rb_step b p = Inr (r, s') \<and> (rb_inv s' \<and> unat (rb_size s') = cap) \<and>
      unat (write_offset s') + write_volume ps < 2 ^ 32 \<and> bq_step cap (rb_contents b) p = (r, rb_contents s')"
    using a(1) by auto
qed

section \<open>Properties\<close>

text \<open>
  C12: (refinement) As long as fewer than \<open>2 ^ 32\<close> bytes pass through the buffer, any sequence of writes,
  reads, peeks and clears on a buffer that satisfies the invariant runs without a fault or a failed
  assertion and behaves as a byte queue bounded by the buffer size: a write stores the longest
  prefix that fits and returns its length, a read returns the oldest bytes.
\<close>

theorem ring_buffer_refines_queue:
  assumes "rb_inv b" and "unat (write_offset b) + write_volume ps < 2 ^ 32"
  shows "\<exists>rs b'. rb_run b ps = Inr (rs, b') \<and> rb_inv b' \<and>
    bq_run (unat (rb_size b)) (rb_contents b) ps = (rs, rb_contents b')"
  using rbq.runs [of b "unat (rb_size b)" ps] assms by auto

definition rb_example :: ring_buffer where
  "rb_example = \<lparr>rb_size = 3, read_offset = 4, write_offset = 6, rb_data = Some [9, 1, 2],
     ctx = 0, on_data_read_at_range = 0, on_data_written_at_range = 0\<rparr>"

lemma rb_example_ok:
  "rb_inv rb_example" "rb_contents rb_example = [1, 2]" "rb_size rb_example = 3"
  "unat (write_offset rb_example) = 6"
proof -
  show "rb_inv rb_example" by (simp add: rb_inv_def rb_example_def rb_len_def)
  show "rb_contents rb_example = [1, 2]" by code_simp
qed (simp_all add: rb_example_def)

theorem ring_buffer_refines_queue_witness:
  "\<exists>rs b'. rb_run rb_example [RB_Write [7, 8], RB_Read 2 False, RB_Clear 5] = Inr (rs, b') \<and>
    rb_inv b' \<and> rs = [(1, []), (0, [1, 2]), (0, [])]"
proof -
  let ?ps = "[RB_Write [7, 8], RB_Read 2 False, RB_Clear 5]"
  have "unat (write_offset rb_example) + write_volume ?ps < 2 ^ 32" by (simp add: rb_example_ok)
  from ring_buffer_refines_queue [OF rb_example_ok(1) this]
  obtain rs b' where r: "rb_run rb_example ?ps = Inr (rs, b')" "rb_inv b'"
    "bq_run (unat (rb_size rb_example)) (rb_contents rb_example) ?ps = (rs, rb_contents b')"
    by blast
  moreover have "bq_run (unat (3 :: u32)) [1, 2] ?ps = ([(1, []), (0, [1, 2]), (0, [])], [])"
    by code_simp
  ultimately have "rs = [(1, []), (0, [1, 2]), (0, [])]"
    by (simp only: rb_example_ok prod.inject)
  with r show ?thesis by blast
qed

text \<open>
  (error) A read at a location behind the oldest byte that asks for more than is left there does
  not return the shorter piece the documentation promises: the length is cut to the whole amount
  of data and the bounds assertion fails. This needs no overflow.
\<close>

theorem ring_buffer_read_past_end_asserts:
  assumes "rb_inv b" and "0 < m" and "m < rb_len b" and "rb_len b \<le> unat len + m - 1"
    and "unat (ucast (read_offset b) :: u32) + m + rb_len b < 2 ^ 32"
  shows "ring_buffer_get_data_at_range b
    (make_data_range (ucast (read_offset b) + of_nat m) len) peek = Inl Assert_Failed"
proof -
  let ?loc = "ucast (read_offset b) :: u32"
  let ?n = "min len (ring_buffer_get_bytes_available_for_read b)"
  have m: "unat (of_nat m :: u32) = m" using assms(5) by (simp add: unat_of_nat)
  have un: "unat ?n = min (unat len) (rb_len b)"
    by (simp add: unat_min available_for_read [OF assms(1)])
  have "unat (?loc + of_nat m) = unat ?loc + m"
    using assms(5) m by (subst unat_add_fits) simp_all
  then have "unat (?loc + of_nat m + ?n) = unat ?loc + m + unat ?n"
    using assms(5) un by (subst unat_add_fits) simp_all
  moreover have "unat (?loc + ring_buffer_get_bytes_available_for_read b) = unat ?loc + rb_len b"
    using assms(5) available_for_read [OF assms(1)] by (subst unat_add_fits) simp_all
  ultimately have "\<not> ?loc + of_nat m + ?n \<le> ?loc + ring_buffer_get_bytes_available_for_read b"
    using un assms(2-4) by (simp add: word_le_nat_alt)
  moreover have "unat ?loc + m < 4294967296" using assms(5) by simp
  ultimately show ?thesis by (simp add: rb_get_data_at [OF assms(1,3)])
qed

theorem ring_buffer_read_past_end_asserts_witness:
  "ring_buffer_get_data_at_range rb_example (make_data_range 5 2) True = Inl Assert_Failed"
proof -
  have l: "rb_len rb_example = 2" using length_rb_contents [of rb_example] rb_example_ok(2) by simp
  have "ring_buffer_get_data_at_range rb_example
      (make_data_range (ucast (read_offset rb_example) + of_nat 1) 2) True = Inl Assert_Failed"
    by (rule ring_buffer_read_past_end_asserts [OF rb_example_ok(1)])
       (simp_all add: l, simp add: rb_example_def unat_ucast_u64_u32)
  then show ?thesis by (simp add: rb_example_def)
qed

text \<open>
  (bounds) The offsets are documented to grow without wrapping, but ranges are cut to 32 bits: once
  the data lie across a multiple of \<open>2 ^ 32\<close>, \<open>ring_buffer_get_data\<close> for fewer bytes than are held and
  than are left before that multiple fails its assertion, although the bytes are there.
\<close>

theorem ring_buffer_read_wrap_asserts:
  assumes "rb_inv b" and "2 ^ 32 \<le> unat (ucast (read_offset b) :: u32) + rb_len b"
    and "unat len < rb_len b" and "unat (ucast (read_offset b) :: u32) + unat len < 2 ^ 32"
  shows "ring_buffer_get_data b len peek = Inl Assert_Failed"
proof -
  let ?loc = "ucast (read_offset b) :: u32"
  let ?av = "ring_buffer_get_bytes_available_for_read b"
  note av = available_for_read [OF assms(1)]
  have n: "min len ?av = len" using assms(3) av by (simp add: min_def word_le_nat_alt)
  have "unat (?loc + ?av) = (unat ?loc + rb_len b) mod 2 ^ 32"
    using av by (simp add: unat_word_ariths)
  also have "\<dots> = unat ?loc + rb_len b - 2 ^ 32"
    using assms(2) unat_u32_bound [of ?loc] unat_u32_bound [of ?av] av
    by (simp add: mod_if)
  also have "\<dots> < unat ?loc"
    using assms(2) unat_u32_bound [of ?av] av by simp
  finally have "unat (?loc + ?av) < unat (?loc + len)"
    using assms(4) by (subst (2) unat_add_fits) simp_all
  then have "\<not> ?loc + len \<le> ?loc + ?av" by (simp add: word_le_nat_alt)
  moreover have "0 < rb_len b" "unat ?loc + 0 < 4294967296"
    using assms(3) unat_u32_bound [of ?loc] by auto
  ultimately show ?thesis
    using rb_get_data_at [OF assms(1), of 0 len peek] by (simp add: ring_buffer_get_data_def n)
qed

theorem ring_buffer_read_wrap_asserts_witness:
  "ring_buffer_get_data \<lparr>rb_size = 3, read_offset = 4294967295, write_offset = 4294967297,
     rb_data = Some [9, 1, 2], ctx = 0, on_data_read_at_range = 0,
     on_data_written_at_range = 0\<rparr> 0 False = Inl Assert_Failed"
  by (rule ring_buffer_read_wrap_asserts)
     (simp_all add: rb_inv_def rb_len_def unat_ucast_u64_u32)

text \<open>
  (type) \<open>create_ring_buffer\<close> and \<open>ring_buffer_reset_at_offset\<close>: creating a buffer leaves its offsets
  as the memory held them, so only a store whose offsets are equal gives the documented empty
  buffer; after a reset at any offset the buffer is empty and satisfies the invariant.
\<close>

theorem ring_buffer_create_then_reset:
  assumes "length d = unat sz" and "0 < sz"
  shows "\<exists>b0 b1. create_ring_buffer
      \<lparr>rp_buffer = Some b, rp_data = Some d, rp_size_in_bytes = sz\<rparr> = (Some b0, True) \<and>
    read_offset b0 = read_offset b \<and> write_offset b0 = write_offset b \<and>
    ring_buffer_reset_at_offset (Some b0) off = Inr b1 \<and> rb_inv b1 \<and> rb_contents b1 = []"
  using assms
  by (simp add: create_ring_buffer_def ring_buffer_reset_at_offset_def rb_inv_def rb_len_def
      rb_contents_def)

theorem ring_buffer_create_then_reset_witness:
  "\<exists>b0 b1. create_ring_buffer
      \<lparr>rp_buffer = Some rb_example, rp_data = Some [0, 0], rp_size_in_bytes = 2\<rparr> =
        (Some b0, True) \<and>
    read_offset b0 = read_offset rb_example \<and> write_offset b0 = write_offset rb_example \<and>
    ring_buffer_reset_at_offset (Some b0) 7 = Inr b1 \<and> rb_inv b1 \<and> rb_contents b1 = []"
  by (rule ring_buffer_create_then_reset) simp_all

end
