(* ===== verification/Log_Buffer.thy ===== *)
theory Log_Buffer
  imports Prelude
begin

text \<open>
  The character log of \<open>inc/cutils/log_buffer.h\<close> and \<open>src/log_buffer.c\<close>: a ring of characters that
  overwrites its oldest ones, with a filter that removes ANSI escape sequences, carriage returns and
  null characters on the way in.
\<close>

section \<open>Control block and operations\<close>

record log_buffer =
  p_buffer :: "u8 list option"
  isInit :: bool
  bufferSize :: u32
  lb_head :: u32
  lb_tail :: u32
  in_escape_sequence :: bool

definition is_letter :: "u8 \<Rightarrow> bool" where
  "is_letter c \<longleftrightarrow> (0x61 \<le> c \<and> c \<le> 0x7A) \<or> (0x41 \<le> c \<and> c \<le> 0x5A)"

text \<open>Returns whether the character is to be dropped.\<close>

definition log_buffer_filter_character :: "log_buffer \<Rightarrow> u8 \<Rightarrow> bool \<times> log_buffer" where
  "log_buffer_filter_character lb character =
     (if 0x1b = character then (True, lb\<lparr>in_escape_sequence := True\<rparr>)
      else if in_escape_sequence lb
      then (if is_letter character then (True, lb\<lparr>in_escape_sequence := False\<rparr>) else (True, lb))
      else if 0xd \<noteq> character then (False, lb) else (True, lb))"

text \<open>The index after \<open>i\<close>, back to 0 at the end of the buffer.\<close>

definition lb_next :: "log_buffer \<Rightarrow> u32 \<Rightarrow> u32" where
  "lb_next lb i = (if i + 1 < bufferSize lb then i + 1 else 0)"

definition log_buffer_char_push :: "log_buffer \<Rightarrow> u8 \<Rightarrow> log_buffer res" where
  "log_buffer_char_push lb item =
     (if item \<noteq> 0
      then (case p_buffer lb of
              None \<Rightarrow> Inl Null_Deref
            | Some buf \<Rightarrow>
                if unat (lb_head lb) < length buf
                then (let lb1 = lb\<lparr>p_buffer := Some (buf[unat (lb_head lb) := item]),
                                   lb_head := lb_next lb (lb_head lb)\<rparr>
                      in Inr (if lb_head lb1 = lb_tail lb1
                              then lb1\<lparr>lb_tail := lb_next lb1 (lb_tail lb1)\<rparr> else lb1))
                else Inl Out_Of_Bounds)
      else Inr lb)"

definition log_buffer_init ::
  "log_buffer option \<Rightarrow> u8 list option \<Rightarrow> u32 \<Rightarrow> bool \<times> log_buffer option" where
  "log_buffer_init pLb pBuffer sz =
     (case pLb of
        None \<Rightarrow> (False, None)
      | Some lb \<Rightarrow>
          if pBuffer \<noteq> None \<and> sz \<noteq> 0
          then (True, Some (lb\<lparr>p_buffer := pBuffer, bufferSize := sz, lb_tail := 0, lb_head := 0,
                               isInit := True\<rparr>))
          else (False, Some lb))"

text \<open>The loop of \<open>log_buffer_push\<close> over the characters of the string.\<close>

fun log_buffer_push_loop :: "log_buffer \<Rightarrow> u8 list \<Rightarrow> log_buffer res" where
  "log_buffer_push_loop lb [] = Inr lb"
| "log_buffer_push_loop lb (character # rest) =
     (let (dropped, lb1) = log_buffer_filter_character lb character
      in bind_res (if \<not> dropped then log_buffer_char_push lb1 character else Inr lb1)
           (\<lambda>lb2. log_buffer_push_loop lb2 rest))"

definition log_buffer_push ::
  "log_buffer option \<Rightarrow> u8 list option \<Rightarrow> u32 \<Rightarrow> (bool \<times> log_buffer option) res" where
  "log_buffer_push pLb pString stringSize =
     (case pLb of
        None \<Rightarrow> Inr (False, None)
      | Some lb \<Rightarrow>
          (case pString of
             None \<Rightarrow> Inr (False, Some lb)
           | Some str \<Rightarrow>
               if isInit lb \<and> stringSize < bufferSize lb
               then bind_res (read_from str 0 (unat stringSize)) (\<lambda>cs.
                    bind_res (log_buffer_push_loop lb cs) (\<lambda>lb'. Inr (True, Some lb')))
               else Inr (False, Some lb)))"

text \<open>The popped character, \<open>None\<close> when the call returns false.\<close>

definition log_buffer_char_pop :: "log_buffer option \<Rightarrow> (u8 option \<times> log_buffer option) res" where
  "log_buffer_char_pop pLb =
     (case pLb of
        None \<Rightarrow> Inr (None, None)
      | Some lb \<Rightarrow>
          if lb_head lb \<noteq> lb_tail lb
          then (case p_buffer lb of
                  None \<Rightarrow> Inl Null_Deref
                | Some buf \<Rightarrow>
                    if unat (lb_tail lb) < length buf
                    then Inr (Some (buf ! unat (lb_tail lb)),
                              Some (lb\<lparr>lb_tail := lb_next lb (lb_tail lb)\<rparr>))
                    else Inl Out_Of_Bounds)
          else Inr (None, Some lb))"

definition log_buffer_is_empty :: "log_buffer option \<Rightarrow> bool" where
  "log_buffer_is_empty pLb =
     (case pLb of None \<Rightarrow> False
      | Some lb \<Rightarrow> if isInit lb then lb_head lb = lb_tail lb else False)"

definition log_buffer_clear :: "log_buffer option \<Rightarrow> log_buffer option" where
  "log_buffer_clear pLb =
     map_option (\<lambda>lb. if isInit lb then lb\<lparr>lb_tail := 0, lb_head := 0\<rparr> else lb) pLb"

text \<open>Size, initial chunk and residue.\<close>

definition log_buffer_current_size :: "log_buffer \<Rightarrow> u32 \<times> u32 \<times> u32" where
  "log_buffer_current_size lb =
     (let (ibytes, rbytes) =
            (if lb_head lb > lb_tail lb then (lb_head lb - lb_tail lb, 0)
             else if lb_head lb < lb_tail lb then (bufferSize lb - lb_tail lb, lb_head lb)
             else (0, 0))
      in (ibytes + rbytes, ibytes, rbytes))"

definition LOG_MAX_LINE_LENGTH :: u32 where
  "LOG_MAX_LINE_LENGTH = 512"

definition log_buffer_lines_from_size :: "u32 \<Rightarrow> u32" where
  "log_buffer_lines_from_size sz = 1 + (sz - 1) div LOG_MAX_LINE_LENGTH"

section \<open>Invariant and contents\<close>

definition lb_inv :: "log_buffer \<Rightarrow> bool" where
  "lb_inv lb \<longleftrightarrow>
     p_buffer lb \<noteq> None \<and> length (the (p_buffer lb)) = unat (bufferSize lb) \<and>
     isInit lb \<and> lb_head lb < bufferSize lb \<and> lb_tail lb < bufferSize lb"

definition lb_len :: "log_buffer \<Rightarrow> nat" where
  "lb_len lb = ring_count (unat (bufferSize lb)) (unat (lb_head lb)) (unat (lb_tail lb))"

text \<open>The characters held, oldest first.\<close>

definition lb_contents :: "log_buffer \<Rightarrow> u8 list" where
  "lb_contents lb = ring_slice (the (p_buffer lb)) (unat (lb_tail lb)) (lb_len lb)"

lemma lb_inv_nat:
  assumes "lb_inv lb"
  shows "p_buffer lb = Some (the (p_buffer lb))"
    "length (the (p_buffer lb)) = unat (bufferSize lb)"
    "unat (lb_head lb) < unat (bufferSize lb)" "unat (lb_tail lb) < unat (bufferSize lb)"
    "isInit lb"
  using assms by (auto simp: lb_inv_def word_less_nat_alt split: option.splits)

lemma length_lb_contents [simp]: "length (lb_contents lb) = lb_len lb"
  by (simp add: lb_contents_def)

lemma unat_Suc_word: "unat i < unat n \<Longrightarrow> unat (i + 1) = Suc (unat i)" for i n :: u32
  using unat_u32_bound [of n] by (subst unat_add_fits) auto

lemma unat_lb_next:
  assumes "unat i < unat (bufferSize lb)"
  shows "unat (lb_next lb i) = Suc (unat i) mod unat (bufferSize lb)"
proof (cases "i + 1 < bufferSize lb")
  case True
  then show ?thesis
    using unat_Suc_word [OF assms] by (simp add: lb_next_def word_less_nat_alt)
next
  case False
  then have "Suc (unat i) = unat (bufferSize lb)"
    using unat_Suc_word [OF assms] assms by (simp add: word_less_nat_alt)
  with False show ?thesis by (simp add: lb_next_def)
qed

section \<open>One character\<close>

lemma lb_len_less: "lb_inv lb \<Longrightarrow> lb_len lb < unat (bufferSize lb)"
  unfolding lb_len_def using lb_inv_nat(3,4) [of lb] ring_count_less by blast

lemma lb_head_mod:
  "lb_inv lb \<Longrightarrow> (unat (lb_tail lb) + lb_len lb) mod unat (bufferSize lb) = unat (lb_head lb)"
  unfolding lb_len_def using lb_inv_nat(3,4) [of lb] ring_count_mod by blast

text \<open>The store of a character at the head, before the tail is looked at.\<close>

lemma lb_store_slice:
  assumes inv: "lb_inv lb"
  shows "ring_slice ((the (p_buffer lb))[unat (lb_head lb) := c]) (unat (lb_tail lb)) (Suc (lb_len lb))
    = lb_contents lb @ [c]"
proof -
  let ?buf = "the (p_buffer lb)" and ?t = "unat (lb_tail lb)" and ?n = "lb_len lb"
  note i = lb_inv_nat [OF inv]
  have "?buf[unat (lb_head lb) := c] = ring_write ?buf (unat (lb_head lb)) [c]"
    using i by (simp add: ring_write_one)
  also have "\<dots> = ring_write ?buf (?t + ?n) [c]"
    using lb_head_mod [OF inv] i(2) ring_write_mod by metis
  finally show ?thesis
    using ring_slice_write [of ?n "[c]" ?buf ?t] lb_len_less [OF inv] i(2)
    by (simp add: lb_contents_def)
qed

text \<open>The buffer after the store, before the tail is moved, and the push in its terms.\<close>

definition lb_stored :: "log_buffer \<Rightarrow> u8 \<Rightarrow> log_buffer" where
  "lb_stored lb c = lb\<lparr>p_buffer := Some ((the (p_buffer lb))[unat (lb_head lb) := c]), lb_head := lb_next lb (lb_head lb)\<rparr>"

lemma lb_stored_sel [simp]:
  "lb_tail (lb_stored lb c) = lb_tail lb" "bufferSize (lb_stored lb c) = bufferSize lb"
  "in_escape_sequence (lb_stored lb c) = in_escape_sequence lb"
  "p_buffer (lb_stored lb c) = Some ((the (p_buffer lb))[unat (lb_head lb) := c])"
  by (simp_all add: lb_stored_def)

lemma lb_stored_head:
  assumes inv: "lb_inv lb"
  shows "unat (lb_head (lb_stored lb c)) = (unat (lb_tail lb) + Suc (lb_len lb)) mod unat (bufferSize lb)"
    and "unat (lb_head (lb_stored lb c)) < unat (bufferSize lb)"
proof -
  note i = lb_inv_nat [OF inv]
  have "unat (lb_head (lb_stored lb c)) = Suc ((unat (lb_tail lb) + lb_len lb) mod unat (bufferSize lb)) mod unat (bufferSize lb)"
    using unat_lb_next [OF i(3)] lb_head_mod [OF inv] by (simp add: lb_stored_def)
  then show h: "unat (lb_head (lb_stored lb c)) = (unat (lb_tail lb) + Suc (lb_len lb)) mod unat (bufferSize lb)"
    by (simp add: mod_Suc_eq)
  show "unat (lb_head (lb_stored lb c)) < unat (bufferSize lb)" unfolding h using i(3) by simp
qed

lemma lb_stored_inv: "lb_inv lb \<Longrightarrow> lb_inv (lb_stored lb c)"
  using lb_stored_head(2) [of lb c] by (simp add: lb_inv_def word_less_nat_alt lb_stored_def)

lemma log_buffer_char_push_stored:
  assumes "lb_inv lb" and "c \<noteq> 0"
  shows "log_buffer_char_push lb c = Inr (let lb1 = lb_stored lb c in
    if lb_head lb1 = lb_tail lb1 then lb1\<lparr>lb_tail := lb_next lb1 (lb_tail lb1)\<rparr> else lb1)"
  using assms(2) lb_inv_nat [OF assms(1)]
  by (cases "p_buffer lb") (simp_all add: log_buffer_char_push_def Let_def lb_stored_def)

lemma lb_stored_room:
  assumes inv: "lb_inv lb" and room: "Suc (lb_len lb) < unat (bufferSize lb)"
  shows "lb_head (lb_stored lb c) \<noteq> lb_tail lb" and "lb_contents (lb_stored lb c) = lb_contents lb @ [c]"
proof -
  note h = lb_stored_head [OF inv, of c] and t = lb_inv_nat(4) [OF inv]
  have len: "lb_len (lb_stored lb c) = Suc (lb_len lb)"
    using ring_count_unique [OF h(2) t room] h(1) by (simp add: lb_len_def)
  then show "lb_head (lb_stored lb c) \<noteq> lb_tail lb" using ring_count_0_iff [OF h(2) t] by (auto simp: lb_len_def)
  show "lb_contents (lb_stored lb c) = lb_contents lb @ [c]"
    using lb_store_slice [OF inv] len by (simp add: lb_contents_def)
qed

lemma lb_stored_full:
  fixes c :: u8
  assumes inv: "lb_inv lb" and full: "Suc (lb_len lb) = unat (bufferSize lb)"
  defines "lb2 \<equiv> (lb_stored lb c)\<lparr>lb_tail := lb_next (lb_stored lb c) (lb_tail lb)\<rparr>"
  shows "lb_head (lb_stored lb c) = lb_tail lb" and "lb_inv lb2" and "lb_contents lb2 = drop 1 (lb_contents lb @ [c])"
proof -
  note i = lb_inv_nat [OF inv] and h = lb_stored_head [OF inv, of c]
  let ?L = "unat (bufferSize lb)" and ?t = "unat (lb_tail lb)" and ?n = "lb_len lb"
  have "unat (lb_head (lb_stored lb c)) = ?t" using h(1) full i(4) by simp
  then show "lb_head (lb_stored lb c) = lb_tail lb" by (simp add: word_unat_eq_iff)
  have t2: "unat (lb_tail lb2) = Suc ?t mod ?L"
    using unat_lb_next [of "lb_tail lb" "lb_stored lb c"] i(4) by (simp add: lb2_def)
  then have t2L: "unat (lb_tail lb2) < ?L" using i(3) by simp
  show "lb_inv lb2"
    using lb_stored_inv [OF inv, of c] t2L by (simp add: lb2_def lb_inv_def word_less_nat_alt)
  have "(unat (lb_tail lb2) + ?n) mod ?L = unat (lb_head (lb_stored lb c))"
    unfolding t2 mod_add_left_eq h(1) by simp
  then have "lb_len lb2 = ?n"
    using ring_count_unique [OF h(2) t2L lb_len_less [OF inv]] by (simp add: lb_len_def lb2_def)
  then have "lb_contents lb2 = drop 1 (ring_slice ((the (p_buffer lb))[unat (lb_head lb) := c]) ?t (Suc ?n))"
    using t2 i(2) ring_slice_mod [of "(the (p_buffer lb))[unat (lb_head lb) := c]" "Suc ?t" ?n]
    by (simp add: lb_contents_def lb2_def)
  then show "lb_contents lb2 = drop 1 (lb_contents lb @ [c])" unfolding lb_store_slice [OF inv] .
qed

lemma log_buffer_char_push_ok:
  assumes inv: "lb_inv lb" and c: "c \<noteq> 0"
  obtains lb' where "log_buffer_char_push lb c = Inr lb'" "lb_inv lb'"
    "bufferSize lb' = bufferSize lb" "in_escape_sequence lb' = in_escape_sequence lb"
    "lb_contents lb' = lastn (unat (bufferSize lb) - 1) (lb_contents lb @ [c])"
proof (cases "Suc (lb_len lb) < unat (bufferSize lb)")
  case True
  then show ?thesis
    using log_buffer_char_push_stored [OF inv c] lb_stored_room [OF inv True, of c] lb_stored_inv [OF inv, of c]
    by (intro that [of "lb_stored lb c"]) simp_all
next
  case False
  then have full: "Suc (lb_len lb) = unat (bufferSize lb)" using lb_len_less [OF inv] by simp
  then have "drop 1 (lb_contents lb @ [c]) = lastn (unat (bufferSize lb) - 1) (lb_contents lb @ [c])"
    by (simp add: lastn_def)
  then show ?thesis
    using log_buffer_char_push_stored [OF inv c] lb_stored_full [OF inv full, of c] full
    by (intro that [of "(lb_stored lb c)\<lparr>lb_tail := lb_next (lb_stored lb c) (lb_tail lb)\<rparr>"])
      (simp_all add: Let_def)
qed

lemma log_buffer_char_pop_ok:
  assumes inv: "lb_inv lb" and ne: "lb_contents lb = c # cs"
  obtains lb' where "log_buffer_char_pop (Some lb) = Inr (Some c, Some lb')" "lb_inv lb'"
    "bufferSize lb' = bufferSize lb" "in_escape_sequence lb' = in_escape_sequence lb"
    "lb_contents lb' = cs"
proof -
  note i = lb_inv_nat [OF inv]
  let ?L = "unat (bufferSize lb)" and ?t = "unat (lb_tail lb)"
  let ?lb = "lb\<lparr>lb_tail := lb_next lb (lb_tail lb)\<rparr>"
  have len: "lb_len lb = Suc (length cs)" using ne by (metis length_Cons length_lb_contents)
  have "unat (lb_tail lb) \<noteq> unat (lb_head lb)"
    using len ring_count_0_iff [OF i(3,4)] by (simp add: lb_len_def)
  then have ht: "lb_head lb \<noteq> lb_tail lb" by auto
  have c: "c = the (p_buffer lb) ! ?t"
    using ne len i(2,4) by (simp add: lb_contents_def ring_slice_Cons)
  have t2: "unat (lb_tail ?lb) = Suc ?t mod ?L" using unat_lb_next [OF i(4)] by simp
  have t2L: "unat (lb_tail ?lb) < ?L" using t2 i(3) by simp
  have "(unat (lb_tail ?lb) + length cs) mod ?L = (Suc ?t + length cs) mod ?L"
    unfolding t2 by (rule mod_add_left_eq)
  also have "\<dots> = unat (lb_head lb)" using lb_head_mod [OF inv] len by simp
  finally have "lb_len ?lb = length cs"
    using ring_count_unique [OF i(3) t2L] lb_len_less [OF inv] len by (simp add: lb_len_def)
  moreover have "ring_slice (the (p_buffer lb)) (Suc ?t) (length cs) = cs"
    using ne len by (simp add: lb_contents_def ring_slice_Cons)
  ultimately have "lb_contents ?lb = cs"
    using t2 i(2) ring_slice_mod [of "the (p_buffer lb)" "Suc ?t"] by (simp add: lb_contents_def)
  moreover have "lb_inv ?lb" using inv t2L by (simp add: lb_inv_def word_less_nat_alt)
  moreover have "log_buffer_char_pop (Some lb) = Inr (Some c, Some ?lb)"
    using ht c i by (cases "p_buffer lb") (simp_all add: log_buffer_char_pop_def)
  ultimately show ?thesis by (intro that [of ?lb]) simp_all
qed

section \<open>The filter\<close>

text \<open>
  The text that is left of a string when escape sequences (from the escape character to the next
  letter), carriage returns and null characters are taken out.
\<close>

function visible :: "u8 list \<Rightarrow> u8 list" where
  "visible [] = []"
| "visible (c # cs) =
     (if c = 0x1b then visible (tl (dropWhile (\<lambda>x. \<not> is_letter x) cs))
      else if c = 0xd \<or> c = 0 then visible cs
      else c # visible cs)"
  by pat_completeness auto
termination
  by (relation "measure length")
     (auto simp: less_Suc_eq_le intro: order_trans [OF diff_le_self] length_dropWhile_le)

text \<open>The same, started inside an escape sequence when \<open>esc\<close> holds.\<close>

definition visible_from :: "bool \<Rightarrow> u8 list \<Rightarrow> u8 list" where
  "visible_from esc cs = visible (if esc then tl (dropWhile (\<lambda>x. \<not> is_letter x) cs) else cs)"

lemma escape_not_letter: "\<not> is_letter 0x1b" "\<not> is_letter 0" "\<not> is_letter 0xd"
  by (simp_all add: is_letter_def)

lemma log_buffer_push_loop_ok:
  assumes "lb_inv lb"
  shows "\<exists>lb'. log_buffer_push_loop lb cs = Inr lb' \<and> lb_inv lb' \<and>
    bufferSize lb' = bufferSize lb \<and>
    lb_contents lb' = lastn (unat (bufferSize lb) - 1)
      (lb_contents lb @ visible_from (in_escape_sequence lb) cs)"
  using assms
proof (induction cs arbitrary: lb)
  case Nil
  then show ?case using lb_len_less [OF Nil] by (simp add: visible_from_def)
next
  case (Cons c cs)
  note flt = log_buffer_filter_character_def [of lb c]
  have esc: "lb_inv (lb\<lparr>in_escape_sequence := e\<rparr>)"
    "lb_contents (lb\<lparr>in_escape_sequence := e\<rparr>) = lb_contents lb" for e
    using Cons.prems by (auto simp: lb_inv_def lb_contents_def lb_len_def split: option.splits)
  consider "c = 0x1b" | "c \<noteq> 0x1b" "in_escape_sequence lb"
    | "c \<noteq> 0x1b" "\<not> in_escape_sequence lb" "c = 0xd \<or> c = 0"
    | "c \<noteq> 0x1b" "\<not> in_escape_sequence lb" "c \<noteq> 0xd" "c \<noteq> 0" by auto
  then show ?case
  proof cases
    case 1
    with Cons.IH [OF esc(1) [of True]] esc(2) flt escape_not_letter show ?thesis
      by (auto simp: visible_from_def)
  next
    case 2
    with Cons.IH [OF esc(1) [of False]] Cons.IH [OF Cons.prems] esc(2) flt show ?thesis
      by (cases "is_letter c") (auto simp: visible_from_def)
  next
    case 3
    then have "log_buffer_push_loop lb (c # cs) = log_buffer_push_loop lb cs"
      using flt by (auto simp: log_buffer_char_push_def)
    moreover have "visible_from (in_escape_sequence lb) (c # cs) =
        visible_from (in_escape_sequence lb) cs"
      using 3 by (simp add: visible_from_def)
    ultimately show ?thesis using Cons.IH [OF Cons.prems] by simp
  next
    case 4
    obtain lb1 where p: "log_buffer_char_push lb c = Inr lb1" "lb_inv lb1"
      "bufferSize lb1 = bufferSize lb" "in_escape_sequence lb1 = in_escape_sequence lb"
      "lb_contents lb1 = lastn (unat (bufferSize lb) - 1) (lb_contents lb @ [c])"
      using log_buffer_char_push_ok [OF Cons.prems 4(4)] by metis
    with Cons.IH [OF p(2)] 4 flt show ?thesis by (auto simp: visible_from_def)
  qed
qed

section \<open>Properties\<close>

text \<open>
  C32: (functional) \<open>log_buffer_push\<close> of a string shorter than the buffer keeps the invariant, never
  leaves the buffer, and makes the log hold the last \<open>bufferSize - 1\<close> characters of what it held
  followed by the visible text of the string: escape sequences, carriage returns and null characters
  removed, also when an escape sequence was left open by an earlier push.
\<close>

theorem log_buffer_push_visible:
  assumes "lb_inv lb" and "sz < bufferSize lb" and "unat sz \<le> length str"
  shows "\<exists>lb'. log_buffer_push (Some lb) (Some str) sz = Inr (True, Some lb') \<and> lb_inv lb' \<and>
    lb_contents lb' = lastn (unat (bufferSize lb) - 1)
      (lb_contents lb @ visible_from (in_escape_sequence lb) (take (unat sz) str))"
  using log_buffer_push_loop_ok [OF assms(1), of "take (unat sz) str"] assms lb_inv_nat(5)
  by (auto simp: log_buffer_push_def)

definition lb_example :: log_buffer where
  "lb_example = \<lparr>p_buffer = Some [0x63, 0, 0x61, 0x62], isInit = True, bufferSize = 4,
     lb_head = 1, lb_tail = 2, in_escape_sequence = False\<rparr>"

lemma lb_example_ok: "lb_inv lb_example" "lb_contents lb_example = [0x61, 0x62, 0x63]"
proof -
  show "lb_inv lb_example" by (simp add: lb_inv_def lb_example_def)
  show "lb_contents lb_example = [0x61, 0x62, 0x63]" by code_simp
qed

theorem log_buffer_push_visible_witness:
  "\<exists>lb'. log_buffer_push (Some lb_example) (Some [0x1b, 0x6d, 0x64]) 3 =
      Inr (True, Some lb') \<and> lb_contents lb' = [0x62, 0x63, 0x64]"
proof -
  have "lastn (unat (bufferSize lb_example) - 1) ([0x61, 0x62, 0x63] @
      visible_from (in_escape_sequence lb_example) (take (unat (3 :: u32)) [0x1b, 0x6d, 0x64])) =
    [0x62, 0x63, 0x64 :: u8]"
    by code_simp
  moreover have "\<exists>lb'. log_buffer_push (Some lb_example) (Some [0x1b, 0x6d, 0x64]) 3 =
      Inr (True, Some lb') \<and> lb_inv lb' \<and>
      lb_contents lb' = lastn (unat (bufferSize lb_example) - 1) (lb_contents lb_example @
        visible_from (in_escape_sequence lb_example) (take (unat (3 :: u32)) [0x1b, 0x6d, 0x64]))"
    by (rule log_buffer_push_visible [OF lb_example_ok(1)]) (simp_all add: lb_example_def)
  ultimately show ?thesis unfolding lb_example_ok(2) by auto
qed

text \<open>The two parts of the contents.\<close>

lemma log_buffer_current_size_parts:
  assumes inv: "lb_inv lb"
  shows "\<exists>n i r. log_buffer_current_size lb = (n, i, r) \<and> unat n = length (lb_contents lb) \<and>
     unat n = unat i + unat r \<and>
     lb_contents lb = take (unat i) (drop (unat (lb_tail lb)) (the (p_buffer lb))) @
       take (unat r) (the (p_buffer lb))"
proof (cases "lb_head lb < lb_tail lb")
  case True
  then have lt: "unat (lb_head lb) < unat (lb_tail lb)" by (simp add: word_less_nat_alt)
  note i = lb_inv_nat [OF inv]
  have f: "unat (bufferSize lb - lb_tail lb) = unat (bufferSize lb) - unat (lb_tail lb)"
    using i(4) by (simp add: unat_diff_fits)
  have "unat (bufferSize lb - lb_tail lb + lb_head lb) =
      unat (bufferSize lb) - unat (lb_tail lb) + unat (lb_head lb)"
    using f lt i(4) unat_u32_bound [of "bufferSize lb"] by (subst unat_add_fits) auto
  moreover have "lb_contents lb = drop (unat (lb_tail lb)) (the (p_buffer lb)) @
      take (unat (lb_head lb)) (the (p_buffer lb))" if "0 < unat (lb_head lb)"
    using lt i that
    by (auto simp: lb_contents_def lb_len_def ring_count_def ring_slice_wrap)
  moreover have "lb_contents lb = drop (unat (lb_tail lb)) (the (p_buffer lb))"
    if "unat (lb_head lb) = 0"
    using lt i that by (auto simp: lb_contents_def lb_len_def ring_count_def ring_slice_contiguous)
  ultimately show ?thesis
    using True lt f i by (cases "unat (lb_head lb) = 0")
      (auto simp: log_buffer_current_size_def Let_def lb_len_def ring_count_def)
next
  case False
  then have le: "unat (lb_tail lb) \<le> unat (lb_head lb)" by (simp add: word_less_nat_alt)
  note i = lb_inv_nat [OF inv]
  have "log_buffer_current_size lb = (lb_head lb - lb_tail lb, lb_head lb - lb_tail lb, 0)"
    using False by (auto simp: log_buffer_current_size_def)
  with le i show ?thesis
    by (simp add: unat_diff_fits lb_contents_def lb_len_def ring_count_def ring_slice_contiguous)
qed

text \<open>
  (functional) \<open>log_buffer_char_pop\<close> takes the characters out in order, \<open>log_buffer_is_empty\<close> tells
  whether one is left, and \<open>log_buffer_current_size\<close> is their number, split into the part up to the
  end of the buffer and the part from its start.
\<close>

theorem log_buffer_pop_order:
  assumes inv: "lb_inv lb"
  shows "(case lb_contents lb of
      [] \<Rightarrow> log_buffer_char_pop (Some lb) = Inr (None, Some lb) \<and> log_buffer_is_empty (Some lb)
    | c # cs \<Rightarrow> \<not> log_buffer_is_empty (Some lb) \<and>
        (\<exists>lb'. log_buffer_char_pop (Some lb) = Inr (Some c, Some lb') \<and> lb_inv lb' \<and>
           lb_contents lb' = cs)) \<and>
    (\<exists>n i r. log_buffer_current_size lb = (n, i, r) \<and> unat n = length (lb_contents lb) \<and>
       unat n = unat i + unat r \<and>
       lb_contents lb = take (unat i) (drop (unat (lb_tail lb)) (the (p_buffer lb))) @
         take (unat r) (the (p_buffer lb)))"
proof (intro conjI)
  note i = lb_inv_nat [OF inv]
  have e: "lb_head lb = lb_tail lb \<longleftrightarrow> lb_contents lb = []"
    using ring_count_0_iff [OF i(3,4)] length_0_conv [of "lb_contents lb"]
    by (auto simp: lb_len_def word_unat_eq_iff)
  show "case lb_contents lb of
      [] \<Rightarrow> log_buffer_char_pop (Some lb) = Inr (None, Some lb) \<and> log_buffer_is_empty (Some lb)
    | c # cs \<Rightarrow> \<not> log_buffer_is_empty (Some lb) \<and>
        (\<exists>lb'. log_buffer_char_pop (Some lb) = Inr (Some c, Some lb') \<and> lb_inv lb' \<and>
           lb_contents lb' = cs)"
  proof (cases "lb_contents lb")
    case Nil
    with e i(5) show ?thesis by (simp add: log_buffer_char_pop_def log_buffer_is_empty_def)
  next
    case (Cons c cs)
    with e i(5) log_buffer_char_pop_ok [OF inv Cons] show ?thesis
      by (auto simp: log_buffer_is_empty_def)
  qed
  show "\<exists>n i r. log_buffer_current_size lb = (n, i, r) \<and> unat n = length (lb_contents lb) \<and>
       unat n = unat i + unat r \<and>
       lb_contents lb = take (unat i) (drop (unat (lb_tail lb)) (the (p_buffer lb))) @
         take (unat r) (the (p_buffer lb))"
    by (rule log_buffer_current_size_parts [OF inv])
qed

theorem log_buffer_pop_order_witness:
  "\<exists>lb'. log_buffer_char_pop (Some lb_example) = Inr (Some 0x61, Some lb') \<and>
    lb_contents lb' = [0x62, 0x63]"
  using log_buffer_pop_order [OF lb_example_ok(1)] unfolding lb_example_ok(2) by auto

end
