(* ===== verification/Ts_Log_Buffer.thy ===== *)
theory Ts_Log_Buffer
  imports Log_Buffer
begin

text \<open>
  The thread-safe log of \<open>inc/cutils/ts_log_buffer.h\<close> and \<open>src/ts_log_buffer.c\<close>: the log buffer under a
  mutex, with a callback when space runs out. Calls of the mutex and of the callback are recorded in
  order; the operations themselves run between the lock and the unlock.
\<close>

section \<open>Control block and operations\<close>

datatype ts_log_buffer_notification = LB_FULL | LB_ALMOST_FULL | LB_EMPTY

record ts_log_buffer =
  tlb_lb :: log_buffer
  tlb_fn :: addr
  tlb_private :: addr

datatype tlb_event =
    Mutex_Lock u32 | Mutex_Unlock | Mutex_Free
  | Callback addr ts_log_buffer_notification addr

definition ts_log_buffer_init ::
  "ts_log_buffer option \<Rightarrow> bool \<Rightarrow> u8 list option \<Rightarrow> u32 \<Rightarrow> bool \<times> ts_log_buffer option" where
  "ts_log_buffer_init pLb mutex_ok pBuffer sz =
     (case pLb of
        None \<Rightarrow> (False, None)
      | Some t \<Rightarrow>
          if mutex_ok
          then (case log_buffer_init (Some (tlb_lb t)) pBuffer sz of
                  (r, Some lb) \<Rightarrow> (r, Some (t\<lparr>tlb_lb := lb\<rparr>))
                | (r, None) \<Rightarrow> (r, Some t))
          else (False, Some t))"

definition ts_log_buffer_deinit :: "bool \<Rightarrow> tlb_event list" where
  "ts_log_buffer_deinit nonnull = (if nonnull then [Mutex_Free] else [])"

text \<open>The callback made for \<open>diff\<close> lines left.\<close>

definition tlb_notify :: "ts_log_buffer \<Rightarrow> int \<Rightarrow> tlb_event list" where
  "tlb_notify t diff =
     (if diff > 0 \<and> diff < 3 \<and> tlb_fn t \<noteq> NULL
      then [Callback (tlb_fn t) LB_ALMOST_FULL (tlb_private t)]
      else if diff \<le> 0 \<and> tlb_fn t \<noteq> NULL then [Callback (tlb_fn t) LB_FULL (tlb_private t)]
      else [])"

definition ts_log_buffer_push ::
  "ts_log_buffer option \<Rightarrow> u8 list option \<Rightarrow> u32 \<Rightarrow> (ts_log_buffer option \<times> tlb_event list) res" where
  "ts_log_buffer_push p_ts_log str string_size =
     (case p_ts_log of
        None \<Rightarrow> Inr (None, [])
      | Some t \<Rightarrow>
          if isInit (tlb_lb t)
          then bind_res (log_buffer_push (Some (tlb_lb t)) str string_size) (\<lambda>(ok, plb).
                 let lb = (case plb of None \<Rightarrow> tlb_lb t | Some lb \<Rightarrow> lb);
                     used_lines = log_buffer_lines_from_size (fst (log_buffer_current_size lb));
                     max_lines = log_buffer_lines_from_size (bufferSize lb) - 1;
                     diff = sint (max_lines - used_lines)
                 in Inr (Some (t\<lparr>tlb_lb := lb\<rparr>),
                         [Mutex_Lock WAIT_FOREVER, Mutex_Unlock] @ tlb_notify t diff))
          else Inr (Some t, [Mutex_Lock WAIT_FOREVER, Mutex_Unlock]))"

definition ts_log_buffer_install_notifications ::
  "ts_log_buffer option \<Rightarrow> addr \<Rightarrow> addr \<Rightarrow> ts_log_buffer option \<times> tlb_event list" where
  "ts_log_buffer_install_notifications p_ts_log fn private =
     (case p_ts_log of
        None \<Rightarrow> (None, [])
      | Some t \<Rightarrow> (Some (t\<lparr>tlb_fn := fn, tlb_private := private\<rparr>),
                   [Mutex_Lock WAIT_FOREVER, Mutex_Unlock]))"

definition ts_log_buffer_current_size ::
  "ts_log_buffer option \<Rightarrow> u32 \<times> (u32 \<times> u32) option \<times> tlb_event list" where
  "ts_log_buffer_current_size p_lb =
     (case p_lb of
        None \<Rightarrow> (0, None, [])
      | Some t \<Rightarrow> (case log_buffer_current_size (tlb_lb t) of
                     (n, i, r) \<Rightarrow> (n, Some (i, r), [Mutex_Lock WAIT_FOREVER, Mutex_Unlock])))"

section \<open>Properties\<close>

text \<open>
  (functional) A push of a string shorter than the buffer does to the log what \<open>log_buffer_push\<close> does,
  under the mutex; the callback, if any, comes after the mutex is released, so that it may call back
  into the log, and there is at most one.
\<close>

theorem ts_log_buffer_push_visible:
  assumes "lb_inv (tlb_lb t)" and "sz < bufferSize (tlb_lb t)" and "unat sz \<le> length str"
  shows "\<exists>t' ns. ts_log_buffer_push (Some t) (Some str) sz =
      Inr (Some t', [Mutex_Lock WAIT_FOREVER, Mutex_Unlock] @ ns) \<and> lb_inv (tlb_lb t') \<and>
    length ns \<le> 1 \<and> (\<forall>n \<in> set ns. \<exists>k. n = Callback (tlb_fn t) k (tlb_private t)) \<and>
    lb_contents (tlb_lb t') = lastn (unat (bufferSize (tlb_lb t)) - 1)
      (lb_contents (tlb_lb t) @ visible_from (in_escape_sequence (tlb_lb t)) (take (unat sz) str))"
proof -
  let ?lb = "tlb_lb t"
  obtain lb' where l: "log_buffer_push_loop ?lb (take (unat sz) str) = Inr lb'" "lb_inv lb'"
    "lb_contents lb' = lastn (unat (bufferSize ?lb) - 1)
      (lb_contents ?lb @ visible_from (in_escape_sequence ?lb) (take (unat sz) str))"
    using log_buffer_push_loop_ok [OF assms(1)] by blast
  have i: "isInit ?lb" using lb_inv_nat(5) [OF assms(1)] .
  have p: "log_buffer_push (Some ?lb) (Some str) sz = Inr (True, Some lb')"
    using l(1) i assms(2,3) by (simp add: log_buffer_push_def)
  have n: "length (tlb_notify t d) \<le> 1" "\<forall>n \<in> set (tlb_notify t d). \<exists>k. n = Callback (tlb_fn t) k (tlb_private t)"
    for d by (auto simp: tlb_notify_def)
  show ?thesis
    using i p l n by (auto simp: ts_log_buffer_push_def Let_def)
qed

definition tlb_example :: ts_log_buffer where
  "tlb_example = \<lparr>tlb_lb = lb_example, tlb_fn = 99, tlb_private = 7\<rparr>"

theorem ts_log_buffer_push_visible_witness:
  "\<exists>t' ns. ts_log_buffer_push (Some tlb_example) (Some [0x64]) 1 =
     Inr (Some t', [Mutex_Lock WAIT_FOREVER, Mutex_Unlock] @ ns)"
proof -
  have "lb_inv (tlb_lb tlb_example)" "1 < bufferSize (tlb_lb tlb_example)"
    using lb_example_ok(1) by (simp_all add: tlb_example_def lb_example_def)
  from ts_log_buffer_push_visible [OF this, of "[0x64]"] show ?thesis by auto
qed

text \<open>
  (error) When a push leaves the log empty (for instance a push of the empty string or of an escape
  sequence into an empty log) the number of used lines is computed as \<open>2 ^ 23\<close>, and the client is told
  that the log is full, whatever its size.
\<close>

theorem ts_log_buffer_empty_is_full:
  assumes "lb_inv (tlb_lb t)" and "lb_contents (tlb_lb t) = []" and "tlb_fn t \<noteq> NULL"
    and "0 < bufferSize (tlb_lb t)" and "bufferSize (tlb_lb t) \<le> 0x80000000"
  shows "log_buffer_lines_from_size 0 = 8388608 \<and>
    ts_log_buffer_push (Some t) (Some []) 0 = Inr (Some t,
      [Mutex_Lock WAIT_FOREVER, Mutex_Unlock, Callback (tlb_fn t) LB_FULL (tlb_private t)])"
proof -
  let ?lb = "tlb_lb t"
  have i: "isInit ?lb" using lb_inv_nat(5) [OF assms(1)] .
  have "lb_len ?lb = 0" using assms(2) length_lb_contents [of ?lb] by simp
  then have "unat (lb_tail ?lb) = unat (lb_head ?lb)"
    using ring_count_0_iff [OF lb_inv_nat(3,4) [OF assms(1)]] by (simp add: lb_len_def)
  then have "lb_tail ?lb = lb_head ?lb" by (simp add: word_unat_eq_iff)
  then have cs: "fst (log_buffer_current_size ?lb) = 0" by (simp add: log_buffer_current_size_def)
  have z: "log_buffer_lines_from_size 0 = 8388608"
    by (simp add: log_buffer_lines_from_size_def LOG_MAX_LINE_LENGTH_def)
  let ?m = "(bufferSize ?lb - 1) div 512"
  have ml: "log_buffer_lines_from_size (bufferSize ?lb) - 1 = ?m"
    by (simp add: log_buffer_lines_from_size_def LOG_MAX_LINE_LENGTH_def)
  have um: "unat ?m \<le> 4194303"
  proof -
    have "unat (bufferSize ?lb - 1) = unat (bufferSize ?lb) - 1"
      using assms(4) by (intro unat_minus_one) auto
    then have "unat (bufferSize ?lb - 1) \<le> 0x7FFFFFFF"
      using assms(5) by (simp add: word_le_nat_alt)
    then have "unat (bufferSize ?lb - 1) div 512 \<le> 0x7FFFFFFF div 512" by (rule div_le_mono)
    then show ?thesis by (simp add: unat_div)
  qed
  have "sint (?m - 8388608) \<le> 0"
  proof -
    have "int (unat ?m) \<le> 4194303" using um by linarith
    moreover have "int (unat ?m) = uint ?m" by (rule of_nat_unat)
    ultimately have u: "0 \<le> uint ?m" "uint ?m \<le> 4194303" by (simp_all only: unsigned_greater_eq)
    have "?m - 8388608 = of_int (uint ?m - 8388608)" by simp
    also have "sint \<dots> = uint ?m - 8388608"
      using u by (simp only: sint_sbintrunc') (simp add: signed_take_bit_int_eq_self)
    finally show ?thesis using u by simp
  qed
  then have "tlb_notify t (sint (?m - 8388608)) = [Callback (tlb_fn t) LB_FULL (tlb_private t)]"
    using assms(3) by (simp add: tlb_notify_def)
  then show ?thesis
    using z ml cs i assms(4) by (simp add: ts_log_buffer_push_def log_buffer_push_def Let_def)
qed

theorem ts_log_buffer_empty_is_full_witness:
  "ts_log_buffer_push (Some \<lparr>tlb_lb = \<lparr>p_buffer = Some [0, 0], isInit = True, bufferSize = 2,
       lb_head = 0, lb_tail = 0, in_escape_sequence = False\<rparr>, tlb_fn = 99, tlb_private = 7\<rparr>)
     (Some []) 0 = Inr (Some \<lparr>tlb_lb = \<lparr>p_buffer = Some [0, 0], isInit = True, bufferSize = 2,
       lb_head = 0, lb_tail = 0, in_escape_sequence = False\<rparr>, tlb_fn = 99, tlb_private = 7\<rparr>,
     [Mutex_Lock WAIT_FOREVER, Mutex_Unlock, Callback 99 LB_FULL 7])"
  using ts_log_buffer_empty_is_full [of "\<lparr>tlb_lb = \<lparr>p_buffer = Some [0, 0], isInit = True,
      bufferSize = 2, lb_head = 0, lb_tail = 0, in_escape_sequence = False\<rparr>, tlb_fn = 99,
      tlb_private = 7\<rparr>"]
  by (simp add: lb_inv_def lb_contents_def lb_len_def ring_count_def)

end
