(* ===== verification/Os.thy ===== *)
theory Os
  imports Prelude
begin

text \<open>
  The POSIX names the ports use (error codes, \<open>struct timespec\<close>, deadlines), the C11 thread layer
  \<open>inc/cutils/c11/c11threads.h\<close> that wraps \<open>pthread\<close>, and the documented behaviour of a timed lock
  that the mutex, event flag and queue theories rely on. The \<open>pthread\<close> functions are parameters: a
  wrapper takes the return code of the call it makes.
\<close>

section \<open>Time and error codes\<close>

record timespec =
  tv_sec :: int
  tv_nsec :: int

definition EPERM :: int where "EPERM = 1"
definition EINTR :: int where "EINTR = 4"
definition ENOMEM :: int where "ENOMEM = 12"
definition EBUSY :: int where "EBUSY = 16"
definition EINVAL :: int where "EINVAL = 22"
definition EDEADLK :: int where "EDEADLK = 35"
definition ETIMEDOUT :: int where "ETIMEDOUT = 110"

lemmas errno_defs = EPERM_def EINTR_def ENOMEM_def EBUSY_def EINVAL_def EDEADLK_def ETIMEDOUT_def

text \<open>
  The deadline \<open>wait_ms\<close> after \<open>now\<close> as every port computes it: seconds and nanoseconds are added
  separately and the nanoseconds are not carried.
\<close>

definition deadline :: "timespec \<Rightarrow> u32 \<Rightarrow> timespec" where
  "deadline now wait_ms =
     \<lparr>tv_sec = tv_sec now + uint (wait_ms div 1000),
      tv_nsec = tv_nsec now + uint (1000000 * (wait_ms mod 1000))\<rparr>"

definition zero_timespec :: timespec where
  "zero_timespec = \<lparr>tv_sec = 0, tv_nsec = 0\<rparr>"

definition nsec_valid :: "timespec \<Rightarrow> bool" where
  "nsec_valid t \<longleftrightarrow> 0 \<le> tv_nsec t \<and> tv_nsec t < 1000000000"

text \<open>The instant a time value stands for, in nanoseconds.\<close>

definition nanos :: "timespec \<Rightarrow> int" where
  "nanos t = 1000000000 * tv_sec t + tv_nsec t"

lemma uint_ms: "uint (1000000 * (w mod 1000)) = 1000000 * (uint w mod 1000)" for w :: u32
proof -
  have m: "uint (w mod 1000) = uint w mod 1000" by (simp add: uint_mod_distrib)
  have "uint w mod 1000 < 1000" "0 \<le> uint w mod 1000" by simp_all
  then have "1000000 * (uint w mod 1000) < 4294967296" "0 \<le> 1000000 * (uint w mod 1000)" by linarith+
  then have "(1000000 * (uint w mod 1000)) mod 4294967296 = 1000000 * (uint w mod 1000)"
    by (intro mod_pos_pos_trivial)
  then show ?thesis using m by (simp add: uint_word_ariths)
qed

lemma nanos_deadline: "nanos (deadline now w) = nanos now + 1000000 * uint w"
proof -
  have "uint (w div 1000) = uint w div 1000" by (simp add: uint_div_distrib)
  moreover have "uint (1000000 * (w mod 1000)) = 1000000 * (uint w mod 1000)" by (rule uint_ms)
  ultimately have "nanos (deadline now w) =
      nanos now + (1000000000 * (uint w div 1000) + 1000000 * (uint w mod 1000))"
    unfolding nanos_def deadline_def by simp
  also have "1000000000 * (uint w div 1000) + 1000000 * (uint w mod 1000) =
      1000000 * (1000 * (uint w div 1000) + uint w mod 1000)" by (simp only: distrib_left)
  also have "1000 * (uint w div 1000) + uint w mod 1000 = uint w"
    by (rule mult_div_mod_eq)
  finally show ?thesis .
qed

lemma deadline_nsec: "tv_nsec (deadline now w) = tv_nsec now + 1000000 * (uint w mod 1000)"
  by (simp add: deadline_def uint_ms)

section \<open>Condition variables\<close>

text \<open>
  A wait on a condition variable releases the mutex, lets other threads change the shared state and
  takes the mutex again. One wait is described by the clock reading before it and by its outcome:
  the return code and the change the other threads made, both as a function of the call. A finite
  list of them stands for the environment of one call; when it is used up the caller is still
  blocked.
\<close>

datatype wait_call = Cond_Wait | Cond_Timedwait timespec

type_synonym 's wake = "timespec \<times> (wait_call \<Rightarrow> int \<times> ('s \<Rightarrow> 's))"

section \<open>The C11 layer\<close>

definition mtx_plain :: int where "mtx_plain = 0"
definition mtx_recursive :: int where "mtx_recursive = 1"
definition mtx_timed :: int where "mtx_timed = 2"

definition thrd_success :: int where "thrd_success = 0"
definition thrd_timedout :: int where "thrd_timedout = 1"
definition thrd_busy :: int where "thrd_busy = 2"
definition thrd_error :: int where "thrd_error = 3"
definition thrd_nomem :: int where "thrd_nomem = 4"

lemmas thrd_defs = thrd_success_def thrd_timedout_def thrd_busy_def thrd_error_def thrd_nomem_def

text \<open>Calls of \<open>pthread\<close> that change an attribute object or a thread, in order.\<close>

datatype pthread_call =
    Attr_Init | Attr_Destroy | Attr_Setinheritsched bool | Attr_Setschedpolicy
  | Attr_Setschedparam int | Attr_Setstack addr nat | Pthread_Create
  | Mutexattr_Init | Mutexattr_Settype_Timed | Mutexattr_Settype_Recursive
  | Mutex_Init | Mutexattr_Destroy

definition thrd_create :: "int \<Rightarrow> int \<times> pthread_call list" where
  "thrd_create res =
     (if res = 0 then (thrd_success, [Attr_Init, Pthread_Create])
      else (if res = ENOMEM then thrd_nomem else thrd_error,
            [Attr_Init, Pthread_Create, Attr_Destroy]))"

text \<open>The return codes of the \<open>pthread\<close> calls made by \<open>thrd_create_ex\<close>.\<close>

record create_rcs =
  rc_getstacksize :: int
  min_stack_size :: nat
  rc_setinheritsched :: int
  rc_setschedpolicy :: int
  rc_setschedparam :: int
  rc_setstack :: int
  rc_create :: int

text \<open>\<open>realtime\<close>: the library is built for \<open>SCHED_FIFO\<close> or \<open>SCHED_RR\<close>.\<close>

definition sched_calls :: "bool \<Rightarrow> create_rcs \<Rightarrow> int \<Rightarrow> int \<times> pthread_call list" where
  "sched_calls realtime rcs priority =
     (if realtime
      then (if rc_setinheritsched rcs \<noteq> 0 then (rc_setinheritsched rcs, [Attr_Setinheritsched True])
            else if rc_setschedpolicy rcs \<noteq> 0
            then (rc_setschedpolicy rcs, [Attr_Setinheritsched True, Attr_Setschedpolicy])
            else (rc_setschedparam rcs,
                  [Attr_Setinheritsched True, Attr_Setschedpolicy, Attr_Setschedparam priority]))
      else (rc_setinheritsched rcs, [Attr_Setinheritsched False]))"

definition thrd_create_ex ::
  "bool \<Rightarrow> create_rcs \<Rightarrow> int \<Rightarrow> addr \<Rightarrow> nat \<Rightarrow> int \<times> pthread_call list" where
  "thrd_create_ex realtime rcs priority stack stack_size =
     (if rc_getstacksize rcs \<noteq> 0 then (rc_getstacksize rcs, [Attr_Init, Attr_Destroy])
      else (let (rval, calls) = sched_calls realtime rcs priority
            in if rval \<noteq> 0 then (rval, Attr_Init # calls @ [Attr_Destroy])
               else (let setstack = (stack \<noteq> NULL \<and> stack_size \<ge> min_stack_size rcs);
                         rval2 = (if setstack then rc_setstack rcs else rval);
                         calls2 = (if setstack then calls @ [Attr_Setstack stack stack_size] else calls)
                     in if rval2 \<noteq> 0 then (rval2, Attr_Init # calls2 @ [Attr_Destroy])
                        else (if rc_create rcs = 0 then thrd_success else thrd_error,
                              Attr_Init # calls2 @ [Pthread_Create, Attr_Destroy]))))"

text \<open>The second component is the value stored through \<open>res\<close> when the join succeeds.\<close>

definition thrd_join :: "int \<Rightarrow> int \<Rightarrow> int \<times> int option" where
  "thrd_join join_rc retval = (if join_rc \<noteq> 0 then (thrd_error, None) else (thrd_success, Some retval))"

definition thrd_detach :: "int \<Rightarrow> int" where
  "thrd_detach detach_rc = (if detach_rc = 0 then thrd_success else thrd_error)"

definition thrd_sleep :: "int \<Rightarrow> int \<Rightarrow> int" where
  "thrd_sleep nanosleep_rc errno = (if nanosleep_rc < 0 then (if errno = EINTR then - 1 else - 2) else 0)"

definition mtx_init :: "int \<Rightarrow> int \<Rightarrow> int \<times> pthread_call list" where
  "mtx_init type init_rc =
     (if init_rc = 0 then thrd_success else thrd_error,
      [Mutexattr_Init] @ (if type AND mtx_timed \<noteq> 0 then [Mutexattr_Settype_Timed] else []) @
      (if type AND mtx_recursive \<noteq> 0 then [Mutexattr_Settype_Recursive] else []) @
      [Mutex_Init, Mutexattr_Destroy])"

definition mtx_lock :: "int \<Rightarrow> int" where
  "mtx_lock res = (if res = EDEADLK then thrd_busy else if res = 0 then thrd_success else thrd_error)"

definition mtx_trylock :: "int \<Rightarrow> int" where
  "mtx_trylock res = (if res = EBUSY then thrd_busy else if res = 0 then thrd_success else thrd_error)"

definition mtx_timedlock :: "(timespec \<Rightarrow> int) \<Rightarrow> timespec \<Rightarrow> int" where
  "mtx_timedlock timedlock ts =
     (if timedlock ts = ETIMEDOUT then thrd_timedout
      else if timedlock ts = 0 then thrd_success else thrd_error)"

text \<open>
  The emulation on systems without timed mutexes: each poll is a result of \<open>pthread_mutex_trylock\<close>
  and a clock reading (seconds and microseconds); \<open>None\<close> when the polls are used up.
\<close>

fun mtx_timedlock_poll :: "timespec \<Rightarrow> (int \<times> int \<times> int) list \<Rightarrow> int option" where
  "mtx_timedlock_poll ts [] = None"
| "mtx_timedlock_poll ts ((res, sec, usec) # polls) =
     (if res = EBUSY
      then (if sec > tv_sec ts \<or> (sec = tv_sec ts \<and> usec * 1000 \<ge> tv_nsec ts)
            then Some thrd_timedout
            else mtx_timedlock_poll ts polls)
      else Some (if res = 0 then thrd_success else thrd_error))"

definition mtx_unlock :: "int \<Rightarrow> int" where
  "mtx_unlock rc = (if rc = 0 then thrd_success else thrd_error)"

definition cnd_init :: "int \<Rightarrow> int" where
  "cnd_init rc = (if rc = 0 then thrd_success else thrd_error)"

definition cnd_signal :: "int \<Rightarrow> int" where
  "cnd_signal rc = (if rc = 0 then thrd_success else thrd_error)"

definition cnd_broadcast :: "int \<Rightarrow> int" where
  "cnd_broadcast rc = (if rc = 0 then thrd_success else thrd_error)"

definition cnd_wait :: "int \<Rightarrow> int" where
  "cnd_wait rc = (if rc = 0 then thrd_success else thrd_error)"

definition cnd_timedwait :: "int \<Rightarrow> int" where
  "cnd_timedwait res =
     (if res \<noteq> 0 then (if res = ETIMEDOUT then thrd_timedout else thrd_error) else thrd_success)"

text \<open>A wake of the C11 layer is a wake of the \<open>pthread\<close> call under it with its code translated.\<close>

definition cnd_wake :: "'s wake \<Rightarrow> 's wake" where
  "cnd_wake w = (fst w, \<lambda>call.
     case snd w call of (rc, f) \<Rightarrow>
       ((case call of Cond_Wait \<Rightarrow> cnd_wait rc | Cond_Timedwait _ \<Rightarrow> cnd_timedwait rc), f))"

definition tss_create :: "int \<Rightarrow> int" where
  "tss_create rc = (if rc = 0 then thrd_success else thrd_error)"

definition tss_set :: "int \<Rightarrow> int" where
  "tss_set rc = (if rc = 0 then thrd_success else thrd_error)"

section \<open>What POSIX promises of a timed lock\<close>

text \<open>
  \<open>timedlock now free_at abs\<close> is the code returned when the call is made at \<open>now\<close> with the absolute
  timeout \<open>abs\<close> on a mutex that becomes available at \<open>free_at\<close> (\<open>None\<close>: never). POSIX promises success
  when the mutex is available at once, \<open>EINVAL\<close> when the caller would block and the nanoseconds are
  out of range, and otherwise success or \<open>ETIMEDOUT\<close> according to which comes first.
\<close>

type_synonym timedlock_fun = "timespec \<Rightarrow> timespec option \<Rightarrow> timespec \<Rightarrow> int"

definition available_by :: "timespec option \<Rightarrow> timespec \<Rightarrow> bool" where
  "available_by free_at t = (case free_at of None \<Rightarrow> False | Some f \<Rightarrow> nanos f \<le> nanos t)"

definition posix_timedlock :: "timedlock_fun \<Rightarrow> bool" where
  "posix_timedlock timedlock \<longleftrightarrow>
     (\<forall>now free_at t.
        (available_by free_at now \<longrightarrow> timedlock now free_at t = 0) \<and>
        (\<not> available_by free_at now \<and> \<not> nsec_valid t \<longrightarrow> timedlock now free_at t = EINVAL) \<and>
        (\<not> available_by free_at now \<and> nsec_valid t \<longrightarrow>
           timedlock now free_at t = (if available_by free_at t then 0 else ETIMEDOUT)))"

text \<open>A timed lock that does what POSIX promises.\<close>

definition reference_timedlock :: timedlock_fun where
  "reference_timedlock now free_at t =
     (if available_by free_at now then 0
      else if \<not> nsec_valid t then EINVAL
      else if available_by free_at t then 0 else ETIMEDOUT)"

lemma reference_timedlock_posix: "posix_timedlock reference_timedlock"
  by (simp add: posix_timedlock_def reference_timedlock_def)

lemma posix_timedlock_available:
  "posix_timedlock lk \<Longrightarrow> available_by f now \<Longrightarrow> lk now f t = 0"
  by (simp add: posix_timedlock_def)

lemma posix_timedlock_invalid:
  "posix_timedlock lk \<Longrightarrow> \<not> available_by f now \<Longrightarrow> \<not> nsec_valid t \<Longrightarrow> lk now f t = EINVAL"
  by (simp add: posix_timedlock_def)

lemma posix_timedlock_blocked:
  "posix_timedlock lk \<Longrightarrow> \<not> available_by f now \<Longrightarrow> nsec_valid t \<Longrightarrow>
    lk now f t = (if available_by f t then 0 else ETIMEDOUT)"
  by (simp add: posix_timedlock_def)

section \<open>Properties\<close>

text \<open>
  C36: (termination) The polling emulation of a timed lock returns as soon as a poll finds the mutex
  available or the clock at the deadline: it reports success only when a poll took the mutex, and a
  timeout only when the deadline had passed.
\<close>

theorem mtx_timedlock_poll_returns:
  assumes "\<exists>(res, sec, usec) \<in> set polls. res \<noteq> EBUSY \<or>
      1000000000 * sec + 1000 * usec \<ge> nanos ts"
    and "\<forall>(res, sec, usec) \<in> set polls. 0 \<le> usec \<and> usec < 1000000" and "nsec_valid ts"
  shows "\<exists>r. mtx_timedlock_poll ts polls = Some r \<and>
    (r = thrd_success \<longrightarrow> (\<exists>sec usec. (0, sec, usec) \<in> set polls)) \<and>
    (r = thrd_timedout \<longrightarrow>
       (\<exists>sec usec. (EBUSY, sec, usec) \<in> set polls \<and> nanos ts \<le> 1000000000 * sec + 1000 * usec))"
  using assms(1,2)
proof (induction polls)
  case (Cons p polls)
  obtain res sec usec where p: "p = (res, sec, usec)" by (cases p)
  have u: "0 \<le> usec" "usec < 1000000" using Cons.prems(2) p by auto
  have late: "(sec > tv_sec ts \<or> (sec = tv_sec ts \<and> usec * 1000 \<ge> tv_nsec ts)) \<longleftrightarrow>
      nanos ts \<le> 1000000000 * sec + 1000 * usec"
    using u assms(3) by (auto simp: nanos_def nsec_valid_def)
  show ?case
  proof (cases "res \<noteq> EBUSY \<or> nanos ts \<le> 1000000000 * sec + 1000 * usec")
    case True
    then show ?thesis using p late by (auto simp: thrd_defs)
  next
    case False
    then have "mtx_timedlock_poll ts (p # polls) = mtx_timedlock_poll ts polls"
      using p late by auto
    moreover have "\<exists>(res, sec, usec) \<in> set polls. res \<noteq> EBUSY \<or>
        1000000000 * sec + 1000 * usec \<ge> nanos ts"
      using Cons.prems(1) p False by auto
    ultimately show ?thesis using Cons.IH Cons.prems(2) by auto
  qed
qed simp

theorem mtx_timedlock_poll_returns_witness:
  "\<exists>r. mtx_timedlock_poll \<lparr>tv_sec = 5, tv_nsec = 0\<rparr> [(EBUSY, 4, 999), (EBUSY, 5, 0)] = Some r"
  using mtx_timedlock_poll_returns
    [of "[(EBUSY, 4, 999), (EBUSY, 5, 0)]" "\<lparr>tv_sec = 5, tv_nsec = 0\<rparr>"]
  by (auto simp: nanos_def nsec_valid_def)

text \<open>
  (safety) \<open>thrd_create_ex\<close> destroys the attribute object it initialised exactly once on every path,
  creates a thread only when every earlier call succeeded, and returns success exactly when the
  thread was created; \<open>thrd_create\<close>, in contrast, leaves the attribute object of a created thread
  alive.
\<close>

theorem thrd_create_ex_cleanup:
  "(let (r, calls) = thrd_create_ex realtime rcs priority stack stack_size
    in hd calls = Attr_Init \<and> last calls = Attr_Destroy \<and> count_list calls Attr_Destroy = 1 \<and>
       count_list calls Attr_Init = 1 \<and>
       (r = thrd_success \<longleftrightarrow> Pthread_Create \<in> set calls \<and> rc_create rcs = 0)) \<and>
   (fst (thrd_create 0) = thrd_success \<and> Attr_Destroy \<notin> set (snd (thrd_create 0)))"
  by (auto simp: thrd_create_ex_def sched_calls_def thrd_create_def Let_def thrd_defs)

end
