(* ===== verification/Mutex.thy ===== *)
theory Mutex
  imports Os
begin

text \<open>
  The three ports of the mutex: \<open>inc/cutils/pthread/mutex.h\<close>, \<open>inc/cutils/c11/mutex.h\<close> and
  \<open>inc/cutils/freertos/mutex.h\<close>. A \<open>mutex_t*\<close> argument is a flag that tells whether it is null; the
  \<open>pthread\<close> and FreeRTOS functions are parameters.
\<close>

section \<open>pthread port\<close>

definition pt_mutex_new :: "int \<Rightarrow> bool \<times> pthread_call list" where
  "pt_mutex_new init_rc =
     (init_rc = 0, [Mutexattr_Init, Mutexattr_Settype_Timed, Mutex_Init, Mutexattr_Destroy])"

text \<open>Whether \<open>pthread_mutex_destroy\<close> is called.\<close>

definition pt_mutex_free :: "bool \<Rightarrow> bool" where
  "pt_mutex_free nonnull = nonnull"

definition pt_mutex_lock :: "bool \<Rightarrow> u32 \<Rightarrow> int \<Rightarrow> timespec \<Rightarrow> (timespec \<Rightarrow> int) \<Rightarrow> bool" where
  "pt_mutex_lock nonnull wait_ms trylock_rc now timedlock =
     (if nonnull
      then (if wait_ms = 0 then trylock_rc = 0 else timedlock (deadline now wait_ms) = 0)
      else False)"

definition pt_mutex_unlock :: "bool \<Rightarrow> int \<Rightarrow> bool" where
  "pt_mutex_unlock nonnull unlock_rc = (if nonnull then unlock_rc = 0 else False)"

section \<open>C11 port\<close>

definition c11_mutex_new :: "bool \<Rightarrow> int \<Rightarrow> bool" where
  "c11_mutex_new nonnull init_rc = (nonnull \<and> fst (mtx_init mtx_timed init_rc) = 0)"

definition c11_mutex_free :: "bool \<Rightarrow> bool" where
  "c11_mutex_free nonnull = nonnull"

definition c11_mutex_lock :: "bool \<Rightarrow> u32 \<Rightarrow> int \<Rightarrow> timespec \<Rightarrow> (timespec \<Rightarrow> int) \<Rightarrow> bool" where
  "c11_mutex_lock nonnull wait_ms trylock_rc now timedlock =
     (if nonnull
      then (if wait_ms = 0 then mtx_trylock trylock_rc = 0
            else mtx_timedlock timedlock (deadline now wait_ms) = 0)
      else False)"

definition c11_mutex_unlock :: "bool \<Rightarrow> int \<Rightarrow> bool" where
  "c11_mutex_unlock nonnull unlock_rc = (if nonnull then mtx_unlock unlock_rc = 0 else False)"

section \<open>FreeRTOS port\<close>

text \<open>
  The object holds the kernel's handle, \<open>NULL\<close> before \<open>mutex_new\<close> and after \<open>mutex_free\<close>. The kernel
  calls are parameters: the handle a creation returns, the result of a take for a number of ticks,
  the result of a give. \<open>ms_to_ticks\<close> and \<open>max_delay\<close> are the kernel's \<open>pdMS_TO_TICKS\<close> and
  \<open>portMAX_DELAY\<close>.
\<close>

record fr_mutex =
  fr_handle :: addr

definition fr_mutex_new :: "fr_mutex option \<Rightarrow> addr \<Rightarrow> bool \<times> fr_mutex option" where
  "fr_mutex_new mutex created =
     (case mutex of
        None \<Rightarrow> (False, None)
      | Some m \<Rightarrow> (created \<noteq> NULL, Some (m\<lparr>fr_handle := created\<rparr>)))"

text \<open>The second component is the handle that is deleted, if any.\<close>

definition fr_mutex_free :: "fr_mutex option \<Rightarrow> fr_mutex option \<times> addr option" where
  "fr_mutex_free mutex =
     (case mutex of
        None \<Rightarrow> (None, None)
      | Some m \<Rightarrow> if fr_handle m \<noteq> NULL then (Some (m\<lparr>fr_handle := NULL\<rparr>), Some (fr_handle m))
                  else (Some m, None))"

definition wait_ticks :: "(u32 \<Rightarrow> u32) \<Rightarrow> u32 \<Rightarrow> u32 \<Rightarrow> u32" where
  "wait_ticks ms_to_ticks max_delay wait_ms =
     (if wait_ms = WAIT_FOREVER then max_delay else ms_to_ticks wait_ms)"

definition fr_mutex_lock ::
  "(u32 \<Rightarrow> u32) \<Rightarrow> u32 \<Rightarrow> (addr \<Rightarrow> u32 \<Rightarrow> bool) \<Rightarrow> fr_mutex option \<Rightarrow> u32 \<Rightarrow> bool" where
  "fr_mutex_lock ms_to_ticks max_delay take_sem mutex wait_ms =
     (case mutex of
        None \<Rightarrow> False
      | Some m \<Rightarrow> if fr_handle m \<noteq> NULL
                  then take_sem (fr_handle m) (wait_ticks ms_to_ticks max_delay wait_ms) else False)"

definition fr_mutex_unlock :: "(addr \<Rightarrow> bool) \<Rightarrow> fr_mutex option \<Rightarrow> bool" where
  "fr_mutex_unlock give mutex =
     (case mutex of
        None \<Rightarrow> False
      | Some m \<Rightarrow> if fr_handle m \<noteq> NULL then give (fr_handle m) else False)"

section \<open>Waiting forever\<close>

text \<open>
  \<open>WAIT_FOREVER\<close> is a timeout like any other, of 4294967295 milliseconds. On a held mutex that is released
  within that time the lock is taken exactly if the nanoseconds of the clock leave room for its 295 milliseconds.
\<close>

lemma mutex_lock_forever:
  assumes "posix_timedlock lk" and "nsec_valid now" and "\<not> available_by (Some f) now"
    and "nanos f \<le> nanos now + 1000000 * uint WAIT_FOREVER"
  shows "pt_mutex_lock True WAIT_FOREVER rc now (lk now (Some f)) \<longleftrightarrow> tv_nsec now < 705000000"
proof -
  have v: "nsec_valid (deadline now WAIT_FOREVER) \<longleftrightarrow> tv_nsec now < 705000000"
    using assms(2) by (simp add: nsec_valid_def deadline_nsec WAIT_FOREVER_numeral)
  have "available_by (Some f) (deadline now WAIT_FOREVER)"
    using assms(4) by (simp add: available_by_def nanos_deadline)
  then have "lk now (Some f) (deadline now WAIT_FOREVER) = 0 \<longleftrightarrow> tv_nsec now < 705000000"
    using posix_timedlock_blocked [OF assms(1,3)] posix_timedlock_invalid [OF assms(1,3)] v
    by (cases "tv_nsec now < 705000000") (simp_all add: errno_defs)
  then show ?thesis by (simp add: pt_mutex_lock_def WAIT_FOREVER_numeral)
qed

section \<open>Properties\<close>

text \<open>
  (equivalence) The C11 port locks and unlocks exactly when the pthread port does, for every result
  of the underlying calls.
\<close>

theorem c11_mutex_agrees:
  "c11_mutex_lock nonnull wait_ms trylock_rc now timedlock =
     pt_mutex_lock nonnull wait_ms trylock_rc now timedlock \<and>
   c11_mutex_unlock nonnull unlock_rc = pt_mutex_unlock nonnull unlock_rc \<and>
   c11_mutex_new True init_rc = fst (pt_mutex_new init_rc)"
  by (simp add: c11_mutex_lock_def pt_mutex_lock_def c11_mutex_unlock_def pt_mutex_unlock_def
      c11_mutex_new_def pt_mutex_new_def mtx_trylock_def mtx_timedlock_def mtx_unlock_def mtx_init_def
      thrd_defs errno_defs)

text \<open>
  (functional) On a POSIX system a timed \<open>mutex_lock\<close> succeeds exactly when the mutex becomes
  available within \<open>wait_ms\<close> milliseconds, provided the nanoseconds of the clock plus the
  millisecond part of the timeout stay below one second.
\<close>

theorem mutex_lock_timed:
  assumes "posix_timedlock lk" and "wait_ms \<noteq> 0" and "nsec_valid now"
    and "tv_nsec now + 1000000 * (uint wait_ms mod 1000) < 1000000000"
  shows "pt_mutex_lock True wait_ms trylock_rc now (lk now free_at) \<longleftrightarrow>
    (\<exists>f. free_at = Some f \<and> nanos f \<le> nanos now + 1000000 * uint wait_ms)"
proof -
  have v: "nsec_valid (deadline now wait_ms)"
    using assms(3,4) by (auto simp: nsec_valid_def deadline_nsec)
  have by_deadline: "available_by free_at (deadline now wait_ms) \<longleftrightarrow>
      (\<exists>f. free_at = Some f \<and> nanos f \<le> nanos now + 1000000 * uint wait_ms)"
    by (cases free_at) (simp_all add: available_by_def nanos_deadline)
  have "available_by free_at (deadline now wait_ms)" if "available_by free_at now"
    using that by (cases free_at) (auto simp: available_by_def nanos_deadline intro: add_increasing2)
  then have "lk now free_at (deadline now wait_ms) = 0 \<longleftrightarrow>
      available_by free_at (deadline now wait_ms)"
    using posix_timedlock_available [OF assms(1)] posix_timedlock_blocked [OF assms(1) _ v]
    by (cases "available_by free_at now") (auto simp: errno_defs)
  with assms(2) by_deadline show ?thesis by (simp add: pt_mutex_lock_def)
qed

theorem mutex_lock_timed_witness:
  "pt_mutex_lock True 500 16 \<lparr>tv_sec = 10, tv_nsec = 0\<rparr>
     (reference_timedlock \<lparr>tv_sec = 10, tv_nsec = 0\<rparr> (Some \<lparr>tv_sec = 10, tv_nsec = 400000000\<rparr>))"
  using mutex_lock_timed [OF reference_timedlock_posix, of 500 "\<lparr>tv_sec = 10, tv_nsec = 0\<rparr>" 16
      "Some \<lparr>tv_sec = 10, tv_nsec = 400000000\<rparr>"]
  by (simp add: nsec_valid_def nanos_def)

text \<open>
  (error) The nanoseconds are not carried into the seconds: when the two parts add up to a second
  or more and the mutex is held at the time of the call, \<open>mutex_lock\<close> fails at once, however soon the
  mutex would be released. \<open>WAIT_FOREVER\<close> is no exception: its millisecond part is 295, so that
  callers that wait forever and ignore the result go on without the lock.
\<close>

theorem mutex_lock_carry:
  assumes "posix_timedlock lk" and "wait_ms \<noteq> 0" and "\<not> available_by free_at now"
    and "1000000000 \<le> tv_nsec now + 1000000 * (uint wait_ms mod 1000)"
  shows "\<not> pt_mutex_lock True wait_ms trylock_rc now (lk now free_at) \<and>
    uint WAIT_FOREVER mod 1000 = 295"
proof -
  have "\<not> nsec_valid (deadline now wait_ms)"
    using assms(4) by (simp add: nsec_valid_def deadline_nsec)
  then show ?thesis
    using posix_timedlock_invalid [OF assms(1,3)] assms(2)
    by (simp add: pt_mutex_lock_def errno_defs WAIT_FOREVER_numeral)
qed

theorem mutex_lock_carry_witness:
  "\<not> pt_mutex_lock True WAIT_FOREVER 16 \<lparr>tv_sec = 10, tv_nsec = 705000000\<rparr>
     (reference_timedlock \<lparr>tv_sec = 10, tv_nsec = 705000000\<rparr>
        (Some \<lparr>tv_sec = 10, tv_nsec = 705000001\<rparr>))"
  using mutex_lock_carry [OF reference_timedlock_posix, of WAIT_FOREVER
      "Some \<lparr>tv_sec = 10, tv_nsec = 705000001\<rparr>" "\<lparr>tv_sec = 10, tv_nsec = 705000000\<rparr>" 16]
  by (simp add: nanos_def available_by_def WAIT_FOREVER_numeral)

text \<open>
  (safety) FreeRTOS port: no kernel call is made on a mutex that was not created or was freed:
  after \<open>mutex_free\<close> the handle is null, a second free deletes nothing, and lock and unlock return
  false whatever the kernel would answer.
\<close>

theorem fr_mutex_freed_is_dead:
  "\<exists>m'. fst (fr_mutex_free (Some m)) = Some m' \<and> fr_mutex_free (Some m') = (Some m', None) \<and>
     \<not> fr_mutex_lock ms_to_ticks max_delay take_sem (Some m') wait_ms \<and>
     \<not> fr_mutex_unlock give (Some m') \<and>
     (fr_handle m \<noteq> NULL \<longleftrightarrow> snd (fr_mutex_free (Some m)) = Some (fr_handle m))"
  by (cases "fr_handle m = NULL")
     (auto simp: fr_mutex_free_def fr_mutex_lock_def fr_mutex_unlock_def)

end
