(* ===== verification/Event_Flag.thy ===== *)
theory Event_Flag
  imports Mutex
begin

text \<open>
  The event flags of \<open>inc/cutils/pthread/event_flag.h\<close>, \<open>inc/cutils/c11/event_flag.h\<close> and
  \<open>inc/cutils/freertos/event_flag.h\<close>, and the signals of \<open>inc/cutils/signal.h\<close> built on them.
\<close>

datatype event_flag_wait_type = WAIT_OR | WAIT_OR_CLEAR | WAIT_AND | WAIT_AND_CLEAR

section \<open>pthread and C11 ports\<close>

text \<open>The shared state is the word of flags; the mutex and condition variable are the environment.\<close>

record event_flag =
  ef_val :: u32

definition pt_event_flag_new :: "event_flag option \<Rightarrow> int \<Rightarrow> int \<Rightarrow> bool \<times> event_flag option" where
  "pt_event_flag_new p_flags mutex_init_rc cond_init_rc =
     (case p_flags of
        None \<Rightarrow> (False, None)
      | Some f \<Rightarrow> if mutex_init_rc = 0 \<and> cond_init_rc = 0 then (True, Some (f\<lparr>ef_val := 0\<rparr>))
                  else (False, Some f))"

definition pt_event_flag_free :: "bool \<Rightarrow> int \<Rightarrow> int \<Rightarrow> bool" where
  "pt_event_flag_free nonnull cond_destroy_rc mutex_destroy_rc =
     (nonnull \<and> cond_destroy_rc = 0 \<and> mutex_destroy_rc = 0)"

definition c11_event_flag_new :: "event_flag option \<Rightarrow> int \<Rightarrow> int \<Rightarrow> bool \<times> event_flag option" where
  "c11_event_flag_new p_flags mutex_init_rc cond_init_rc =
     (case p_flags of
        None \<Rightarrow> (False, None)
      | Some f \<Rightarrow> if fst (mtx_init mtx_timed mutex_init_rc) = 0 \<and> cnd_init cond_init_rc = 0
                  then (True, Some (f\<lparr>ef_val := 0\<rparr>)) else (False, Some f))"

definition c11_event_flag_free :: "bool \<Rightarrow> bool" where
  "c11_event_flag_free nonnull = nonnull"

text \<open>The flags found, when the condition holds, and the flags that remain.\<close>

definition check_flags :: "event_flag \<Rightarrow> u32 \<Rightarrow> event_flag_wait_type \<Rightarrow> u32 option \<times> event_flag" where
  "check_flags f required_flags wait_type =
     (let act_flags = ef_val f AND required_flags;
          ok = (if wait_type = WAIT_OR \<or> wait_type = WAIT_OR_CLEAR then act_flags \<noteq> 0
                else act_flags = required_flags)
      in (if ok then Some act_flags else None,
          if ok \<and> (wait_type = WAIT_AND_CLEAR \<or> wait_type = WAIT_OR_CLEAR)
          then f\<lparr>ef_val := ef_val f AND NOT act_flags\<rparr> else f))"

text \<open>
  The loop of \<open>event_flag_wait\<close>, common to both ports up to the codes that count as errors
  (\<open>fatal\<close>). The result is \<open>None\<close> when the caller is still blocked; otherwise the return value, the
  flags stored through \<open>p_actual_flags\<close> and the object.
\<close>

type_synonym wait_result = "bool \<times> u32 option \<times> event_flag"

fun flag_wait_loop :: "(int \<Rightarrow> bool) \<Rightarrow> u32 \<Rightarrow> event_flag_wait_type \<Rightarrow> u32
    \<Rightarrow> event_flag wake list \<Rightarrow> event_flag \<Rightarrow> wait_result option" where
  "flag_wait_loop fatal required_flags wait_type wait_ms wakes f =
     (case check_flags f required_flags wait_type of
        (Some act, f') \<Rightarrow> Some (True, Some act, f')
      | (None, f') \<Rightarrow>
          (case wakes of
             [] \<Rightarrow> None
           | (now, outcome) # ws \<Rightarrow>
               (let call = (if wait_ms \<noteq> WAIT_FOREVER then Cond_Timedwait (deadline now wait_ms)
                            else Cond_Wait);
                    (rval, upd) = outcome call
                in if rval \<noteq> 0
                   then (if fatal rval then Some (False, None, upd f') else Some (True, None, upd f'))
                   else flag_wait_loop fatal required_flags wait_type wait_ms ws (upd f'))))"

declare flag_wait_loop.simps [simp del]

definition pt_fatal :: "int \<Rightarrow> bool" where
  "pt_fatal rval \<longleftrightarrow> \<not> (rval \<noteq> ETIMEDOUT \<and> rval \<noteq> EINVAL \<and> rval \<noteq> EPERM)"

definition c11_fatal :: "int \<Rightarrow> bool" where
  "c11_fatal rval \<longleftrightarrow> \<not> (rval \<noteq> thrd_timedout \<and> rval \<noteq> thrd_error)"

text \<open>The time passed to the lock: not set for \<open>WAIT_FOREVER\<close>.\<close>

definition flag_lock_time :: "timespec \<Rightarrow> u32 \<Rightarrow> timespec" where
  "flag_lock_time now wait_ms =
     (if wait_ms \<noteq> WAIT_FOREVER then deadline now wait_ms else zero_timespec)"

definition pt_event_flag_wait ::
  "event_flag option \<Rightarrow> u32 \<Rightarrow> event_flag_wait_type \<Rightarrow> u32 \<Rightarrow> int \<Rightarrow> timespec \<Rightarrow> (timespec \<Rightarrow> int)
    \<Rightarrow> event_flag wake list \<Rightarrow> (bool \<times> u32 option \<times> event_flag option) option" where
  "pt_event_flag_wait p_flags required_flags wait_type wait_ms trylock_rc now timedlock wakes =
     (case p_flags of
        None \<Rightarrow> Some (False, None, None)
      | Some f \<Rightarrow>
          (let rval = (if wait_ms = NO_SLEEP then trylock_rc
                       else timedlock (flag_lock_time now wait_ms))
           in if rval \<noteq> 0 then Some (False, None, Some f)
              else map_option (\<lambda>(r, act, f'). (r, act, Some f'))
                     (flag_wait_loop pt_fatal required_flags wait_type wait_ms wakes f)))"

definition c11_event_flag_wait ::
  "event_flag option \<Rightarrow> u32 \<Rightarrow> event_flag_wait_type \<Rightarrow> u32 \<Rightarrow> int \<Rightarrow> timespec \<Rightarrow> (timespec \<Rightarrow> int)
    \<Rightarrow> event_flag wake list \<Rightarrow> (bool \<times> u32 option \<times> event_flag option) option" where
  "c11_event_flag_wait p_flags required_flags wait_type wait_ms trylock_rc now timedlock wakes =
     (case p_flags of
        None \<Rightarrow> Some (False, None, None)
      | Some f \<Rightarrow>
          (let rval = (if wait_ms = NO_SLEEP then mtx_trylock trylock_rc
                       else mtx_timedlock timedlock (flag_lock_time now wait_ms))
           in if rval \<noteq> 0 then Some (False, None, Some f)
              else map_option (\<lambda>(r, act, f'). (r, act, Some f'))
                     (flag_wait_loop c11_fatal required_flags wait_type wait_ms
                        (map cnd_wake wakes) f)))"

text \<open>The last component tells whether the condition variable is broadcast.\<close>

definition event_flag_send :: "event_flag option \<Rightarrow> u32 \<Rightarrow> bool \<times> event_flag option \<times> bool" where
  "event_flag_send p_flags flag_bits =
     (case p_flags of
        None \<Rightarrow> (False, None, False)
      | Some f \<Rightarrow> (True, Some (f\<lparr>ef_val := ef_val f OR flag_bits\<rparr>), True))"

definition event_flag_clear :: "event_flag option \<Rightarrow> u32 \<Rightarrow> bool \<times> event_flag option" where
  "event_flag_clear p_flags flag_bits =
     (case p_flags of
        None \<Rightarrow> (False, None)
      | Some f \<Rightarrow> (True, Some (f\<lparr>ef_val := ef_val f AND NOT flag_bits\<rparr>)))"

section \<open>FreeRTOS port\<close>

record fr_event_flag =
  efr_handle :: addr

definition EVENT_FLAG_VALID_BITS :: u32 where
  "EVENT_FLAG_VALID_BITS = 0x00FFFFFF"

definition fr_event_flag_new :: "fr_event_flag option \<Rightarrow> addr \<Rightarrow> bool \<times> fr_event_flag option" where
  "fr_event_flag_new flags created =
     (case flags of
        None \<Rightarrow> (False, None)
      | Some f \<Rightarrow> (created \<noteq> NULL, Some (f\<lparr>efr_handle := created\<rparr>)))"

definition fr_event_flag_free :: "fr_event_flag option \<Rightarrow> bool \<times> fr_event_flag option" where
  "fr_event_flag_free flags =
     (case flags of
        None \<Rightarrow> (False, None)
      | Some f \<Rightarrow> if efr_handle f \<noteq> NULL then (True, Some (f\<lparr>efr_handle := NULL\<rparr>))
                  else (False, Some f))"

text \<open>
  \<open>wait_bits handle bits clear all ticks\<close> is the kernel's \<open>xEventGroupWaitBits\<close>. The result is the
  return value and the flags stored through \<open>actual_flags\<close>.
\<close>

definition fr_event_flag_wait ::
  "(u32 \<Rightarrow> u32) \<Rightarrow> u32 \<Rightarrow> (addr \<Rightarrow> u32 \<Rightarrow> bool \<Rightarrow> bool \<Rightarrow> u32 \<Rightarrow> u32) \<Rightarrow> fr_event_flag option
    \<Rightarrow> u32 \<Rightarrow> event_flag_wait_type \<Rightarrow> u32 \<Rightarrow> bool \<times> u32 option" where
  "fr_event_flag_wait ms_to_ticks max_delay wait_bits flags required_flags wait_type wait_ms =
     (case flags of
        None \<Rightarrow> (False, None)
      | Some f \<Rightarrow>
          if efr_handle f \<noteq> NULL
          then (let (xClearOnExit, xWaitForAllBits) =
                      (case wait_type of
                         WAIT_OR \<Rightarrow> (False, False)
                       | WAIT_OR_CLEAR \<Rightarrow> (True, False)
                       | WAIT_AND \<Rightarrow> (False, True)
                       | WAIT_AND_CLEAR \<Rightarrow> (True, True));
                    got = wait_bits (efr_handle f) (required_flags AND EVENT_FLAG_VALID_BITS)
                            xClearOnExit xWaitForAllBits (wait_ticks ms_to_ticks max_delay wait_ms)
                in (if xWaitForAllBits then got AND required_flags = required_flags
                    else got AND required_flags \<noteq> 0, Some got))
          else (False, None))"

text \<open>The bits handed to \<open>xEventGroupSetBits\<close> and \<open>xEventGroupClearBits\<close>.\<close>

definition fr_event_flag_send :: "fr_event_flag option \<Rightarrow> u32 \<Rightarrow> bool \<times> u32 option" where
  "fr_event_flag_send flags flag_bits =
     (case flags of
        None \<Rightarrow> (False, None)
      | Some f \<Rightarrow> if efr_handle f \<noteq> NULL then (True, Some (flag_bits AND EVENT_FLAG_VALID_BITS))
                  else (False, None))"

definition fr_event_flag_clear :: "fr_event_flag option \<Rightarrow> u32 \<Rightarrow> bool \<times> u32 option" where
  "fr_event_flag_clear flags flag_bits =
     (case flags of
        None \<Rightarrow> (False, None)
      | Some f \<Rightarrow> if efr_handle f \<noteq> NULL then (True, Some (flag_bits AND EVENT_FLAG_VALID_BITS))
                  else (False, None))"

section \<open>Signals\<close>

definition signal_new :: "event_flag option \<Rightarrow> int \<Rightarrow> int \<Rightarrow> bool \<times> event_flag option" where
  "signal_new = pt_event_flag_new"

definition signal_free :: "bool \<Rightarrow> int \<Rightarrow> int \<Rightarrow> bool" where
  "signal_free = pt_event_flag_free"

definition signal_wait_timed ::
  "event_flag option \<Rightarrow> u32 \<Rightarrow> int \<Rightarrow> timespec \<Rightarrow> (timespec \<Rightarrow> int) \<Rightarrow> event_flag wake list
    \<Rightarrow> (bool \<times> u32 option \<times> event_flag option) option" where
  "signal_wait_timed p_signal timeout = pt_event_flag_wait p_signal 1 WAIT_OR_CLEAR timeout"

definition signal_wait ::
  "event_flag option \<Rightarrow> int \<Rightarrow> timespec \<Rightarrow> (timespec \<Rightarrow> int) \<Rightarrow> event_flag wake list
    \<Rightarrow> (bool \<times> u32 option \<times> event_flag option) option" where
  "signal_wait p_signal = pt_event_flag_wait p_signal 1 WAIT_OR_CLEAR WAIT_FOREVER"

definition signal_send :: "event_flag option \<Rightarrow> bool \<times> event_flag option \<times> bool" where
  "signal_send p_signal = event_flag_send p_signal 1"

section \<open>The wait loop\<close>

text \<open>What a wait type asks of the flags, and what it leaves of them.\<close>

definition flags_met :: "u32 \<Rightarrow> u32 \<Rightarrow> event_flag_wait_type \<Rightarrow> bool" where
  "flags_met v req t \<longleftrightarrow>
     (case t of WAIT_OR \<Rightarrow> v AND req \<noteq> 0 | WAIT_OR_CLEAR \<Rightarrow> v AND req \<noteq> 0
      | WAIT_AND \<Rightarrow> v AND req = req | WAIT_AND_CLEAR \<Rightarrow> v AND req = req)"

definition flags_left :: "u32 \<Rightarrow> u32 \<Rightarrow> event_flag_wait_type \<Rightarrow> u32" where
  "flags_left v req t =
     (if t = WAIT_OR_CLEAR \<or> t = WAIT_AND_CLEAR then v AND NOT (v AND req) else v)"

lemma check_flags_eq:
  "check_flags f req t =
     (if flags_met (ef_val f) req t
      then (Some (ef_val f AND req), f\<lparr>ef_val := flags_left (ef_val f) req t\<rparr>) else (None, f))"
  by (cases t) (auto simp: check_flags_def flags_met_def flags_left_def Let_def)

lemma flag_wait_loop_met:
  "flags_met (ef_val f) req t \<Longrightarrow>
   flag_wait_loop fatal req t ms ws f =
     Some (True, Some (ef_val f AND req), f\<lparr>ef_val := flags_left (ef_val f) req t\<rparr>)"
  by (simp add: flag_wait_loop.simps check_flags_eq)

text \<open>The call made in a turn of the loop.\<close>

definition loop_call :: "u32 \<Rightarrow> timespec \<Rightarrow> wait_call" where
  "loop_call ms now = (if ms \<noteq> WAIT_FOREVER then Cond_Timedwait (deadline now ms) else Cond_Wait)"

lemma flag_wait_loop_blocked:
  assumes "\<not> flags_met (ef_val f) req t"
  shows "flag_wait_loop fatal req t ms [] f = None"
    and "flag_wait_loop fatal req t ms ((now, outcome) # ws) f =
      (case outcome (loop_call ms now) of (rval, upd) \<Rightarrow>
         if rval \<noteq> 0 then Some (\<not> fatal rval, None, upd f)
         else flag_wait_loop fatal req t ms ws (upd f))"
  using assms
  by (simp_all add: flag_wait_loop.simps [of fatal req t ms "[]"]
      flag_wait_loop.simps [of fatal req t ms "(now, outcome) # ws"] check_flags_eq loop_call_def
      split: prod.splits)

text \<open>All codes the environment returns are zero or errors.\<close>

definition codes_ok :: "(int \<Rightarrow> bool) \<Rightarrow> u32 \<Rightarrow> 's wake list \<Rightarrow> bool" where
  "codes_ok fatal ms ws \<longleftrightarrow>
     list_all (\<lambda>(now, outcome). let rval = fst (outcome (loop_call ms now)) in rval = 0 \<or> fatal rval) ws"

lemma flag_wait_loop_true:
  assumes "flag_wait_loop fatal req t ms ws f = Some (True, act, f')" and "codes_ok fatal ms ws"
  shows "\<exists>v. flags_met v req t \<and> act = Some (v AND req) \<and> ef_val f' = flags_left v req t"
  using assms
proof (induction ws arbitrary: f)
  case Nil
  then show ?case
    using flag_wait_loop_met [of f req t] flag_wait_loop_blocked(1) [of f req t]
    by (cases "flags_met (ef_val f) req t") auto
next
  case (Cons w ws)
  obtain now outcome where w: "w = (now, outcome)" by (cases w)
  obtain rval upd where o: "outcome (loop_call ms now) = (rval, upd)"
    by (cases "outcome (loop_call ms now)")
  show ?case
  proof (cases "flags_met (ef_val f) req t")
    case True
    with flag_wait_loop_met [OF True] Cons.prems(1) show ?thesis by auto
  next
    case False
    have "rval = 0 \<or> fatal rval" using Cons.prems(2) w o by (simp add: codes_ok_def)
    with False Cons.prems w o have "flag_wait_loop fatal req t ms ws (upd f) = Some (True, act, f')"
      by (auto simp: flag_wait_loop_blocked split: if_splits)
    moreover have "codes_ok fatal ms ws" using Cons.prems(2) by (simp add: codes_ok_def)
    ultimately show ?thesis by (rule Cons.IH)
  qed
qed

lemma c11_codes_ok: "codes_ok c11_fatal ms (map cnd_wake ws)"
proof (induction ws)
  case (Cons w ws)
  then show ?case
    by (cases w)
       (auto simp: codes_ok_def cnd_wake_def cnd_wait_def cnd_timedwait_def c11_fatal_def thrd_defs
          loop_call_def Let_def split: prod.splits)
qed (simp add: codes_ok_def)

lemma flags_left_other: "flags_left v req t AND NOT req = v AND NOT req"
  by (rule bit_eqI) (auto simp: flags_left_def bit_simps)

text \<open>The object after all the changes of the other threads.\<close>

fun run_wakes :: "u32 \<Rightarrow> 's wake list \<Rightarrow> 's \<Rightarrow> 's" where
  "run_wakes ms [] s = s"
| "run_wakes ms ((now, outcome) # ws) s = run_wakes ms ws (snd (outcome (loop_call ms now)) s)"

definition all_woken :: "u32 \<Rightarrow> 's wake list \<Rightarrow> bool" where
  "all_woken ms ws \<longleftrightarrow> list_all (\<lambda>(now, outcome). fst (outcome (loop_call ms now)) = 0) ws"

lemma flag_wait_loop_progress:
  assumes "all_woken ms ws" and "flags_met (ef_val (run_wakes ms ws f)) req t"
  shows "\<exists>act f'. flag_wait_loop fatal req t ms ws f = Some (True, Some act, f')"
  using assms
proof (induction ws arbitrary: f)
  case Nil
  then show ?case by (simp add: flag_wait_loop_met)
next
  case (Cons w ws)
  obtain now outcome where w: "w = (now, outcome)" by (cases w)
  show ?case
  proof (cases "flags_met (ef_val f) req t")
    case True
    then show ?thesis by (simp add: flag_wait_loop_met)
  next
    case False
    have "all_woken ms ws" "fst (outcome (loop_call ms now)) = 0"
      using Cons.prems(1) w by (simp_all add: all_woken_def)
    with Cons.IH [of "snd (outcome (loop_call ms now)) f"] Cons.prems(2) w False show ?thesis
      by (simp add: flag_wait_loop_blocked split_beta)
  qed
qed

section \<open>Properties\<close>


text \<open>A wake after which another thread has sent flags.\<close>

definition send_wake :: "u32 \<Rightarrow> event_flag wake" where
  "send_wake bits = (zero_timespec, \<lambda>call. (0, \<lambda>f. f\<lparr>ef_val := ef_val f OR bits\<rparr>))"




text \<open>
  (error) The pthread port returns true without the flags when the condition variable reports an
  error other than the three it tests for: the loop is left and the call ends as if it had
  succeeded.
\<close>

theorem event_flag_wait_spurious_true:
  assumes "\<not> flags_met (ef_val f) req t" and "timedlock (flag_lock_time now0 ms) = 0"
    and "ms \<noteq> NO_SLEEP" and "outcome (loop_call ms now) = (rval, upd)"
    and "rval \<noteq> 0" and "rval \<notin> {ETIMEDOUT, EINVAL, EPERM}"
  shows "pt_event_flag_wait (Some f) req t ms trylock_rc now0 timedlock ((now, outcome) # ws) =
    Some (True, None, Some (upd f))"
  using assms by (simp add: pt_event_flag_wait_def flag_wait_loop_blocked pt_fatal_def)

theorem event_flag_wait_spurious_true_witness:
  "pt_event_flag_wait (Some \<lparr>ef_val = 0\<rparr>) 1 WAIT_OR 50 16 zero_timespec (\<lambda>_. 0)
     [(zero_timespec, \<lambda>_. (131, id))] = Some (True, None, Some (id \<lparr>ef_val = 0\<rparr>))"
  by (rule event_flag_wait_spurious_true [where rval = 131 and upd = id])
     (simp_all add: flags_met_def NO_SLEEP_def errno_defs)

text \<open>
  (error) \<open>signal_wait\<close> does not wait when another thread holds the object's mutex at the time of the
  call: \<open>WAIT_FOREVER\<close> leaves the absolute timeout of the lock at the start of the epoch, so that
  the lock times out at once and the call returns false.
\<close>

theorem signal_wait_contended:
  assumes "posix_timedlock lk" and "\<not> available_by free_at now" and "0 \<le> nanos now"
  shows "signal_wait (Some f) trylock_rc now (lk now free_at) ws = Some (False, None, Some f)"
proof -
  have "\<not> available_by free_at zero_timespec"
    using assms(2,3)
    by (cases free_at) (auto simp: available_by_def zero_timespec_def nanos_def)
  then have "lk now free_at zero_timespec = ETIMEDOUT"
    using posix_timedlock_blocked [OF assms(1,2), of zero_timespec]
    by (simp add: nsec_valid_def zero_timespec_def)
  then show ?thesis
    by (simp add: signal_wait_def pt_event_flag_wait_def flag_lock_time_def errno_defs
        WAIT_FOREVER_numeral NO_SLEEP_def)
qed

theorem signal_wait_contended_witness:
  "signal_wait (Some \<lparr>ef_val = 1\<rparr>) 16 \<lparr>tv_sec = 7, tv_nsec = 0\<rparr>
     (reference_timedlock \<lparr>tv_sec = 7, tv_nsec = 0\<rparr> (Some \<lparr>tv_sec = 7, tv_nsec = 1\<rparr>)) [] =
   Some (False, None, Some \<lparr>ef_val = 1\<rparr>)"
  by (rule signal_wait_contended [OF reference_timedlock_posix])
     (simp_all add: available_by_def nanos_def)

text \<open>
  (bounds) FreeRTOS port: the kernel is asked only for the low 24 flags, but the result is compared
  with all requested ones. A wait for all of a set that contains one of the upper eight flags
  returns false whatever happens, and a send of upper flags is dropped while true is returned.
\<close>

theorem fr_event_flag_high_bits:
  assumes "\<forall>h b c a n. wait_bits h b c a n AND NOT EVENT_FLAG_VALID_BITS = 0"
    and "req AND NOT EVENT_FLAG_VALID_BITS \<noteq> 0" and "t = WAIT_AND \<or> t = WAIT_AND_CLEAR"
    and "efr_handle f \<noteq> NULL"
  shows "\<not> fst (fr_event_flag_wait ms_to_ticks max_delay wait_bits (Some f) req t ms) \<and>
    fr_event_flag_send (Some f) (req AND NOT EVENT_FLAG_VALID_BITS) = (True, Some 0)"
proof
  have no: "got AND req \<noteq> req" if "got AND NOT EVENT_FLAG_VALID_BITS = 0" for got
  proof
    assume "got AND req = req"
    then have "req AND NOT EVENT_FLAG_VALID_BITS =
        (got AND NOT EVENT_FLAG_VALID_BITS) AND req"
      by (metis and.assoc and.commute)
    with that assms(2) show False by simp
  qed
  show "\<not> fst (fr_event_flag_wait ms_to_ticks max_delay wait_bits (Some f) req t ms)"
    using assms(1,3,4) no by (auto simp: fr_event_flag_wait_def Let_def)
  show "fr_event_flag_send (Some f) (req AND NOT EVENT_FLAG_VALID_BITS) = (True, Some 0)"
    using assms(4) by (simp add: fr_event_flag_send_def and.assoc)
qed

theorem fr_event_flag_high_bits_witness:
  "\<not> fst (fr_event_flag_wait id 9 (\<lambda>h b c a n. EVENT_FLAG_VALID_BITS) (Some \<lparr>efr_handle = 7\<rparr>)
       0x01000001 WAIT_AND 3)"
  using fr_event_flag_high_bits [where wait_bits = "\<lambda>h b c a n. EVENT_FLAG_VALID_BITS"
      and req = "0x01000001" and t = WAIT_AND and f = "\<lparr>efr_handle = 7\<rparr>"
      and ms_to_ticks = id and max_delay = 9 and ms = 3]
  by (simp add: EVENT_FLAG_VALID_BITS_def)

end
