(* ===== verification/Ts_Queue.thy ===== *)
theory Ts_Queue
  imports Mutex Fifo
begin

text \<open>
  The thread-safe queue of pointers: \<open>inc/cutils/pthread/ts_queue.h\<close>, \<open>inc/cutils/c11/ts_queue.h\<close> and
  \<open>inc/cutils/freertos/ts_queue.h\<close>. The first two are a ring of a power-of-two size with counters that
  only grow, a mutex and two condition variables; the third wraps a kernel queue. A call runs under
  the queue's mutex except while it waits, so that its effect is a function of the state at entry
  and of what other threads do during its waits.
\<close>

section \<open>Control block, creation and destruction\<close>

record ts_queue =
  pp_ptr_array :: "addr list"
  q_size :: u64
  q_count :: u64
  q_head :: u64
  q_tail :: u64

record ts_queue_create_params =
  tp_queue :: "ts_queue option"
  tp_ptr_array :: "addr list option"
  tp_size :: u64

definition power_of_2 :: "u64 \<Rightarrow> bool" where
  "power_of_2 n \<longleftrightarrow> n > 0 \<and> n AND (n - 1) = 0"

text \<open>
  The queue object after the call and whether it is returned; the mutex and condition variables are
  created with the given results. \<open>freed\<close> tells whether the mutex was freed again.
\<close>

definition ts_queue_init ::
  "ts_queue_create_params option \<Rightarrow> bool \<Rightarrow> int \<Rightarrow> int \<Rightarrow> ts_queue option \<times> bool \<times> bool" where
  "ts_queue_init params mutex_ok cond_rc full_cond_rc =
     (case params of
        None \<Rightarrow> (None, False, False)
      | Some p \<Rightarrow>
          (case (tp_queue p, tp_ptr_array p) of
             (Some q, Some arr) \<Rightarrow>
               (let q1 = q\<lparr>pp_ptr_array := arr, q_size := tp_size p\<rparr>
                in if \<not> power_of_2 (q_size q1) then (Some q1, False, False)
                   else if \<not> mutex_ok then (Some q1, False, False)
                   else if \<not> (cond_rc = 0 \<and> full_cond_rc = 0) then (Some q1, False, True)
                   else (Some (q1\<lparr>q_count := 0, q_tail := 0, q_head := 0\<rparr>), True, False))
           | (oq, _) \<Rightarrow> (oq, False, False)))"

datatype ts_resource = Cnd | Full_Cnd | Mtx

text \<open>The objects destroyed.\<close>

definition ts_queue_destroy :: "bool \<Rightarrow> ts_resource list" where
  "ts_queue_destroy nonnull = (if nonnull then [Cnd, Mtx] else [])"

section \<open>Insertion and removal\<close>

text \<open>One wait: the code it returns and what the other threads did meanwhile.\<close>

type_synonym outcome = "wait_call \<Rightarrow> int \<times> (ts_queue \<Rightarrow> ts_queue)"

definition ts_deadline :: "timespec \<Rightarrow> u32 \<Rightarrow> timespec" where
  "ts_deadline now wait_ms =
     (if wait_ms \<noteq> WAIT_FOREVER
      then \<lparr>tv_sec = tv_sec now + uint (wait_ms div 1000),
            tv_nsec = tv_nsec now + (uint wait_ms mod 1000) * 1000000\<rparr>
      else now)"

definition ts_wait_call :: "timespec \<Rightarrow> u32 \<Rightarrow> wait_call" where
  "ts_wait_call now wait_ms =
     (if wait_ms = WAIT_FOREVER then Cond_Wait else Cond_Timedwait (ts_deadline now wait_ms))"

definition ts_full :: "ts_queue \<Rightarrow> bool" where
  "ts_full q \<longleftrightarrow> q_tail q + q_size q \<le> q_head q"

definition ts_empty :: "ts_queue \<Rightarrow> bool" where
  "ts_empty q \<longleftrightarrow> q_tail q \<ge> q_head q"

text \<open>
  The wait loop: \<open>timedout\<close> is the port's timeout code. \<open>None\<close>: the outcomes are used up and the
  caller still waits.
\<close>

fun ts_wait :: "int \<Rightarrow> (ts_queue \<Rightarrow> bool) \<Rightarrow> wait_call \<Rightarrow> outcome list \<Rightarrow> int \<Rightarrow> ts_queue
    \<Rightarrow> (int \<times> ts_queue) option" where
  "ts_wait timedout blocked call [] rval q =
     (if blocked q \<and> rval \<noteq> timedout then None else Some (rval, q))"
| "ts_wait timedout blocked call (w # ws) rval q =
     (if blocked q \<and> rval \<noteq> timedout
      then (case w call of (rval', upd) \<Rightarrow> ts_wait timedout blocked call ws rval' (upd q))
      else Some (rval, q))"

text \<open>The critical sections after the waits. The list names the condition variable signalled.\<close>

definition ts_put :: "addr \<Rightarrow> ts_queue \<Rightarrow> (ts_queue \<times> ts_resource list) res" where
  "ts_put p_item q =
     (let i = unat (q_head q AND (q_size q - 1))
      in if i < length (pp_ptr_array q)
         then Inr (q\<lparr>q_head := q_head q + 1, pp_ptr_array := (pp_ptr_array q)[i := p_item],
                     q_count := q_count q + 1\<rparr>, [Cnd])
         else Inl Out_Of_Bounds)"

definition ts_take :: "ts_queue \<Rightarrow> (addr \<times> ts_queue \<times> ts_resource list) res" where
  "ts_take q =
     (let i = unat (q_tail q AND (q_size q - 1))
      in if i < length (pp_ptr_array q)
         then Inr (pp_ptr_array q ! i, q\<lparr>q_tail := q_tail q + 1, q_count := q_count q - 1\<rparr>, [Full_Cnd])
         else Inl Out_Of_Bounds)"

type_synonym enq_result = "(bool \<times> ts_queue option \<times> ts_resource list) res option"

definition ts_enqueue_with :: "int \<Rightarrow> ts_queue option \<Rightarrow> addr \<Rightarrow> u32 \<Rightarrow> timespec \<Rightarrow> outcome list \<Rightarrow> enq_result" where
  "ts_enqueue_with timedout p_queue p_item wait_ms now ws =
     (case p_queue of
        None \<Rightarrow> Some (Inr (False, None, []))
      | Some q \<Rightarrow>
          if p_item = NULL then Some (Inr (False, Some q, []))
          else map_option
                 (\<lambda>(rval, q1).
                    if rval \<noteq> timedout
                    then bind_res (ts_put p_item q1) (\<lambda>(q2, sg). Inr (True, Some q2, sg))
                    else Inr (False, Some q1, []))
                 (ts_wait timedout ts_full (ts_wait_call now wait_ms) ws 0 q))"

type_synonym deq_result = "(addr option \<times> ts_queue option \<times> ts_resource list) res option"

text \<open>The item stored through \<open>pp_item\<close> when the call returns true, \<open>None\<close> otherwise.\<close>

definition ts_dequeue_with ::
  "int \<Rightarrow> ts_queue option \<Rightarrow> bool \<Rightarrow> u32 \<Rightarrow> timespec \<Rightarrow> outcome list \<Rightarrow> deq_result" where
  "ts_dequeue_with timedout p_queue pp_item wait_ms now ws =
     (case p_queue of
        None \<Rightarrow> Some (Inr (None, None, []))
      | Some q \<Rightarrow>
          if \<not> pp_item then Some (Inr (None, Some q, []))
          else map_option
                 (\<lambda>(rval, q1).
                    if rval = 0
                    then bind_res (ts_take q1) (\<lambda>(x, q2, sg). Inr (Some x, Some q2, sg))
                    else Inr (None, Some q1, []))
                 (ts_wait timedout ts_empty (ts_wait_call now wait_ms) ws 0 q))"

definition pt_ts_queue_enqueue ::
  "ts_queue option \<Rightarrow> addr \<Rightarrow> u32 \<Rightarrow> timespec \<Rightarrow> outcome list \<Rightarrow> enq_result" where
  "pt_ts_queue_enqueue = ts_enqueue_with ETIMEDOUT"

definition pt_ts_queue_dequeue ::
  "ts_queue option \<Rightarrow> bool \<Rightarrow> u32 \<Rightarrow> timespec \<Rightarrow> outcome list \<Rightarrow> deq_result" where
  "pt_ts_queue_dequeue = ts_dequeue_with ETIMEDOUT"

text \<open>The C11 port waits through \<open>cnd_wait\<close> and \<open>cnd_timedwait\<close>, which translate the codes.\<close>

definition cnd_outcome :: "outcome \<Rightarrow> outcome" where
  "cnd_outcome w = (\<lambda>call.
     case w call of (rc, f) \<Rightarrow>
       ((case call of Cond_Wait \<Rightarrow> cnd_wait rc | Cond_Timedwait _ \<Rightarrow> cnd_timedwait rc), f))"

definition c11_ts_queue_enqueue ::
  "ts_queue option \<Rightarrow> addr \<Rightarrow> u32 \<Rightarrow> timespec \<Rightarrow> outcome list \<Rightarrow> enq_result" where
  "c11_ts_queue_enqueue p_queue p_item wait_ms now ws =
     ts_enqueue_with thrd_timedout p_queue p_item wait_ms now (map cnd_outcome ws)"

definition c11_ts_queue_dequeue ::
  "ts_queue option \<Rightarrow> bool \<Rightarrow> u32 \<Rightarrow> timespec \<Rightarrow> outcome list \<Rightarrow> deq_result" where
  "c11_ts_queue_dequeue p_queue pp_item wait_ms now ws =
     ts_dequeue_with thrd_timedout p_queue pp_item wait_ms now (map cnd_outcome ws)"

definition ts_queue_get_count :: "ts_queue \<Rightarrow> u64" where
  "ts_queue_get_count q = q_count q"

section \<open>FreeRTOS port\<close>

text \<open>The kernel calls are parameters over a kernel state.\<close>

record fr_ts_queue =
  fq_handle :: addr

definition fr_ts_queue_init ::
  "(fr_ts_queue option \<times> u64) option \<Rightarrow> addr \<Rightarrow> fr_ts_queue option res" where
  "fr_ts_queue_init params created =
     (case params of
        None \<Rightarrow> Inr None
      | Some (queue, sz) \<Rightarrow>
          if sz = 0 \<or> sz AND (sz - 1) \<noteq> 0 then Inr None
          else (case queue of
                  None \<Rightarrow> Inl Null_Deref
                | Some q \<Rightarrow> Inr (Some (q\<lparr>fq_handle := created\<rparr>))))"

definition fr_ts_queue_destroy :: "fr_ts_queue option \<Rightarrow> fr_ts_queue option \<times> addr option" where
  "fr_ts_queue_destroy queue =
     (case queue of
        None \<Rightarrow> (None, None)
      | Some q \<Rightarrow> if fq_handle q \<noteq> NULL then (Some (q\<lparr>fq_handle := NULL\<rparr>), Some (fq_handle q))
                  else (Some q, None))"

definition fr_ts_queue_enqueue ::
  "(u32 \<Rightarrow> u32) \<Rightarrow> u32 \<Rightarrow> (addr \<Rightarrow> addr \<Rightarrow> u32 \<Rightarrow> 'k \<Rightarrow> bool \<times> 'k)
    \<Rightarrow> fr_ts_queue option \<Rightarrow> addr \<Rightarrow> u32 \<Rightarrow> 'k \<Rightarrow> bool \<times> 'k" where
  "fr_ts_queue_enqueue ms_to_ticks max_delay send queue item wait_ms k =
     (case queue of
        None \<Rightarrow> (False, k)
      | Some q \<Rightarrow> if fq_handle q \<noteq> NULL
                  then send (fq_handle q) item (wait_ticks ms_to_ticks max_delay wait_ms) k
                  else (False, k))"

definition fr_ts_queue_dequeue ::
  "(u32 \<Rightarrow> u32) \<Rightarrow> u32 \<Rightarrow> (addr \<Rightarrow> u32 \<Rightarrow> 'k \<Rightarrow> addr option \<times> 'k)
    \<Rightarrow> fr_ts_queue option \<Rightarrow> u32 \<Rightarrow> 'k \<Rightarrow> addr option \<times> 'k" where
  "fr_ts_queue_dequeue ms_to_ticks max_delay receive queue wait_ms k =
     (case queue of
        None \<Rightarrow> (None, k)
      | Some q \<Rightarrow> if fq_handle q \<noteq> NULL
                  then receive (fq_handle q) (wait_ticks ms_to_ticks max_delay wait_ms) k
                  else (None, k))"

text \<open>
  The calls from an interrupt: the kernel also reports whether a higher-priority task was woken, and
  the caller's flag (\<open>None\<close>: a null pointer) is raised then.
\<close>

definition raise_flag :: "bool option \<Rightarrow> bool \<Rightarrow> bool option" where
  "raise_flag higher_priority_task_woken woken =
     (case higher_priority_task_woken of
        None \<Rightarrow> None
      | Some b \<Rightarrow> if woken then Some True else Some b)"

definition fr_ts_queue_enqueue_from_isr ::
  "(addr \<Rightarrow> addr \<Rightarrow> 'k \<Rightarrow> bool \<times> bool \<times> 'k) \<Rightarrow> fr_ts_queue option \<Rightarrow> addr \<Rightarrow> bool option \<Rightarrow> 'k
    \<Rightarrow> bool \<times> bool option \<times> 'k" where
  "fr_ts_queue_enqueue_from_isr send_isr queue item higher_priority_task_woken k =
     (case queue of
        None \<Rightarrow> (False, higher_priority_task_woken, k)
      | Some q \<Rightarrow>
          if fq_handle q \<noteq> NULL
          then (case send_isr (fq_handle q) item k of (res, woken, k') \<Rightarrow>
                  (res, raise_flag higher_priority_task_woken woken, k'))
          else (False, higher_priority_task_woken, k))"

definition fr_ts_queue_dequeue_from_isr ::
  "(addr \<Rightarrow> 'k \<Rightarrow> addr option \<times> bool \<times> 'k) \<Rightarrow> fr_ts_queue option \<Rightarrow> bool option \<Rightarrow> 'k
    \<Rightarrow> addr option \<times> bool option \<times> 'k" where
  "fr_ts_queue_dequeue_from_isr receive_isr queue higher_priority_task_woken k =
     (case queue of
        None \<Rightarrow> (None, higher_priority_task_woken, k)
      | Some q \<Rightarrow>
          if fq_handle q \<noteq> NULL
          then (case receive_isr (fq_handle q) k of (item, woken, k') \<Rightarrow>
                  (item, raise_flag higher_priority_task_woken woken, k'))
          else (None, higher_priority_task_woken, k))"

definition fr_ts_queue_get_count :: "(addr \<Rightarrow> 'k \<Rightarrow> nat) \<Rightarrow> fr_ts_queue option \<Rightarrow> 'k \<Rightarrow> nat" where
  "fr_ts_queue_get_count waiting queue k =
     (case queue of
        None \<Rightarrow> 0
      | Some q \<Rightarrow> if fq_handle q \<noteq> NULL then waiting (fq_handle q) k else 0)"

section \<open>Invariant and contents\<close>

definition ts_len :: "ts_queue \<Rightarrow> nat" where
  "ts_len q = unat (q_head q) - unat (q_tail q)"

definition ts_contents :: "ts_queue \<Rightarrow> addr list" where
  "ts_contents q = ring_slice (pp_ptr_array q) (unat (q_tail q)) (ts_len q)"

text \<open>
  The array has the announced power-of-two size, the counters have not wrapped, the queue holds at
  most as many items as fit, and \<open>count\<close> is their number.
\<close>

definition ts_inv :: "ts_queue \<Rightarrow> bool" where
  "ts_inv q \<longleftrightarrow>
     length (pp_ptr_array q) = unat (q_size q) \<and> power_of_2 (q_size q) \<and>
     q_tail q \<le> q_head q \<and> ts_len q \<le> unat (q_size q) \<and>
     unat (q_head q) + unat (q_size q) < 2 ^ 64 \<and> unat (q_count q) = ts_len q"

text \<open>Room for one more step of the head counter.\<close>

definition ts_fits :: "ts_queue \<Rightarrow> bool" where
  "ts_fits q \<longleftrightarrow> unat (q_head q) + 1 + unat (q_size q) < 2 ^ 64"

lemma power_of_2_mask:
  assumes "power_of_2 n"
  obtains k where "k < 64" "n = 2 ^ k" "unat n = 2 ^ k"
proof -
  have pos: "0 < unat n" and nz: "n \<noteq> 0" using assms by (auto simp: power_of_2_def word_less_nat_alt)
  have a: "unat n AND (unat n - 1) = 0"
  proof -
    have "unat (n AND (n - 1)) = unat n AND unat (n - 1)" by (simp add: unsigned_and_eq)
    then show ?thesis using assms pos nz by (simp add: power_of_2_def unat_minus_one)
  qed
  have "\<exists>k. m = 2 ^ k" if "0 < m" "m AND (m - 1) = 0" for m :: nat
    using that
  proof (induction m rule: less_induct)
    case (less m)
    show ?case
    proof (cases "even m")
      case True
      then obtain h where h: "m = 2 * h" by blast
      have "m - 1 = 2 * (h - 1) + 1" using less.prems(1) h by auto
      then have "(m - 1) div 2 = h - 1" by simp
      moreover have "m AND (m - 1) = 2 * (m div 2 AND (m - 1) div 2)"
        by (subst and_nat_rec) (simp add: True)
      ultimately have "m AND (m - 1) = 2 * (h AND (h - 1))" using h by simp
      then have "\<exists>k. h = 2 ^ k" using less h by auto
      then obtain k where "h = 2 ^ k" ..
      then have "m = 2 ^ Suc k" using h by simp
      then show ?thesis ..
    next
      case False
      then obtain h where h: "m = 2 * h + 1" using oddE by blast
      then have "m AND (m - 1) = 2 * h" by (subst and_nat_rec) simp
      with less.prems(2) h have "m = 2 ^ 0" by simp
      then show ?thesis ..
    qed
  qed
  from this [OF pos a] obtain k where k: "unat n = 2 ^ k" ..
  have "unat n < 2 ^ 64" using unsigned_less [of n] by simp
  then have "2 ^ k < (2 :: nat) ^ 64" using k by simp
  then have "k < 64" by (rule power_less_imp_less_exp [rotated]) simp
  moreover have "n = 2 ^ k"
  proof -
    have "n = of_nat (unat n)" by (simp add: ucast_id)
    also have "\<dots> = of_nat (2 ^ k)" by (simp only: k)
    finally show ?thesis by simp
  qed
  ultimately show ?thesis using k by (intro that)
qed

lemma unat_ring_index:
  assumes "power_of_2 n"
  shows "unat (x AND (n - 1)) = unat x mod unat n"
proof -
  obtain k where k: "k < 64" "n = 2 ^ k" "unat n = 2 ^ k" using assms by (rule power_of_2_mask)
  have "x AND (n - 1) = take_bit k x" using k(2) by (simp add: take_bit_eq_mask mask_eq_decr_exp)
  then have "unat (x AND (n - 1)) = take_bit k (unat x)" by (simp add: unsigned_take_bit_eq)
  then show ?thesis using k(3) by (simp add: take_bit_eq_mod)
qed

lemma ts_inv_nat:
  assumes "ts_inv q"
  shows "length (pp_ptr_array q) = unat (q_size q)" "power_of_2 (q_size q)" "0 < unat (q_size q)"
    "unat (q_tail q) \<le> unat (q_head q)" "ts_len q \<le> unat (q_size q)"
    "unat (q_head q) + unat (q_size q) < 2 ^ 64" "unat (q_head q) = unat (q_tail q) + ts_len q"
    "unat (q_count q) = ts_len q"
  using assms
  by (auto simp: ts_inv_def ts_len_def power_of_2_def word_le_nat_alt word_less_nat_alt)

lemma length_ts_contents [simp]: "length (ts_contents q) = ts_len q"
  by (simp add: ts_contents_def)

lemma ts_full_iff:
  assumes "ts_inv q"
  shows "ts_full q \<longleftrightarrow> ts_len q = unat (q_size q)"
proof -
  note n = ts_inv_nat [OF assms]
  have "unat (q_tail q + q_size q) = unat (q_tail q) + unat (q_size q)"
    using n(4,6) by (intro unat_add_fits) simp
  then show ?thesis using n(5,7) by (auto simp: ts_full_def word_le_nat_alt)
qed

lemma ts_empty_iff: "ts_inv q \<Longrightarrow> ts_empty q \<longleftrightarrow> ts_len q = 0"
  using ts_inv_nat(7) [of q] by (auto simp: ts_empty_def word_le_nat_alt)

lemma ts_put_ok:
  assumes inv: "ts_inv q" and fits: "ts_fits q" and room: "ts_len q < unat (q_size q)"
  obtains q' where "ts_put x q = Inr (q', [Cnd])" "ts_inv q'" "q_size q' = q_size q"
    "ts_contents q' = ts_contents q @ [x]" "q_tail q' = q_tail q"
proof -
  note n = ts_inv_nat [OF inv]
  let ?arr = "pp_ptr_array q" and ?L = "unat (q_size q)"
  let ?i = "unat (q_head q) mod ?L"
  let ?q = "q\<lparr>q_head := q_head q + 1, pp_ptr_array := ?arr[?i := x], q_count := q_count q + 1\<rparr>"
  have i: "unat (q_head q AND (q_size q - 1)) = ?i" by (rule unat_ring_index [OF n(2)])
  have put: "ts_put x q = Inr (?q, [Cnd])" using n i by (simp add: ts_put_def Let_def)
  have h: "unat (q_head q + 1) = Suc (unat (q_head q))"
    using fits by (subst unat_add_fits) (simp_all add: ts_fits_def)
  have c: "unat (q_count q + 1) = Suc (ts_len q)"
    using n room fits by (subst unat_add_fits) (simp_all add: ts_fits_def)
  have len: "ts_len ?q = Suc (ts_len q)" using h n(4) by (simp add: ts_len_def)
  have inv': "ts_inv ?q"
    using inv h c len room fits n(4) by (simp add: ts_inv_def ts_fits_def word_le_nat_alt)
  have "?arr[?i := x] = ring_write ?arr ?i [x]"
    using n(1,3) by (intro ring_write_one [symmetric]) simp
  also have "\<dots> = ring_write ?arr (unat (q_tail q) + ts_len q) [x]"
    using n(1,7) ring_write_mod [of ?arr] by simp
  finally have "ts_contents ?q = ts_contents q @ [x]"
    using ring_slice_write [of "ts_len q" "[x]" ?arr "unat (q_tail q)"] len room n(1)
    by (simp add: ts_contents_def)
  with put inv' show ?thesis by (intro that [of ?q]) simp_all
qed

lemma ts_take_ok:
  assumes inv: "ts_inv q" and ne: "ts_contents q = x # xs"
  obtains q' where "ts_take q = Inr (x, q', [Full_Cnd])" "ts_inv q'" "q_size q' = q_size q"
    "ts_contents q' = xs" "q_head q' = q_head q"
proof -
  note n = ts_inv_nat [OF inv]
  let ?L = "unat (q_size q)"
  let ?q = "q\<lparr>q_tail := q_tail q + 1, q_count := q_count q - 1\<rparr>"
  have len: "ts_len q = Suc (length xs)" using ne by (metis length_Cons length_ts_contents)
  have i: "unat (q_tail q AND (q_size q - 1)) = unat (q_tail q) mod ?L"
    by (rule unat_ring_index [OF n(2)])
  have x: "x = pp_ptr_array q ! (unat (q_tail q) mod ?L)"
    using ne len n(1) by (simp add: ts_contents_def ring_slice_Cons)
  have take: "ts_take q = Inr (x, ?q, [Full_Cnd])" using n i x by (simp add: ts_take_def Let_def)
  have t: "unat (q_tail q + 1) = Suc (unat (q_tail q))"
    using n(6,7) len by (subst unat_add_fits) simp_all
  have c: "unat (q_count q - 1) = length xs"
    using n(8) len by (subst unat_diff_fits) simp_all
  have l': "ts_len ?q = length xs" using t len by (simp add: ts_len_def)
  have "ts_inv ?q" using inv t c l' n(5,7) len by (simp add: ts_inv_def word_le_nat_alt)
  moreover have "ts_contents ?q = xs"
    using ne len l' t by (simp add: ts_contents_def ring_slice_Cons)
  ultimately show ?thesis using take by (intro that [of ?q]) simp_all
qed

section \<open>The wait loop\<close>

text \<open>What other threads may do during a wait: anything that keeps the invariant.\<close>

definition interference :: "wait_call \<Rightarrow> outcome list \<Rightarrow> bool" where
  "interference call ws \<longleftrightarrow>
     (\<forall>w \<in> set ws. \<forall>q. ts_inv q \<and> ts_fits q \<longrightarrow>
        ts_inv (snd (w call) q) \<and> ts_fits (snd (w call) q) \<and> q_size (snd (w call) q) = q_size q)"

lemma ts_wait_result:
  assumes "ts_wait timedout blocked call ws rval q = Some (r, q')"
    and "interference call ws" and "ts_inv q" and "ts_fits q"
  shows "ts_inv q' \<and> ts_fits q' \<and> q_size q' = q_size q \<and> (r = timedout \<or> \<not> blocked q')"
  using assms
proof (induction ws arbitrary: rval q)
  case Nil
  then show ?case by (auto split: if_splits)
next
  case (Cons w ws)
  obtain r1 upd where w: "w call = (r1, upd)" by (cases "w call")
  show ?case
  proof (cases "blocked q \<and> rval \<noteq> timedout")
    case True
    have i: "ts_inv (upd q)" "ts_fits (upd q)" "q_size (upd q) = q_size q"
      using Cons.prems(2-4) w by (auto simp: interference_def)
    have "ts_wait timedout blocked call ws r1 (upd q) = Some (r, q')"
      using Cons.prems(1) True w by simp
    moreover have "interference call ws" using Cons.prems(2) by (simp add: interference_def)
    ultimately show ?thesis using Cons.IH i by auto
  next
    case False
    then have "ts_wait timedout blocked call (w # ws) rval q = Some (rval, q)" by auto
    with Cons.prems False show ?thesis by auto
  qed
qed

lemma ts_wait_not_blocked:
  "\<not> blocked q \<Longrightarrow> ts_wait timedout blocked call ws rval q = Some (rval, q)"
  by (cases ws) auto

text \<open>The outcome of a timed wait that nobody ends.\<close>

definition times_out :: outcome where
  "times_out = (\<lambda>_. (ETIMEDOUT, id))"

section \<open>A first-in first-out queue\<close>

text \<open>The operations without waiting, as the \<open>fifo_queue\<close> interface sees them.\<close>

definition ts_enq :: "addr \<Rightarrow> ts_queue \<Rightarrow> ts_queue option" where
  "ts_enq x q =
     (if ts_fits q
      then (case pt_ts_queue_enqueue (Some q) x NO_SLEEP zero_timespec [times_out] of
              Some (Inr (True, Some q', _)) \<Rightarrow> Some q'
            | _ \<Rightarrow> None)
      else None)"

definition ts_deq :: "ts_queue \<Rightarrow> (addr \<times> ts_queue) option" where
  "ts_deq q =
     (case pt_ts_queue_dequeue (Some q) True NO_SLEEP zero_timespec [times_out] of
        Some (Inr (Some x, Some q', _)) \<Rightarrow> Some (x, q')
      | _ \<Rightarrow> None)"

definition ts_holds :: "ts_queue \<Rightarrow> addr list \<Rightarrow> bool" where
  "ts_holds q xs \<longleftrightarrow> ts_inv q \<and> ts_contents q = xs"

definition ts_room :: "addr \<Rightarrow> ts_queue \<Rightarrow> bool" where
  "ts_room x q \<longleftrightarrow> x \<noteq> NULL \<and> ts_len q < unat (q_size q) \<and> ts_fits q"

lemma pt_enqueue_room:
  assumes "ts_inv q" and "ts_room x q"
  obtains q' where "pt_ts_queue_enqueue (Some q) x ms now ws = Some (Inr (True, Some q', [Cnd]))"
    "ts_inv q'" "ts_contents q' = ts_contents q @ [x]" "q_size q' = q_size q"
    "unat (q_head q') = unat (q_head q) + 1"
proof -
  have "\<not> ts_full q" using assms ts_full_iff by (simp add: ts_room_def)
  moreover obtain q' where q': "ts_put x q = Inr (q', [Cnd])" "ts_inv q'" "q_size q' = q_size q"
    "ts_contents q' = ts_contents q @ [x]" "q_tail q' = q_tail q"
    using assms ts_put_ok [of q x] by (auto simp: ts_room_def)
  moreover have "unat (q_head q') = unat (q_head q) + 1"
    using ts_inv_nat(7) [OF assms(1)] ts_inv_nat(7) [OF q'(2)] q'(5) arg_cong [OF q'(4), of length]
    by simp
  ultimately show ?thesis
    using assms(2) by (intro that [of q'])
      (simp_all add: pt_ts_queue_enqueue_def ts_enqueue_with_def ts_wait_not_blocked ts_room_def
         errno_defs)
qed

lemma pt_enqueue_full:
  assumes "ts_inv q" and "ts_len q = unat (q_size q)" and "x \<noteq> NULL"
  shows "pt_ts_queue_enqueue (Some q) x NO_SLEEP now [times_out] = Some (Inr (False, Some q, []))"
  using ts_full_iff [OF assms(1)] assms(2,3)
  by (simp add: pt_ts_queue_enqueue_def ts_enqueue_with_def times_out_def errno_defs)

lemma pt_dequeue_some:
  assumes "ts_inv q" and "ts_contents q = x # xs"
  obtains q' where "pt_ts_queue_dequeue (Some q) True ms now ws =
      Some (Inr (Some x, Some q', [Full_Cnd]))" "ts_inv q'" "ts_contents q' = xs"
    "q_size q' = q_size q" "q_head q' = q_head q"
proof -
  have "ts_len q \<noteq> 0" using assms(2) length_ts_contents [of q] by simp
  then have "\<not> ts_empty q" using assms(1) ts_empty_iff by simp
  moreover obtain q' where "ts_take q = Inr (x, q', [Full_Cnd])" "ts_inv q'"
    "q_size q' = q_size q" "ts_contents q' = xs" "q_head q' = q_head q"
    using ts_take_ok [OF assms] by metis
  ultimately show ?thesis
    by (intro that [of q'])
       (simp_all add: pt_ts_queue_dequeue_def ts_dequeue_with_def ts_wait_not_blocked)
qed

interpretation tsq: fifo_queue ts_enq ts_deq ts_holds ts_room
proof unfold_locales
  fix q xs x assume h: "ts_holds q xs" and r: "ts_room x q"
  obtain q' where "pt_ts_queue_enqueue (Some q) x NO_SLEEP zero_timespec [times_out] =
      Some (Inr (True, Some q', [Cnd]))" "ts_inv q'" "ts_contents q' = ts_contents q @ [x]"
    using pt_enqueue_room [of q x] h r unfolding ts_holds_def by metis
  with h r show "\<exists>s'. ts_enq x q = Some s' \<and> ts_holds s' (xs @ [x])"
    by (simp add: ts_enq_def ts_holds_def ts_room_def)
next
  fix q xs x assume h: "ts_holds q xs" and r: "\<not> ts_room x q"
  have inv: "ts_inv q" using h by (simp add: ts_holds_def)
  show "ts_enq x q = None"
  proof (cases "ts_fits q \<and> x \<noteq> NULL")
    case True
    then have "ts_full q"
      using r ts_full_iff [OF inv] ts_inv_nat(5) [OF inv] by (auto simp: ts_room_def)
    then show ?thesis
      using True by (simp add: ts_enq_def pt_ts_queue_enqueue_def ts_enqueue_with_def times_out_def
          errno_defs)
  next
    case False
    then show ?thesis
      by (auto simp: ts_enq_def pt_ts_queue_enqueue_def ts_enqueue_with_def)
  qed
next
  fix q assume "ts_holds q []"
  then have "ts_inv q" "ts_len q = 0"
    using length_ts_contents [of q] by (auto simp: ts_holds_def)
  then have "ts_empty q" using ts_empty_iff by simp
  then show "ts_deq q = None"
    by (simp add: ts_deq_def pt_ts_queue_dequeue_def ts_dequeue_with_def times_out_def errno_defs)
next
  fix q x xs assume h: "ts_holds q (x # xs)"
  then obtain q' where "pt_ts_queue_dequeue (Some q) True NO_SLEEP zero_timespec [times_out] =
      Some (Inr (Some x, Some q', [Full_Cnd]))" "ts_inv q'" "ts_contents q' = xs"
    using pt_dequeue_some [of q x xs] unfolding ts_holds_def by metis
  then show "\<exists>s'. ts_deq q = Some (x, s') \<and> ts_holds s' xs" by (simp add: ts_deq_def ts_holds_def)
qed

section \<open>Properties\<close>


definition ts_example :: ts_queue where
  "ts_example = \<lparr>pp_ptr_array = [0, 0], q_size = 2, q_count = 0, q_head = 0, q_tail = 0\<rparr>"

lemma ts_example_ok: "ts_inv ts_example" "ts_fits ts_example" "ts_contents ts_example = []"
  "ts_len ts_example = 0" "q_size ts_example = 2"
  by (simp_all add: ts_example_def ts_inv_def ts_fits_def ts_len_def power_of_2_def ts_contents_def)






lemma cnd_outcome_code:
  "w call = (rc, upd) \<Longrightarrow> \<exists>rc'. cnd_outcome w call = (rc', upd) \<and> (rc' = 0 \<longleftrightarrow> rc = 0) \<and>
     (call \<noteq> Cond_Wait \<longrightarrow> (rc' = thrd_timedout \<longleftrightarrow> rc = ETIMEDOUT))"
  by (cases call)
     (auto simp: cnd_outcome_def cnd_wait_def cnd_timedwait_def thrd_defs errno_defs)

lemma ts_wait_c11:
  assumes "call \<noteq> Cond_Wait"
    and "(rc' = 0 \<longleftrightarrow> rc = 0) \<and> (rc' = thrd_timedout \<longleftrightarrow> rc = ETIMEDOUT)"
  shows "rel_option (\<lambda>(r', q') (r, q1). q' = q1 \<and> (r' = 0 \<longleftrightarrow> r = 0) \<and>
      (r' = thrd_timedout \<longleftrightarrow> r = ETIMEDOUT))
    (ts_wait thrd_timedout blocked call (map cnd_outcome ws) rc' q)
    (ts_wait ETIMEDOUT blocked call ws rc q)"
  using assms(2)
proof (induction ws arbitrary: rc rc' q)
  case Nil
  then show ?case by auto
next
  case (Cons w ws)
  obtain r1 upd where w: "w call = (r1, upd)" by (cases "w call")
  from cnd_outcome_code [of w call r1 upd, OF w] assms(1) obtain r1' where w': "cnd_outcome w call = (r1', upd)"
    "(r1' = 0 \<longleftrightarrow> r1 = 0) \<and> (r1' = thrd_timedout \<longleftrightarrow> r1 = ETIMEDOUT)"
    by auto
  from Cons.IH [OF w'(2)] Cons.prems w w'(1) show ?case by auto
qed

text \<open>
  C35: (equivalence) With a timeout, the C11 port enqueues and dequeues exactly as the pthread port does,
  for every behaviour of the condition variable under it.
\<close>

theorem c11_ts_queue_agrees:
  assumes "ms \<noteq> WAIT_FOREVER"
  shows "c11_ts_queue_enqueue p_queue p_item ms now ws = pt_ts_queue_enqueue p_queue p_item ms now ws \<and>
    c11_ts_queue_dequeue p_queue pp_item ms now ws = pt_ts_queue_dequeue p_queue pp_item ms now ws"
proof -
  have call: "ts_wait_call now ms \<noteq> Cond_Wait" using assms by (simp add: ts_wait_call_def)
  have start: "((0 :: int) = 0 \<longleftrightarrow> (0 :: int) = 0) \<and> (0 = thrd_timedout \<longleftrightarrow> 0 = ETIMEDOUT)"
    by (simp add: thrd_defs errno_defs)
  note rel = ts_wait_c11 [OF call start, where ws = ws]
  have e: "map_option f (ts_wait thrd_timedout b (ts_wait_call now ms) (map cnd_outcome ws) 0 q) =
      map_option g (ts_wait ETIMEDOUT b (ts_wait_call now ms) ws 0 q)"
    if "\<And>r' r q1. (r' = 0 \<longleftrightarrow> r = 0) \<Longrightarrow> (r' = thrd_timedout \<longleftrightarrow> r = ETIMEDOUT) \<Longrightarrow>
        f (r', q1) = g (r, q1)" for f g :: "int \<times> ts_queue \<Rightarrow> 'x" and b q
    using rel [of b q] that by (cases rule: option.rel_cases) auto
  show ?thesis
    unfolding c11_ts_queue_enqueue_def pt_ts_queue_enqueue_def ts_enqueue_with_def
      c11_ts_queue_dequeue_def pt_ts_queue_dequeue_def ts_dequeue_with_def
    by (auto split: option.splits intro!: e)
qed

theorem c11_ts_queue_agrees_witness:
  "c11_ts_queue_enqueue (Some ts_example) 7 5 zero_timespec [times_out] =
     pt_ts_queue_enqueue (Some ts_example) 7 5 zero_timespec [times_out]"
  using c11_ts_queue_agrees [of 5] by (simp add: WAIT_FOREVER_numeral)

text \<open>
  (liveness) A timed insertion into a full queue never returns when the nanoseconds of its deadline
  are out of range and nobody else gets to run: the condition variable refuses the deadline with
  \<open>EINVAL\<close> without waiting, the loop only ends on \<open>ETIMEDOUT\<close>, and the mutex stays held. The deadline
  is out of range whenever the millisecond part of the timeout carries.
\<close>

theorem ts_queue_enqueue_busy_loop:
  assumes "ts_inv q" and "ts_len q = unat (q_size q)" and "x \<noteq> NULL" and "ms \<noteq> WAIT_FOREVER"
    and "1000000000 \<le> tv_nsec now + 1000000 * (uint ms mod 1000)"
    and "\<forall>t. \<not> nsec_valid t \<longrightarrow> timedwait (Cond_Timedwait t) = (EINVAL, id)"
  shows "pt_ts_queue_enqueue (Some q) x ms now (replicate n timedwait) = None"
proof -
  have full: "ts_full q" using ts_full_iff [OF assms(1)] assms(2) by simp
  have inval: "timedwait (ts_wait_call now ms) = (EINVAL, id)"
    using assms(4-6) by (simp add: ts_wait_call_def ts_deadline_def nsec_valid_def)
  have "ts_wait ETIMEDOUT ts_full (ts_wait_call now ms) (replicate n timedwait) rc q = None"
    if "rc \<noteq> ETIMEDOUT" for rc
    using that full inval by (induction n arbitrary: rc) (auto simp: errno_defs)
  then show ?thesis
    using assms(3) by (simp add: pt_ts_queue_enqueue_def ts_enqueue_with_def errno_defs)
qed

theorem ts_queue_enqueue_busy_loop_witness:
  "pt_ts_queue_enqueue (Some \<lparr>pp_ptr_array = [5], q_size = 1, q_count = 1, q_head = 1, q_tail = 0\<rparr>)
     7 500 \<lparr>tv_sec = 3, tv_nsec = 600000000\<rparr>
     (replicate 1000 (\<lambda>call. case call of Cond_Timedwait t \<Rightarrow>
        (if nsec_valid t then (ETIMEDOUT, id) else (EINVAL, id)) | Cond_Wait \<Rightarrow> (0, id))) = None"
  by (rule ts_queue_enqueue_busy_loop)
     (simp_all add: ts_inv_def ts_len_def power_of_2_def WAIT_FOREVER_numeral)

text \<open>
  (bounds) The counters are not reduced: once \<open>tail + size\<close> wraps around \<open>2 ^ 64\<close>, an empty queue
  looks full and an insertion that does not wait is refused.
\<close>

theorem ts_queue_counter_wrap:
  assumes "q_head q = q_tail q" and "2 ^ 64 \<le> unat (q_tail q) + unat (q_size q)" and "x \<noteq> NULL"
  shows "pt_ts_queue_enqueue (Some q) x NO_SLEEP now [times_out] = Some (Inr (False, Some q, []))"
proof -
  have "unat (q_tail q + q_size q) = (unat (q_tail q) + unat (q_size q)) mod 2 ^ 64"
    by (simp add: unat_word_ariths)
  also have "\<dots> = unat (q_tail q) + unat (q_size q) - 2 ^ 64"
    using assms(2) unat_u64_bound [of "q_tail q"] unat_u64_bound [of "q_size q"]
    by (subst le_mod_geq) simp_all
  also have "\<dots> \<le> unat (q_tail q)" using unat_u64_bound [of "q_size q"] by simp
  finally have "ts_full q" using assms(1) by (simp add: ts_full_def word_le_nat_alt)
  with assms(3) show ?thesis
    by (simp add: pt_ts_queue_enqueue_def ts_enqueue_with_def times_out_def errno_defs)
qed

theorem ts_queue_counter_wrap_witness:
  "pt_ts_queue_enqueue (Some \<lparr>pp_ptr_array = [0, 0], q_size = 2, q_count = 0,
       q_head = - 2, q_tail = - 2\<rparr>) 7 NO_SLEEP zero_timespec [times_out] =
     Some (Inr (False, Some \<lparr>pp_ptr_array = [0, 0], q_size = 2, q_count = 0,
       q_head = - 2, q_tail = - 2\<rparr>, []))"
  by (rule ts_queue_counter_wrap) simp_all

text \<open>
  (invariant) \<open>ts_queue_init\<close> returns a queue exactly when the size is a power of two and the mutex and
  both condition variables could be created; the queue it returns is empty and satisfies the
  invariant.
\<close>

theorem ts_queue_init_ok:
  assumes "length arr = unat sz" and "unat sz < 2 ^ 64"
  shows "\<exists>q' ok freed. ts_queue_init (Some \<lparr>tp_queue = Some q, tp_ptr_array = Some arr, tp_size = sz\<rparr>)
      mutex_ok c1 c2 = (Some q', ok, freed) \<and>
    (ok \<longleftrightarrow> power_of_2 sz \<and> mutex_ok \<and> c1 = 0 \<and> c2 = 0) \<and>
    (ok \<longrightarrow> ts_inv q' \<and> ts_contents q' = []) \<and> (freed \<longleftrightarrow> power_of_2 sz \<and> mutex_ok \<and> \<not> ok)"
  using assms
  by (auto simp: ts_queue_init_def Let_def ts_inv_def ts_len_def ts_contents_def)

theorem ts_queue_init_ok_witness:
  "\<exists>q' ok freed. ts_queue_init (Some \<lparr>tp_queue = Some ts_example, tp_ptr_array = Some [1, 2, 3],
      tp_size = 3\<rparr>) True 0 0 = (Some q', ok, freed) \<and> \<not> ok"
  using ts_queue_init_ok [of "[1, 2, 3]" 3 ts_example True 0 0] by (auto simp: power_of_2_def)

text \<open>
  A sequence of calls from an interrupt that share one flag; the second component tells whether the
  kernel reported a woken task in one of them.
\<close>

fun isr_run :: "(addr \<Rightarrow> addr \<Rightarrow> 'k \<Rightarrow> bool \<times> bool \<times> 'k) \<Rightarrow> (fr_ts_queue option \<times> addr) list
    \<Rightarrow> bool option \<Rightarrow> 'k \<Rightarrow> bool option \<times> bool \<times> 'k" where
  "isr_run send_isr [] flag k = (flag, False, k)"
| "isr_run send_isr ((queue, item) # calls) flag k =
     (case fr_ts_queue_enqueue_from_isr send_isr queue item flag k of (ok, flag', k') \<Rightarrow>
        (case isr_run send_isr calls flag' k' of (flag'', woken, k'') \<Rightarrow>
           (flag'', (case queue of None \<Rightarrow> False
                     | Some q \<Rightarrow> fq_handle q \<noteq> NULL \<and> fst (snd (send_isr (fq_handle q) item k))) \<or> woken,
            k'')))"

text \<open>
  (functional) FreeRTOS port: interrupt handlers may share one flag between calls on several queues. It
  ends raised exactly when it was raised before or the kernel reported a woken task in one of the
  calls; calls on a queue without a handle make no kernel call.
\<close>

theorem isr_flag_accumulates:
  "fst (isr_run send_isr calls (Some b) k) = Some (b \<or> fst (snd (isr_run send_isr calls (Some b) k)))"
proof (induction calls arbitrary: b k)
  case (Cons c calls)
  obtain queue item where c: "c = (queue, item)" by (cases c)
  show ?case
  proof (cases "\<exists>q. queue = Some q \<and> fq_handle q \<noteq> NULL")
    case True
    then obtain q where q: "queue = Some q" "fq_handle q \<noteq> NULL" by blast
    obtain ok w k' where s: "send_isr (fq_handle q) item k = (ok, w, k')"
      by (cases "send_isr (fq_handle q) item k")
    show ?thesis
      using Cons.IH [of "b \<or> w" k'] q s
      by (cases w) (auto simp: c fr_ts_queue_enqueue_from_isr_def raise_flag_def split_beta)
  next
    case False
    then have "fr_ts_queue_enqueue_from_isr send_isr queue item (Some b) k = (False, Some b, k)"
      by (auto simp: fr_ts_queue_enqueue_from_isr_def split: option.splits)
    with False Cons.IH [of b k] show ?thesis
      by (auto simp: c split_beta split: option.splits)
  qed
qed simp

end
