(* ===== verification/Queue_Threads.thy ===== *)
theory Queue_Threads
  imports Ts_Queue Runs
begin

text \<open>
  The blocking queue of the \<open>pthread\<close> port as a concurrent system, one step for every access to the shared
  control block: the lock, the test of the wait loop, sleeping and waking, the increment of an index, the
  access to the array, the two halves of the change of \<open>count\<close>, and the unlock. The result of
  \<open>mutex_lock (\<dots>, WAIT_FOREVER)\<close> is not looked at by the code, so a call that fails goes on without the lock.

  The theorems: as long as the clock never shows more than 705 milliseconds within a second, the calls
  of any number of threads are linearizable, that is every run has the effect of a sequence of the whole
  operations of \<open>Ts_Queue\<close>; otherwise two insertions can overwrite an item.
\<close>

section \<open>The system\<close>

text \<open>A call with its argument, and whether its wait is timed.\<close>

datatype qcall = Put addr bool | Get bool

text \<open>
  Where a thread is. \<open>Testing\<close> has the code of the last wait, \<open>Storing\<close> and \<open>Loading\<close> the index that was
  fetched, \<open>Adding\<close> and \<open>Subtracting\<close> the count that was read, \<open>Leaving\<close> the item inserted or removed, if any.
\<close>

datatype qpc =
    Resting
  | Locking qcall
  | Testing qcall int
  | Sleeping qcall
  | Indexing qcall
  | Storing addr u64
  | Counting_Up addr
  | Adding addr u64
  | Loading u64
  | Counting_Down addr
  | Subtracting addr u64
  | Leaving "addr option"
  | Crashed

record 't qt_sys =
  qt_q :: ts_queue
  qt_owner :: "'t option"
  qt_pc :: "'t \<Rightarrow> qpc"
  qt_ins :: "addr list"
  qt_outs :: "addr list"

fun call_ok :: "qcall \<Rightarrow> bool" where
  "call_ok (Put x timed) \<longleftrightarrow> x \<noteq> NULL"
| "call_ok (Get timed) \<longleftrightarrow> True"

fun timed_call :: "qcall \<Rightarrow> bool" where
  "timed_call (Put x timed) = timed"
| "timed_call (Get timed) = timed"

text \<open>The condition of the wait loop, and the one tested after it.\<close>

fun blocked_call :: "qcall \<Rightarrow> ts_queue \<Rightarrow> bool" where
  "blocked_call (Put x timed) q = ts_full q"
| "blocked_call (Get timed) q = ts_empty q"

fun proceeds :: "qcall \<Rightarrow> int \<Rightarrow> bool" where
  "proceeds (Put x timed) rval \<longleftrightarrow> rval \<noteq> ETIMEDOUT"
| "proceeds (Get timed) rval \<longleftrightarrow> rval = 0"

definition slot :: "ts_queue \<Rightarrow> u64 \<Rightarrow> nat" where
  "slot q i = unat (i AND (q_size q - 1))"

definition qt_go :: "'t \<Rightarrow> qpc \<Rightarrow> 't qt_sys \<Rightarrow> 't qt_sys" where
  "qt_go t p s = s\<lparr>qt_pc := (qt_pc s)(t := p)\<rparr>"

text \<open>The mutex is given back by its owner; for another thread the unlock has no effect here.\<close>

definition qt_release :: "'t \<Rightarrow> 't qt_sys \<Rightarrow> 't qt_sys" where
  "qt_release t s = s\<lparr>qt_owner := (if qt_owner s = Some t then None else qt_owner s)\<rparr>"

text \<open>
  The steps of a thread. \<open>lk\<close> is the timed lock of the system and \<open>clocks\<close> are the times a thread may read when
  it calls \<open>mutex_lock\<close>; a held mutex is released at some time within the timeout. A wait may end for no reason.
\<close>

inductive qt_step :: "timedlock_fun \<Rightarrow> timespec set \<Rightarrow> 't qt_sys \<Rightarrow> 't qt_sys \<Rightarrow> bool" for lk clocks where
  Call: "qt_pc s t = Resting \<Longrightarrow> call_ok c \<Longrightarrow> qt_step lk clocks s (qt_go t (Locking c) s)"
| Lock: "qt_pc s t = Locking c \<Longrightarrow> qt_owner s = None \<Longrightarrow>
    qt_step lk clocks s (qt_go t (Testing c 0) (s\<lparr>qt_owner := Some t\<rparr>))"
| Lock_Fail: "qt_pc s t = Locking c \<Longrightarrow> qt_owner s = Some u \<Longrightarrow> now \<in> clocks \<Longrightarrow> \<not> available_by (Some f) now \<Longrightarrow>
    nanos f \<le> nanos now + 1000000 * uint WAIT_FOREVER \<Longrightarrow>
    \<not> pt_mutex_lock True WAIT_FOREVER EBUSY now (lk now (Some f)) \<Longrightarrow>
    qt_step lk clocks s (qt_go t (Testing c 0) s)"
| Sleep: "qt_pc s t = Testing c rval \<Longrightarrow> blocked_call c (qt_q s) \<Longrightarrow> rval \<noteq> ETIMEDOUT \<Longrightarrow>
    qt_step lk clocks s (qt_go t (Sleeping c) (qt_release t s))"
| Wake: "qt_pc s t = Sleeping c \<Longrightarrow> qt_owner s = None \<Longrightarrow> rval = 0 \<or> timed_call c \<Longrightarrow>
    qt_step lk clocks s (qt_go t (Testing c rval) (s\<lparr>qt_owner := Some t\<rparr>))"
| Give_Up: "qt_pc s t = Testing c rval \<Longrightarrow> \<not> blocked_call c (qt_q s) \<or> rval = ETIMEDOUT \<Longrightarrow> \<not> proceeds c rval \<Longrightarrow>
    qt_step lk clocks s (qt_go t (Leaving None) s)"
| Go_On: "qt_pc s t = Testing c rval \<Longrightarrow> \<not> blocked_call c (qt_q s) \<Longrightarrow> proceeds c rval \<Longrightarrow>
    qt_step lk clocks s (qt_go t (Indexing c) s)"
| Fetch_Head: "qt_pc s t = Indexing (Put x timed) \<Longrightarrow>
    qt_step lk clocks s (qt_go t (Storing x (q_head (qt_q s))) (s\<lparr>qt_q := (qt_q s)\<lparr>q_head := q_head (qt_q s) + 1\<rparr>\<rparr>))"
| Store: "qt_pc s t = Storing x i \<Longrightarrow> slot (qt_q s) i < length (pp_ptr_array (qt_q s)) \<Longrightarrow>
    qt_step lk clocks s (qt_go t (Counting_Up x)
      (s\<lparr>qt_q := (qt_q s)\<lparr>pp_ptr_array := (pp_ptr_array (qt_q s))[slot (qt_q s) i := x]\<rparr>\<rparr>))"
| Store_Out: "qt_pc s t = Storing x i \<Longrightarrow> \<not> slot (qt_q s) i < length (pp_ptr_array (qt_q s)) \<Longrightarrow>
    qt_step lk clocks s (qt_go t Crashed s)"
| Read_Up: "qt_pc s t = Counting_Up x \<Longrightarrow> qt_step lk clocks s (qt_go t (Adding x (q_count (qt_q s))) s)"
| Write_Up: "qt_pc s t = Adding x n \<Longrightarrow>
    qt_step lk clocks s (qt_go t (Leaving (Some x))
      (s\<lparr>qt_q := (qt_q s)\<lparr>q_count := n + 1\<rparr>, qt_ins := qt_ins s @ [x]\<rparr>))"
| Fetch_Tail: "qt_pc s t = Indexing (Get timed) \<Longrightarrow>
    qt_step lk clocks s (qt_go t (Loading (q_tail (qt_q s))) (s\<lparr>qt_q := (qt_q s)\<lparr>q_tail := q_tail (qt_q s) + 1\<rparr>\<rparr>))"
| Load: "qt_pc s t = Loading i \<Longrightarrow> slot (qt_q s) i < length (pp_ptr_array (qt_q s)) \<Longrightarrow>
    qt_step lk clocks s (qt_go t (Counting_Down (pp_ptr_array (qt_q s) ! slot (qt_q s) i)) s)"
| Load_Out: "qt_pc s t = Loading i \<Longrightarrow> \<not> slot (qt_q s) i < length (pp_ptr_array (qt_q s)) \<Longrightarrow>
    qt_step lk clocks s (qt_go t Crashed s)"
| Read_Down: "qt_pc s t = Counting_Down x \<Longrightarrow> qt_step lk clocks s (qt_go t (Subtracting x (q_count (qt_q s))) s)"
| Write_Down: "qt_pc s t = Subtracting x n \<Longrightarrow>
    qt_step lk clocks s (qt_go t (Leaving (Some x))
      (s\<lparr>qt_q := (qt_q s)\<lparr>q_count := n - 1\<rparr>, qt_outs := qt_outs s @ [x]\<rparr>))"
| Unlock: "qt_pc s t = Leaving r \<Longrightarrow> qt_step lk clocks s (qt_go t Resting (qt_release t s))"

definition qt_start :: "ts_queue \<Rightarrow> 't qt_sys" where
  "qt_start q = \<lparr>qt_q = q, qt_owner = None, qt_pc = (\<lambda>_. Resting), qt_ins = [], qt_outs = []\<rparr>"

section \<open>Invariant\<close>

text \<open>Between the lock and the unlock, sleeping apart.\<close>

fun in_section :: "qpc \<Rightarrow> bool" where
  "in_section Resting = False"
| "in_section (Locking c) = False"
| "in_section (Sleeping c) = False"
| "in_section Crashed = False"
| "in_section _ = True"

fun pc_ok :: "qpc \<Rightarrow> bool" where
  "pc_ok (Locking c) = call_ok c"
| "pc_ok (Testing c rval) = call_ok c"
| "pc_ok (Sleeping c) = call_ok c"
| "pc_ok (Indexing c) = call_ok c"
| "pc_ok (Storing x i) = (x \<noteq> NULL)"
| "pc_ok (Counting_Up x) = (x \<noteq> NULL)"
| "pc_ok (Adding x n) = (x \<noteq> NULL)"
| "pc_ok Crashed = False"
| "pc_ok _ = True"

text \<open>What the owner of the mutex has made so far of the queue \<open>r\<close> it found.\<close>

fun midway :: "qpc \<Rightarrow> ts_queue \<Rightarrow> ts_queue \<Rightarrow> bool" where
  "midway (Indexing c) r q \<longleftrightarrow> q = r \<and> \<not> blocked_call c r"
| "midway (Storing x i) r q \<longleftrightarrow> \<not> ts_full r \<and> i = q_head r \<and> q = r\<lparr>q_head := q_head r + 1\<rparr>"
| "midway (Counting_Up x) r q \<longleftrightarrow> \<not> ts_full r \<and>
     q = r\<lparr>q_head := q_head r + 1, pp_ptr_array := (pp_ptr_array r)[slot r (q_head r) := x]\<rparr>"
| "midway (Adding x n) r q \<longleftrightarrow> \<not> ts_full r \<and> n = q_count r \<and>
     q = r\<lparr>q_head := q_head r + 1, pp_ptr_array := (pp_ptr_array r)[slot r (q_head r) := x]\<rparr>"
| "midway (Loading i) r q \<longleftrightarrow> \<not> ts_empty r \<and> i = q_tail r \<and> q = r\<lparr>q_tail := q_tail r + 1\<rparr>"
| "midway (Counting_Down x) r q \<longleftrightarrow> \<not> ts_empty r \<and> x = pp_ptr_array r ! slot r (q_tail r) \<and>
     q = r\<lparr>q_tail := q_tail r + 1\<rparr>"
| "midway (Subtracting x n) r q \<longleftrightarrow> \<not> ts_empty r \<and> x = pp_ptr_array r ! slot r (q_tail r) \<and> n = q_count r \<and>
     q = r\<lparr>q_tail := q_tail r + 1\<rparr>"
| "midway _ r q \<longleftrightarrow> q = r"

text \<open>\<open>r\<close> is the queue after the whole operations \<open>ops\<close> on the initial queue \<open>q\<close>, with \<open>k\<close> steps to go.\<close>

definition serial :: "ts_queue \<Rightarrow> nat \<Rightarrow> 't qt_sys \<Rightarrow> ts_queue \<Rightarrow> bool" where
  "serial q k s r \<longleftrightarrow> ts_inv r \<and> unat (q_head r) + k + unat (q_size r) < 2 ^ 64 \<and>
     (\<exists>ops. qrun ts_enq ts_deq ops q = (qt_ins s, qt_outs s, r))"

definition qt_inv :: "ts_queue \<Rightarrow> nat \<Rightarrow> 't qt_sys \<Rightarrow> bool" where
  "qt_inv q k s \<longleftrightarrow>
     (\<forall>t. pc_ok (qt_pc s t) \<and> (in_section (qt_pc s t) \<longleftrightarrow> qt_owner s = Some t)) \<and>
     (\<exists>r. serial q k s r \<and>
        (case qt_owner s of None \<Rightarrow> qt_q s = r | Some t \<Rightarrow> midway (qt_pc s t) r (qt_q s)))"

section \<open>Every step keeps the invariant\<close>

lemma serial_less: "serial q (Suc k) s r \<Longrightarrow> serial q k s r"
  by (auto simp: serial_def)

lemma serial_cong: "qt_ins s' = qt_ins s \<Longrightarrow> qt_outs s' = qt_outs s \<Longrightarrow> serial q k s' r = serial q k s r"
  by (simp add: serial_def)

lemma slot_less: "ts_inv r \<Longrightarrow> slot r i < length (pp_ptr_array r)"
  using ts_inv_nat [of r] unat_ring_index [of "q_size r" i] by (simp add: slot_def)

lemma serial_put:
  assumes "serial q (Suc k) s r" and "\<not> ts_full r" and "x \<noteq> NULL"
  shows "serial q k (s\<lparr>qt_ins := qt_ins s @ [x]\<rparr>)
    (r\<lparr>q_head := q_head r + 1, pp_ptr_array := (pp_ptr_array r)[slot r (q_head r) := x], q_count := q_count r + 1\<rparr>)"
    (is "serial q k ?s ?r")
proof -
  have r: "ts_inv r" "unat (q_head r) + Suc k + unat (q_size r) < 2 ^ 64" using assms(1) by (auto simp: serial_def)
  obtain ops where ops: "qrun ts_enq ts_deq ops q = (qt_ins s, qt_outs s, r)" using assms(1) by (auto simp: serial_def)
  have room: "ts_room x r"
    using assms(2,3) r ts_full_iff [OF r(1)] ts_inv_nat(5) [OF r(1)] by (simp add: ts_room_def ts_fits_def)
  have put: "ts_put x r = Inr (?r, [Cnd])" using slot_less [OF r(1)] by (simp add: ts_put_def slot_def Let_def)
  obtain q' where q': "pt_ts_queue_enqueue (Some r) x NO_SLEEP zero_timespec [times_out] = Some (Inr (True, Some q', [Cnd]))"
      "ts_inv q'" "q_size q' = q_size r" "unat (q_head q') = unat (q_head r) + 1"
    using pt_enqueue_room [OF r(1) room] by metis
  have "q' = ?r"
    using q'(1) put assms(2,3)
    by (simp add: pt_ts_queue_enqueue_def ts_enqueue_with_def ts_wait_not_blocked errno_defs)
  with q' room have "ts_enq x r = Some ?r" "ts_inv ?r" "unat (q_head ?r) = unat (q_head r) + 1"
    by (simp_all add: ts_enq_def ts_room_def)
  moreover from this(1) have "qrun ts_enq ts_deq [Enq x] r = ([x], [], ?r)" by simp
  from qrun_append [OF ops this] have "qrun ts_enq ts_deq (ops @ [Enq x]) q = (qt_ins ?s, qt_outs ?s, ?r)" by simp
  ultimately show ?thesis using r(2) unfolding serial_def by (intro conjI exI) simp_all
qed

lemma serial_get:
  assumes "serial q (Suc k) s r" and "\<not> ts_empty r"
  shows "serial q k (s\<lparr>qt_outs := qt_outs s @ [pp_ptr_array r ! slot r (q_tail r)]\<rparr>)
    (r\<lparr>q_tail := q_tail r + 1, q_count := q_count r - 1\<rparr>)" (is "serial q k ?s ?r")
proof -
  have r: "ts_inv r" "unat (q_head r) + Suc k + unat (q_size r) < 2 ^ 64" using assms(1) by (auto simp: serial_def)
  obtain ops where ops: "qrun ts_enq ts_deq ops q = (qt_ins s, qt_outs s, r)" using assms(1) by (auto simp: serial_def)
  let ?x = "pp_ptr_array r ! slot r (q_tail r)"
  have take: "ts_take r = Inr (?x, ?r, [Full_Cnd])" using slot_less [OF r(1)] by (simp add: ts_take_def slot_def Let_def)
  have "ts_contents r \<noteq> []" using assms(2) ts_empty_iff [OF r(1)] length_ts_contents [of r] by (metis list.size(3))
  then obtain x xs where c: "ts_contents r = x # xs" by (cases "ts_contents r") auto
  obtain q' where "ts_take r = Inr (x, q', [Full_Cnd])" "ts_inv q'" "q_head q' = q_head r"
    using ts_take_ok [OF r(1) c] by metis
  with take have "ts_inv ?r" by simp
  moreover have "ts_deq r = Some (?x, ?r)"
    using take assms(2) by (simp add: ts_deq_def pt_ts_queue_dequeue_def ts_dequeue_with_def ts_wait_not_blocked)
  then have "qrun ts_enq ts_deq [Deq] r = ([], [?x], ?r)" by simp
  from qrun_append [OF ops this] have "qrun ts_enq ts_deq (ops @ [Deq]) q = (qt_ins ?s, qt_outs ?s, ?r)" by simp
  ultimately show ?thesis using r(2) unfolding serial_def by (intro conjI exI) simp_all
qed

lemma qt_inv_section:
  assumes "qt_inv q k s" and "qt_pc s t = p" and "in_section p"
  obtains r where "serial q k s r" "midway p r (qt_q s)" "qt_owner s = Some t" "pc_ok p"
  using assms by (auto simp: qt_inv_def)

lemma qt_inv_free:
  assumes "qt_inv q k s" and "qt_owner s = None"
  shows "serial q k s (qt_q s)"
  using assms by (auto simp: qt_inv_def)

lemma qt_inv_moved:
  assumes "qt_inv q (Suc k) s" and "qt_pc s1 = qt_pc s" and "pc_ok p"
    and "qt_owner s = Some t \<or> qt_owner s = None" and "qt_owner s1 = (if in_section p then Some t else None)"
    and "serial q k s1 r" and "if in_section p then midway p r (qt_q s1) else qt_q s1 = r"
  shows "qt_inv q k (qt_go t p s1)"
proof -
  have "\<not> in_section (qt_pc s u)" if "u \<noteq> t" for u using assms(1,4) that by (auto simp: qt_inv_def)
  moreover have "pc_ok (qt_pc s u)" for u using assms(1) by (simp add: qt_inv_def)
  moreover have "serial q k (qt_go t p s1) r" using assms(6) by (simp add: serial_def qt_go_def)
  ultimately show ?thesis
    using assms(2,3,5,7) unfolding qt_inv_def by (auto simp: qt_go_def split: if_splits)
qed

text \<open>A thread outside of the section that stays outside.\<close>

lemma qt_inv_outside:
  assumes "qt_inv q (Suc k) s" and "pc_ok p" and "\<not> in_section p" and "\<not> in_section (qt_pc s t)"
  shows "qt_inv q k (qt_go t p s)"
proof -
  obtain r where r: "serial q (Suc k) s r"
    "case qt_owner s of None \<Rightarrow> qt_q s = r | Some t \<Rightarrow> midway (qt_pc s t) r (qt_q s)"
    using assms(1) by (auto simp: qt_inv_def)
  have "serial q k (qt_go t p s) r" using serial_less [OF r(1)] by (simp add: serial_def qt_go_def)
  moreover have "qt_owner s \<noteq> Some t" using assms(1,4) by (auto simp: qt_inv_def)
  ultimately show ?thesis
    using assms(1-3) r(2) unfolding qt_inv_def by (auto simp: qt_go_def split: option.splits)
qed

text \<open>A thread inside of the section that stays inside.\<close>

lemma qt_inv_inside:
  assumes "qt_pc s t = p" and "qt_inv q (Suc k) s" and "in_section p" and "in_section p'"
    and "qt_owner s1 = qt_owner s" "qt_pc s1 = qt_pc s" "qt_ins s1 = qt_ins s" "qt_outs s1 = qt_outs s"
    and "\<And>r. ts_inv r \<Longrightarrow> midway p r (qt_q s) \<Longrightarrow> pc_ok p \<Longrightarrow> midway p' r (qt_q s1) \<and> pc_ok p'"
  shows "qt_inv q k (qt_go t p' s1)"
proof -
  obtain r where r: "serial q (Suc k) s r" "midway p r (qt_q s)" "qt_owner s = Some t" "pc_ok p"
    using qt_inv_section [OF assms(2,1,3)] .
  have "serial q k s1 r" using serial_less [OF r(1)] serial_cong [OF assms(7,8)] by simp
  moreover have "midway p' r (qt_q s1) \<and> pc_ok p'" using assms(9) [of r] r by (simp add: serial_def)
  ultimately show ?thesis
    using assms(4-6) r(3) by (intro qt_inv_moved [OF assms(2), where r = r]) simp_all
qed

text \<open>A thread that takes the mutex, and one that gives it back.\<close>

lemma qt_inv_enter:
  assumes "qt_inv q (Suc k) s" and "qt_owner s = None" and "call_ok c"
  shows "qt_inv q k (qt_go t (Testing c rval) (s\<lparr>qt_owner := Some t\<rparr>))"
  using serial_less [OF qt_inv_free [OF assms(1,2)]] assms(2,3)
  by (intro qt_inv_moved [OF assms(1)]) (simp_all add: serial_def)

lemma qt_inv_leave:
  assumes "qt_pc s t = p" and "qt_inv q (Suc k) s" and "in_section p" and "\<not> in_section p'"
    and "\<And>r. midway p r (qt_q s) \<Longrightarrow> pc_ok p \<Longrightarrow> qt_q s = r \<and> pc_ok p'"
  shows "qt_inv q k (qt_go t p' (qt_release t s))"
proof -
  obtain r where r: "serial q (Suc k) s r" "midway p r (qt_q s)" "qt_owner s = Some t" "pc_ok p"
    using qt_inv_section [OF assms(2,1,3)] .
  then show ?thesis
    using assms(4) assms(5) [of r] serial_less [OF r(1)]
    by (intro qt_inv_moved [OF assms(2), where r = r]) (auto simp: serial_def qt_release_def)
qed

lemma qt_inv_pc: "qt_inv q k s \<Longrightarrow> qt_pc s t = p \<Longrightarrow> pc_ok p"
  by (auto simp: qt_inv_def)

text \<open>The clock leaves room for the 295 milliseconds of \<open>WAIT_FOREVER\<close>, whenever it is read.\<close>

definition clocks_ok :: "timespec set \<Rightarrow> bool" where
  "clocks_ok clocks \<longleftrightarrow> (\<forall>now \<in> clocks. nsec_valid now \<and> tv_nsec now < 705000000)"

lemma qt_step_inv:
  assumes "qt_step lk clocks s s'" and "posix_timedlock lk" and "clocks_ok clocks" and "qt_inv q (Suc k) s"
  shows "qt_inv q k s'"
  using assms(1,4)
proof (induction rule: qt_step.induct)
  case (Lock s t c)
  then show ?case using qt_inv_pc [OF Lock.prems Lock.hyps(1)] by (simp add: qt_inv_enter)
next
  case (Wake s t c rval)
  then show ?case using qt_inv_pc [OF Wake.prems Wake.hyps(1)] by (simp add: qt_inv_enter)
next
  case (Lock_Fail s t c u now f)
  then have False using mutex_lock_forever [OF assms(2)] assms(3) by (auto simp: clocks_ok_def)
  then show ?case ..
next
  case (Store_Out s t x j)
  then obtain r where "ts_inv r" "midway (Storing x j) r (qt_q s)"
    using qt_inv_section [OF Store_Out.prems Store_Out.hyps(1)] by (auto simp: serial_def)
  with slot_less [of r j] Store_Out show ?case by (simp add: slot_def)
next
  case (Load_Out s t j)
  then obtain r where "ts_inv r" "midway (Loading j) r (qt_q s)"
    using qt_inv_section [OF Load_Out.prems Load_Out.hyps(1)] by (auto simp: serial_def)
  with slot_less [of r j] Load_Out show ?case by (simp add: slot_def)
next
  case (Write_Up s t x n)
  then obtain r where r: "serial q (Suc k) s r" "midway (Adding x n) r (qt_q s)" "qt_owner s = Some t" "x \<noteq> NULL"
    using qt_inv_section [OF Write_Up.prems Write_Up.hyps(1)] by auto
  with serial_put [OF r(1), of x] show ?case
    by (auto intro!: qt_inv_moved [OF Write_Up.prems] simp: serial_def)
next
  case (Write_Down s t x n)
  then obtain r where r: "serial q (Suc k) s r" "midway (Subtracting x n) r (qt_q s)" "qt_owner s = Some t"
    using qt_inv_section [OF Write_Down.prems Write_Down.hyps(1)] by auto
  with serial_get [OF r(1)] show ?case
    by (auto intro!: qt_inv_moved [OF Write_Down.prems] simp: serial_def)
next
  case (Call s t c)
  then show ?case by (simp add: qt_inv_outside)
next
  case (Sleep s t c rval)
  show ?case by (rule qt_inv_leave [OF Sleep.hyps(1) Sleep.prems]) auto
next
  case (Unlock s t res)
  show ?case by (rule qt_inv_leave [OF Unlock.hyps(1) Unlock.prems]) auto
next
  case (Give_Up s t c rval)
  then show ?case by (intro qt_inv_inside [OF Give_Up.hyps(1) Give_Up.prems]) (auto)
next
  case (Go_On s t c rval)
  then show ?case by (intro qt_inv_inside [OF Go_On.hyps(1) Go_On.prems]) (auto)
next
  case (Fetch_Head s t x timed)
  then show ?case by (intro qt_inv_inside [OF Fetch_Head.hyps(1) Fetch_Head.prems]) (auto)
next
  case (Store s t x j)
  then show ?case by (intro qt_inv_inside [OF Store.hyps(1) Store.prems]) (auto simp: slot_def)
next
  case (Read_Up s t x)
  then show ?case by (intro qt_inv_inside [OF Read_Up.hyps(1) Read_Up.prems]) (auto)
next
  case (Fetch_Tail s t timed)
  then show ?case by (intro qt_inv_inside [OF Fetch_Tail.hyps(1) Fetch_Tail.prems]) (auto)
next
  case (Load s t j)
  then show ?case by (intro qt_inv_inside [OF Load.hyps(1) Load.prems]) (auto simp: slot_def)
next
  case (Read_Down s t x)
  then show ?case by (intro qt_inv_inside [OF Read_Down.hyps(1) Read_Down.prems]) (auto)
qed

interpretation qts: budgeted_system "qt_step lk clocks"
    "\<lambda>k s. posix_timedlock lk \<and> clocks_ok clocks \<and> qt_inv q k s" for lk clocks q
  by unfold_locales (auto intro: qt_step_inv)

lemma qt_start_inv:
  assumes "ts_inv q" and "unat (q_head q) + n + unat (q_size q) < 2 ^ 64"
  shows "qt_inv q n (qt_start q)"
proof -
  have "qrun ts_enq ts_deq [] q = (qt_ins (qt_start q), qt_outs (qt_start q), q)" by (simp add: qt_start_def)
  then have "serial q n (qt_start q) q" using assms unfolding serial_def by blast
  then show ?thesis by (simp add: qt_inv_def qt_start_def)
qed

lemma qt_inv_serial:
  assumes "qt_inv q k s"
  obtains ops r where "qrun ts_enq ts_deq ops q = (qt_ins s, qt_outs s, r)" "ts_inv r"
    "qt_owner s = None \<longrightarrow> qt_q s = r"
  using assms by (auto simp: qt_inv_def serial_def split: option.splits)

section \<open>A lock that fails\<close>

text \<open>The steps of one insertion after the wait, whoever owns the mutex.\<close>

lemma put_steps:
  assumes pc: "qt_pc s t = Indexing (Put x timed)" and put: "ts_put x (qt_q s) = Inr (q', sg)"
  shows "(qt_step lk clocks ^^ 4) s (qt_go t (Leaving (Some x)) (s\<lparr>qt_q := q', qt_ins := qt_ins s @ [x]\<rparr>))"
proof -
  let ?q = "qt_q s" and ?i = "q_head (qt_q s)"
  let ?q1 = "?q\<lparr>q_head := ?i + 1\<rparr>"
  let ?q2 = "?q1\<lparr>pp_ptr_array := (pp_ptr_array ?q)[slot ?q ?i := x]\<rparr>"
  have i: "slot ?q ?i < length (pp_ptr_array ?q)" and q': "q' = ?q2\<lparr>q_count := q_count ?q + 1\<rparr>"
    using put by (auto simp: ts_put_def slot_def Let_def split: if_splits)
  have "qt_step lk clocks s (qt_go t (Storing x ?i) (s\<lparr>qt_q := ?q1\<rparr>))"
    using qt_step.Fetch_Head [OF pc] .
  moreover have "qt_step lk clocks (qt_go t (Storing x ?i) (s\<lparr>qt_q := ?q1\<rparr>)) (qt_go t (Counting_Up x) (s\<lparr>qt_q := ?q2\<rparr>))"
    using qt_step.Store [of "qt_go t (Storing x ?i) (s\<lparr>qt_q := ?q1\<rparr>)" t x ?i lk clocks] i
    by (simp add: qt_go_def slot_def)
  moreover have "qt_step lk clocks (qt_go t (Counting_Up x) (s\<lparr>qt_q := ?q2\<rparr>)) (qt_go t (Adding x (q_count ?q)) (s\<lparr>qt_q := ?q2\<rparr>))"
    using qt_step.Read_Up [of "qt_go t (Counting_Up x) (s\<lparr>qt_q := ?q2\<rparr>)" t x lk clocks] by (simp add: qt_go_def)
  moreover have "qt_step lk clocks (qt_go t (Adding x (q_count ?q)) (s\<lparr>qt_q := ?q2\<rparr>))
      (qt_go t (Leaving (Some x)) (s\<lparr>qt_q := q', qt_ins := qt_ins s @ [x]\<rparr>))"
    using qt_step.Write_Up [of "qt_go t (Adding x (q_count ?q)) (s\<lparr>qt_q := ?q2\<rparr>)" t x "q_count ?q" lk clocks]
    by (simp add: qt_go_def q')
  ultimately show ?thesis by (simp add: eval_nat_numeral) blast
qed

text \<open>Two insertions into the last free slot: the second lands where the next removal reads.\<close>

lemma put_put_take:
  assumes "ts_inv q" and "ts_fits q" and "Suc (ts_len q) = unat (q_size q)"
    and "ts_put x q = Inr (q1, sg1)" and "ts_put y q1 = Inr (q2, sg2)"
  shows "\<exists>q3. ts_take q2 = Inr (y, q3, [Full_Cnd])"
proof -
  note n = ts_inv_nat [OF assms(1)]
  let ?L = "unat (q_size q)"
  have idx: "unat (i AND (q_size q - 1)) = unat i mod ?L" for i by (rule unat_ring_index [OF n(2)])
  have "unat (q_head q + 1) = unat (q_tail q) + ?L"
    using assms(2,3) n(7) by (subst unat_add_fits) (simp_all add: ts_fits_def)
  then have "unat (q_head q + 1) mod ?L = unat (q_tail q) mod ?L" by simp
  moreover have "unat (q_tail q) mod ?L < length (pp_ptr_array q)" using n(1,3) by simp
  ultimately show ?thesis
    using assms(4,5) by (auto simp: ts_put_def ts_take_def Let_def idx split: if_splits)
qed

text \<open>A thread reaches its insertion with the lock; then another does without.\<close>

lemma first_indexing:
  assumes "\<not> ts_full q" and "x \<noteq> NULL"
  shows "(qt_step lk clocks ^^ 3) (qt_start q) (qt_go t (Indexing (Put x False)) ((qt_start q)\<lparr>qt_owner := Some t\<rparr>))"
proof -
  let ?c = "Put x False" and ?s = "(qt_start q)\<lparr>qt_owner := Some t\<rparr>"
  have "qt_step lk clocks (qt_start q) (qt_go t (Locking ?c) (qt_start q))"
    using assms(2) by (intro qt_step.Call) (simp_all add: qt_start_def)
  moreover have "qt_step lk clocks (qt_go t (Locking ?c) (qt_start q)) (qt_go t (Testing ?c 0) ?s)"
    using qt_step.Lock [of "qt_go t (Locking ?c) (qt_start q)" t ?c lk clocks]
    by (simp add: qt_go_def qt_start_def)
  moreover have "qt_step lk clocks (qt_go t (Testing ?c 0) ?s) (qt_go t (Indexing ?c) ?s)"
    using qt_step.Go_On [of "qt_go t (Testing ?c 0) ?s" t ?c 0 lk clocks] assms(1)
    by (simp add: qt_go_def qt_start_def errno_defs)
  ultimately show ?thesis by (simp add: eval_nat_numeral) blast
qed

lemma second_indexing:
  assumes lk: "posix_timedlock lk" and now: "now \<in> clocks" "nsec_valid now" "705000000 \<le> tv_nsec now"
    and s: "qt_owner s = Some t" "qt_pc s u = Resting" "\<not> ts_full (qt_q s)" and "y \<noteq> NULL"
  shows "(qt_step lk clocks ^^ 3) s (qt_go u (Indexing (Put y False)) s)"
proof -
  let ?c = "Put y False" and ?f = "now\<lparr>tv_nsec := tv_nsec now + 1\<rparr>"
  have f: "\<not> available_by (Some ?f) now" "nanos ?f \<le> nanos now + 1000000 * uint WAIT_FOREVER"
    by (simp_all add: available_by_def nanos_def WAIT_FOREVER_numeral)
  have fail: "\<not> pt_mutex_lock True WAIT_FOREVER EBUSY now (lk now (Some ?f))"
    using mutex_lock_forever [OF lk now(2) f, of EBUSY] now(3) by simp
  have "qt_step lk clocks s (qt_go u (Locking ?c) s)" using s(2) assms(8) by (intro qt_step.Call) simp_all
  moreover have "qt_step lk clocks (qt_go u (Locking ?c) s) (qt_go u (Testing ?c 0) s)"
    using qt_step.Lock_Fail [of "qt_go u (Locking ?c) s" u ?c t now clocks ?f lk] s(1) now(1) f fail
    by (simp add: qt_go_def)
  moreover have "qt_step lk clocks (qt_go u (Testing ?c 0) s) (qt_go u (Indexing ?c) s)"
    using qt_step.Go_On [of "qt_go u (Testing ?c 0) s" u ?c 0 lk clocks] s(3)
    by (simp add: qt_go_def errno_defs)
  ultimately show ?thesis by (simp add: eval_nat_numeral) blast
qed

section \<open>Properties\<close>

text \<open>
  C3: (refinement) The queue is linearizable. Any number of threads insert and remove, their steps interleaved
  in any way, from a well-formed queue whose counters have room for the steps made. As long as no time
  read by \<open>mutex_lock\<close> has 705 milliseconds or more within its second, no access leaves the array, at most one
  thread is between the lock and the unlock, and there is a sequence of whole operations, each one of the
  non-blocking calls of \<open>ts_queue_enqueue\<close> and \<open>ts_queue_dequeue\<close>, with exactly the insertions and
  removals made so far; it ends in a well-formed queue, which is the shared one whenever the mutex is
  free, and the items removed followed by those left are the items there were followed by those inserted.
\<close>

theorem ts_queue_linearizable:
  assumes "posix_timedlock lk" and "clocks_ok clocks" and "ts_inv q"
    and "unat (q_head q) + n + unat (q_size q) < 2 ^ 64"
    and "(qt_step lk clocks ^^ n) (qt_start q) s"
  shows "(\<forall>t. qt_pc s t \<noteq> Crashed) \<and>
    (\<forall>t u. in_section (qt_pc s t) \<longrightarrow> in_section (qt_pc s u) \<longrightarrow> t = u) \<and>
    (\<exists>ops r. qrun ts_enq ts_deq ops q = (qt_ins s, qt_outs s, r) \<and> ts_inv r \<and>
       ts_contents q @ qt_ins s = qt_outs s @ ts_contents r \<and> (qt_owner s = None \<longrightarrow> qt_q s = r))"
proof -
  have "qt_inv q (n + 0) (qt_start q)" using qt_start_inv [OF assms(3,4)] by simp
  then have i: "qt_inv q 0 s" using qts.steps_inv [OF assms(5), of q 0] assms(1,2) by simp
  obtain ops r where r: "qrun ts_enq ts_deq ops q = (qt_ins s, qt_outs s, r)" "ts_inv r"
    "qt_owner s = None \<longrightarrow> qt_q s = r" using qt_inv_serial [OF i] .
  have "ts_holds q (ts_contents q)" using assms(3) by (simp add: ts_holds_def)
  from tsq.qrun_fifo [OF this r(1)] have "ts_contents q @ qt_ins s = qt_outs s @ ts_contents r"
    by (auto simp: ts_holds_def)
  moreover have "pc_ok (qt_pc s t)" "in_section (qt_pc s t) \<longleftrightarrow> qt_owner s = Some t" for t
    using i by (simp_all add: qt_inv_def)
  ultimately show ?thesis using r by (metis option.inject pc_ok.simps(8))
qed

theorem ts_queue_linearizable_witness:
  "\<exists>s r. (qt_step reference_timedlock {\<lparr>tv_sec = 10, tv_nsec = 0\<rparr>} ^^ (3 + 4)) (qt_start ts_example) s \<and>
    qt_pc s (1 :: nat) = Leaving (Some 7) \<and> qt_ins s = [7] \<and> [7] = qt_outs s @ ts_contents r"
proof -
  let ?clocks = "{\<lparr>tv_sec = 10, tv_nsec = 0\<rparr>}"
  let ?s1 = "qt_go (1 :: nat) (Indexing (Put 7 False)) ((qt_start ts_example)\<lparr>qt_owner := Some 1\<rparr>)"
  obtain q1 where q1: "ts_put 7 ts_example = Inr (q1, [Cnd])" by (simp add: ts_put_def ts_example_def)
  let ?s2 = "qt_go 1 (Leaving (Some 7)) (?s1\<lparr>qt_q := q1, qt_ins := qt_ins ?s1 @ [7]\<rparr>)"
  have "\<not> ts_full ts_example" by (simp add: ts_full_def ts_example_def)
  then have "(qt_step reference_timedlock ?clocks ^^ 3) (qt_start ts_example) ?s1" by (intro first_indexing) simp_all
  moreover have "(qt_step reference_timedlock ?clocks ^^ 4) ?s1 ?s2"
    using q1 by (intro put_steps [of ?s1 1 7 False q1 "[Cnd]"]) (simp_all add: qt_go_def qt_start_def)
  ultimately have "(qt_step reference_timedlock ?clocks ^^ (3 + 4)) (qt_start ts_example) ?s2"
    by (rule relpowp_trans)
  moreover from ts_queue_linearizable [OF reference_timedlock_posix _ ts_example_ok(1) _ this]
  have "\<exists>r. ts_contents ts_example @ qt_ins ?s2 = qt_outs ?s2 @ ts_contents r"
    by (auto simp: clocks_ok_def nsec_valid_def ts_example_def)
  ultimately show ?thesis
    by (intro exI [of _ ?s2]) (simp add: qt_go_def qt_start_def ts_example_ok)
qed

text \<open>
  C39: (error) The condition on the clock is needed. A thread that calls \<open>mutex_lock\<close> in the last 295
  milliseconds of a second while the mutex is held goes on without it. With one free slot, two threads
  then both insert successfully, and the second item lands on the slot of the oldest one: the next
  removal returns the item inserted last, and the oldest is lost.
\<close>

theorem ts_queue_lock_failure:
  assumes "posix_timedlock lk" and "now \<in> clocks" and "nsec_valid now" and "705000000 \<le> tv_nsec now"
    and "ts_inv q" and "ts_fits q" and "Suc (ts_len q) = unat (q_size q)"
    and "x \<noteq> NULL" and "y \<noteq> NULL" and "t \<noteq> u"
  shows "\<exists>s q'. (qt_step lk clocks)\<^sup>*\<^sup>* (qt_start q) s \<and>
    qt_pc s t = Leaving (Some x) \<and> qt_pc s u = Leaving (Some y) \<and> qt_ins s = [x, y] \<and> qt_outs s = [] \<and>
    ts_take (qt_q s) = Inr (y, q', [Full_Cnd])"
proof -
  have room: "\<not> ts_full q" using ts_full_iff [OF assms(5)] assms(7) by simp
  obtain q1 where q1: "ts_put x q = Inr (q1, [Cnd])" "ts_inv q1"
    using ts_put_ok [OF assms(5,6), of x] assms(7) by (metis lessI)
  obtain q2 sg where q2: "ts_put y q1 = Inr (q2, sg)"
    using slot_less [OF q1(2)] by (simp add: ts_put_def slot_def Let_def)
  let ?s1 = "qt_go t (Indexing (Put x False)) ((qt_start q)\<lparr>qt_owner := Some t\<rparr>)"
  let ?s2 = "qt_go u (Indexing (Put y False)) ?s1"
  let ?s3 = "qt_go t (Leaving (Some x)) (?s2\<lparr>qt_q := q1, qt_ins := qt_ins ?s2 @ [x]\<rparr>)"
  let ?s4 = "qt_go u (Leaving (Some y)) (?s3\<lparr>qt_q := q2, qt_ins := qt_ins ?s3 @ [y]\<rparr>)"
  have "(qt_step lk clocks ^^ 3) (qt_start q) ?s1" using first_indexing [OF room assms(8)] .
  moreover have "(qt_step lk clocks ^^ 3) ?s1 ?s2"
    using assms(10) room by (intro second_indexing [OF assms(1-4) _ _ _ assms(9)]) (auto simp: qt_go_def qt_start_def)
  moreover have "(qt_step lk clocks ^^ 4) ?s2 ?s3"
    using assms(10) q1(1) by (intro put_steps [of ?s2 t x False q1 "[Cnd]"]) (simp_all add: qt_go_def qt_start_def)
  moreover have "(qt_step lk clocks ^^ 4) ?s3 ?s4"
    using assms(10) q2 by (intro put_steps [of ?s3 u y False q2 sg]) (simp_all add: qt_go_def)
  ultimately have "(qt_step lk clocks)\<^sup>*\<^sup>* (qt_start q) ?s4" by (meson relpowp_imp_rtranclp rtranclp_trans)
  moreover obtain q3 where "ts_take q2 = Inr (y, q3, [Full_Cnd])" using put_put_take [OF assms(5-7) q1(1) q2] ..
  ultimately show ?thesis
    using assms(10) by (intro exI [of _ ?s4] exI [of _ q3]) (simp add: qt_go_def qt_start_def)
qed

theorem ts_queue_lock_failure_witness:
  "\<exists>s q'. (qt_step reference_timedlock {\<lparr>tv_sec = 10, tv_nsec = 705000000\<rparr>})\<^sup>*\<^sup>*
      (qt_start \<lparr>pp_ptr_array = [7, 0], q_size = 2, q_count = 1, q_head = 1, q_tail = 0\<rparr>) s \<and>
    qt_pc s (1 :: nat) = Leaving (Some 8) \<and> qt_pc s 2 = Leaving (Some 9) \<and> qt_ins s = [8, 9] \<and> qt_outs s = [] \<and>
    ts_take (qt_q s) = Inr (9, q', [Full_Cnd])"
  by (rule ts_queue_lock_failure [OF reference_timedlock_posix, where now = "\<lparr>tv_sec = 10, tv_nsec = 705000000\<rparr>"])
     (simp_all add: nsec_valid_def ts_inv_def ts_fits_def ts_len_def power_of_2_def)

end
