(* ===== verification/Pool.thy ===== *)
theory Pool
  imports Ts_Queue Allocator
begin

text \<open>
  The block pool of \<open>inc/cutils/pool.h\<close>: the free blocks wait in a thread-safe queue, each block has a
  header with a retain count and a destructor in front of its data and a sanity word behind it. A
  pool is a \<open>block_allocator\<close> whose blocks are reference counted.
\<close>

section \<open>Blocks in memory and the control block\<close>

record pool_header =
  ph_sanity :: u32
  retain_count :: u32
  ph_destructor :: addr
  ph_destructor_private :: addr

text \<open>The headers by their address, and the trailing sanity words by theirs.\<close>

record pool_mem =
  hdr :: "addr \<Rightarrow> pool_header"
  trailer :: "addr \<Rightarrow> u32"

record pool =
  pool_q :: "ts_queue option"
  num_of_elements :: nat
  element_size :: nat
  offset_data_from_header :: nat

record pool_create_params =
  pp_pool :: "pool option"
  pp_num_of_elements :: u32
  pp_element_size_requested :: u32
  pp_total_element_size :: u32
  pp_backing :: addr
  pp_offset_data_from_header :: nat
  pp_queue_params :: "ts_queue_create_params option"

definition POOL_ELEMENT_HEADER_SANITY :: u32 where
  "POOL_ELEMENT_HEADER_SANITY = 0xDEADBEEF"

definition POOL_ELEMENT_TRAILER_SANITY :: u32 where
  "POOL_ELEMENT_TRAILER_SANITY = 0xFACEB007"

definition set_header :: "pool_mem \<Rightarrow> addr \<Rightarrow> pool_header \<Rightarrow> pool_mem" where
  "set_header m a h = m\<lparr>hdr := (hdr m)(a := h)\<rparr>"

text \<open>The address of the data of element \<open>i\<close>; the product is computed in 32 bits.\<close>

definition pool_block :: "pool_create_params \<Rightarrow> nat \<Rightarrow> addr" where
  "pool_block p i =
     pp_backing p + unat (of_nat i * pp_total_element_size p) + pp_offset_data_from_header p"

section \<open>Operations\<close>

text \<open>The state of the creation loop: the queue and the memory.\<close>

definition pool_create_step ::
  "pool_create_params \<Rightarrow> nat \<Rightarrow> (ts_queue option \<times> pool_mem) res \<Rightarrow> (ts_queue option \<times> pool_mem) res" where
  "pool_create_step p i s =
     bind_res s (\<lambda>(q, m).
       let data = pool_block p i;
           m1 = set_header m (data - pp_offset_data_from_header p)
                  \<lparr>ph_sanity = POOL_ELEMENT_HEADER_SANITY, retain_count = 0, ph_destructor = NULL,
                   ph_destructor_private = NULL\<rparr>;
           m2 = m1\<lparr>trailer := (trailer m1)(data + unat (pp_element_size_requested p) :=
                                  POOL_ELEMENT_TRAILER_SANITY)\<rparr>
       in case pt_ts_queue_enqueue q data NO_SLEEP zero_timespec [times_out] of
            Some (Inr (_, q', _)) \<Rightarrow> Inr (q', m2)
          | Some (Inl e) \<Rightarrow> Inl e
          | None \<Rightarrow> Inr (q, m2))"

text \<open>The pool object after the call, whether it is returned, and the memory.\<close>

definition pool_create ::
  "pool_create_params \<Rightarrow> bool \<Rightarrow> int \<Rightarrow> int \<Rightarrow> pool_mem \<Rightarrow> (pool option \<times> bool \<times> pool_mem) res" where
  "pool_create params mutex_ok c1 c2 m =
     (case pp_pool params of
        None \<Rightarrow> Inr (None, False, m)
      | Some _ \<Rightarrow>
          (let p0 = \<lparr>pool_q = None, num_of_elements = 0, element_size = 0,
                     offset_data_from_header = 0\<rparr>
           in case ts_queue_init (pp_queue_params params) mutex_ok c1 c2 of
                (Some q, True, _) \<Rightarrow>
                  bind_res (fold (pool_create_step params) [0..<unat (pp_num_of_elements params)]
                              (Inr (Some q, m)))
                    (\<lambda>(q', m'). Inr (Some \<lparr>pool_q = q',
                        num_of_elements = unat (pp_num_of_elements params),
                        element_size = unat (pp_element_size_requested params),
                        offset_data_from_header = pp_offset_data_from_header params\<rparr>, True, m'))
              | _ \<Rightarrow> Inr (Some p0, False, m)))"

text \<open>The second component names what \<open>ts_queue_destroy\<close> destroys.\<close>

definition pool_destroy :: "pool option \<Rightarrow> pool option \<times> ts_resource list" where
  "pool_destroy p_pool =
     (case p_pool of
        None \<Rightarrow> (None, [])
      | Some p \<Rightarrow> (Some (p\<lparr>pool_q := None\<rparr>), ts_queue_destroy (pool_q p \<noteq> None)))"

text \<open>The two sanity checks on a block.\<close>

definition pool_check :: "pool \<Rightarrow> pool_mem \<Rightarrow> addr \<Rightarrow> unit res" where
  "pool_check p m p_mem =
     bind_res (assert_res (ph_sanity (hdr m (p_mem - offset_data_from_header p)) =
                           POOL_ELEMENT_HEADER_SANITY))
       (\<lambda>_. assert_res (trailer m (p_mem + element_size p) = POOL_ELEMENT_TRAILER_SANITY))"

text \<open>\<open>None\<close>: the caller is still waiting for a block.\<close>

definition pool_alloc_blocking ::
  "pool option \<Rightarrow> u32 \<Rightarrow> addr \<Rightarrow> addr \<Rightarrow> timespec \<Rightarrow> outcome list \<Rightarrow> pool_mem
    \<Rightarrow> (addr \<times> pool option \<times> pool_mem) res option" where
  "pool_alloc_blocking p_pool wait_ms fnDestroy destructor_private now ws m =
     (case p_pool of
        None \<Rightarrow> Some (Inr (NULL, None, m))
      | Some p \<Rightarrow>
          map_option (\<lambda>r. bind_res r (\<lambda>(item, q', _).
            let p' = p\<lparr>pool_q := q'\<rparr>
            in case item of
                 None \<Rightarrow> Inr (NULL, Some p', m)
               | Some x \<Rightarrow>
                   bind_res (pool_check p m x) (\<lambda>_.
                     let a = x - offset_data_from_header p;
                         h1 = (hdr m a)\<lparr>retain_count := retain_count (hdr m a) + 1\<rparr>;
                         h2 = (if fnDestroy \<noteq> NULL
                               then h1\<lparr>ph_destructor := fnDestroy,
                                       ph_destructor_private := destructor_private\<rparr>
                               else h1)
                     in Inr (x, Some p', set_header m a h2))))
            (pt_ts_queue_dequeue (pool_q p) True wait_ms now ws))"

definition pool_alloc ::
  "pool option \<Rightarrow> timespec \<Rightarrow> outcome list \<Rightarrow> pool_mem \<Rightarrow> (addr \<times> pool option \<times> pool_mem) res option" where
  "pool_alloc p_pool now ws m = pool_alloc_blocking p_pool NO_SLEEP NULL NULL now ws m"

definition pool_retain :: "pool option \<Rightarrow> addr \<Rightarrow> pool_mem \<Rightarrow> pool_mem res" where
  "pool_retain p_pool p_mem m =
     (case p_pool of
        None \<Rightarrow> Inr m
      | Some p \<Rightarrow>
          bind_res (pool_check p m p_mem) (\<lambda>_.
            let a = p_mem - offset_data_from_header p
            in Inr (set_header m a ((hdr m a)\<lparr>retain_count := retain_count (hdr m a) + 1\<rparr>))))"

text \<open>The destructor calls made are recorded: destructor, block and private data.\<close>

definition pool_free ::
  "pool option \<Rightarrow> addr \<Rightarrow> pool_mem
    \<Rightarrow> (pool option \<times> pool_mem \<times> (addr \<times> addr \<times> addr) list) res" where
  "pool_free p_pool p_mem m =
     (case p_pool of
        None \<Rightarrow> Inr (None, m, [])
      | Some p \<Rightarrow>
          bind_res (pool_check p m p_mem) (\<lambda>_.
            let a = p_mem - offset_data_from_header p;
                old_retain_count = retain_count (hdr m a);
                m1 = set_header m a ((hdr m a)\<lparr>retain_count := old_retain_count - 1\<rparr>);
                h = hdr m1 a
            in bind_res (assert_res (old_retain_count \<noteq> 0)) (\<lambda>_.
               if old_retain_count = 1
               then (let calls = (if ph_destructor h \<noteq> NULL
                                  then [(ph_destructor h, p_mem, ph_destructor_private h)] else [])
                     in case pt_ts_queue_enqueue (pool_q p) p_mem NO_SLEEP zero_timespec [times_out] of
                          Some (Inr (_, q', _)) \<Rightarrow> Inr (Some (p\<lparr>pool_q := q'\<rparr>), m1, calls)
                        | Some (Inl e) \<Rightarrow> Inl e
                        | None \<Rightarrow> Inr (Some p, m1, calls))
               else Inr (Some p, m1, []))))"

definition pool_set_destructor ::
  "pool option \<Rightarrow> addr \<Rightarrow> addr \<Rightarrow> addr \<Rightarrow> pool_mem \<Rightarrow> pool_mem res" where
  "pool_set_destructor p_pool p_mem fnDestroy destructor_private m =
     (case p_pool of
        None \<Rightarrow> Inr m
      | Some p \<Rightarrow>
          if p_mem \<noteq> NULL
          then bind_res (pool_check p m p_mem) (\<lambda>_.
                 let a = p_mem - offset_data_from_header p
                 in Inr (set_header m a ((hdr m a)\<lparr>ph_destructor := fnDestroy,
                                                   ph_destructor_private := destructor_private\<rparr>)))
          else Inr m)"

section \<open>Invariant\<close>

text \<open>
  \<open>pool_rep B p m rc fs\<close>: the blocks of the pool are \<open>B\<close>, those in \<open>fs\<close> are free, and block \<open>b\<close> is
  retained \<open>rc b\<close> times; exactly the free ones have count 0. The queue has room for all of them.
\<close>

definition pool_rep :: "addr set \<Rightarrow> pool \<Rightarrow> pool_mem \<Rightarrow> (addr \<Rightarrow> nat) \<Rightarrow> addr list \<Rightarrow> bool" where
  "pool_rep B p m rc fs \<longleftrightarrow>
     (\<exists>q. pool_q p = Some q \<and> ts_inv q \<and> ts_contents q = fs \<and> card B \<le> unat (q_size q)) \<and>
     finite B \<and> distinct fs \<and> set fs \<subseteq> B \<and> NULL \<notin> B \<and>
     (\<forall>b \<in> B. offset_data_from_header p \<le> b \<and> pool_check p m b = Inr () \<and>
        unat (retain_count (hdr m (b - offset_data_from_header p))) = rc b \<and>
        (rc b = 0 \<longleftrightarrow> b \<in> set fs))"

text \<open>The queue's counters can take \<open>n\<close> more insertions.\<close>

definition pool_budget :: "nat \<Rightarrow> pool \<Rightarrow> bool" where
  "pool_budget n p \<longleftrightarrow>
     (\<exists>q. pool_q p = Some q \<and> unat (q_head q) + n + unat (q_size q) < 2 ^ 64)"

lemma pool_repD:
  assumes "pool_rep B p m rc fs"
  obtains q where "pool_q p = Some q" "ts_inv q" "ts_contents q = fs" "card B \<le> unat (q_size q)"
  using assms by (auto simp: pool_rep_def)

lemma pool_check_set_header:
  assumes "ph_sanity h = POOL_ELEMENT_HEADER_SANITY"
    and "pool_check p m b = Inr ()"
  shows "pool_check p (set_header m a h) b = Inr ()"
  using assms by (auto simp: pool_check_def set_header_def assert_res_def split: if_splits)

lemma pool_check_queue [simp]: "pool_check (p\<lparr>pool_q := q\<rparr>) m b = pool_check p m b"
  by (simp add: pool_check_def)

lemma pool_check_sanity:
  "pool_check p m b = Inr () \<Longrightarrow>
   ph_sanity (hdr m (b - offset_data_from_header p)) = POOL_ELEMENT_HEADER_SANITY"
  by (auto simp: pool_check_def assert_res_def split: if_splits)

text \<open>A change of one block's header changes the counts of no other block.\<close>

lemma pool_rep_header:
  assumes rep: "pool_rep B p m rc fs" and b: "b \<in> B"
    and h: "ph_sanity h = POOL_ELEMENT_HEADER_SANITY" "unat (retain_count h) = n"
    and q: "ts_inv q'" "ts_contents q' = fs'" "card B \<le> unat (q_size q')"
    and fs': "distinct fs'" "set fs' \<subseteq> B" "n = 0 \<longleftrightarrow> b \<in> set fs'"
      "\<And>c. c \<noteq> b \<Longrightarrow> c \<in> set fs' \<longleftrightarrow> c \<in> set fs"
  shows "pool_rep B (p\<lparr>pool_q := Some q'\<rparr>)
    (set_header m (b - offset_data_from_header p) h) (rc(b := n)) fs'"
proof -
  let ?o = "offset_data_from_header p"
  have B: "?o \<le> c" "pool_check p m c = Inr ()" "unat (retain_count (hdr m (c - ?o))) = rc c"
    "rc c = 0 \<longleftrightarrow> c \<in> set fs" if "c \<in> B" for c
    using rep that by (auto simp: pool_rep_def)
  have inj: "c - ?o = b - ?o \<longleftrightarrow> c = b" if "c \<in> B" for c
    using B(1) [OF that] B(1) [OF b] by auto
  have "?o \<le> c \<and> pool_check p (set_header m (b - ?o) h) c = Inr () \<and>
      unat (retain_count (hdr (set_header m (b - ?o) h) (c - ?o))) = (rc(b := n)) c \<and>
      ((rc(b := n)) c = 0 \<longleftrightarrow> c \<in> set fs')" if c: "c \<in> B" for c
    using B [OF c] inj [OF c] pool_check_set_header [OF h(1)] h(2) fs'(3,4)
    by (cases "c = b") (auto simp: set_header_def)
  with rep q fs' show ?thesis by (auto simp: pool_rep_def)
qed

section \<open>What the operations do\<close>

text \<open>The header a block has after an allocation.\<close>

definition allocated_header :: "pool_header \<Rightarrow> addr \<Rightarrow> addr \<Rightarrow> pool_header" where
  "allocated_header h fnDestroy private =
     (if fnDestroy \<noteq> NULL
      then h\<lparr>retain_count := retain_count h + 1, ph_destructor := fnDestroy,
             ph_destructor_private := private\<rparr>
      else h\<lparr>retain_count := retain_count h + 1\<rparr>)"

lemma pool_alloc_ok:
  assumes rep: "pool_rep B p m rc (x # fs)"
  obtains p' m' where
    "pool_alloc_blocking (Some p) ms d priv now ws m = Some (Inr (x, Some p', m'))"
    "pool_rep B p' m' (rc(x := 1)) fs" "\<And>n. pool_budget n p \<Longrightarrow> pool_budget n p'"
    "m' = set_header m (x - offset_data_from_header p)
       (allocated_header (hdr m (x - offset_data_from_header p)) d priv)"
    "offset_data_from_header p' = offset_data_from_header p"
proof -
  let ?a = "x - offset_data_from_header p"
  obtain q where q: "pool_q p = Some q" "ts_inv q" "ts_contents q = x # fs"
    "card B \<le> unat (q_size q)"
    using rep by (rule pool_repD)
  have x: "x \<in> B" "pool_check p m x = Inr ()" "unat (retain_count (hdr m ?a)) = 0"
    "distinct (x # fs)" "set fs \<subseteq> B"
    using rep by (auto simp: pool_rep_def)
  have "\<not> ts_empty q"
    using ts_empty_iff [OF q(2)] q(3) length_ts_contents [of q] by auto
  moreover obtain q' where t: "ts_take q = Inr (x, q', [Full_Cnd])" "ts_inv q'"
    "q_size q' = q_size q" "ts_contents q' = fs" "q_head q' = q_head q"
    using ts_take_ok [OF q(2,3)] by metis
  ultimately have dq: "pt_ts_queue_dequeue (pool_q p) True ms now ws =
      Some (Inr (Some x, Some q', [Full_Cnd]))"
    using q(1) by (simp add: pt_ts_queue_dequeue_def ts_dequeue_with_def ts_wait_not_blocked)
  let ?p = "p\<lparr>pool_q := Some q'\<rparr>"
  let ?m = "set_header m ?a (allocated_header (hdr m ?a) d priv)"
  have "pool_alloc_blocking (Some p) ms d priv now ws m = Some (Inr (x, Some ?p, ?m))"
    using dq x(2) by (simp add: pool_alloc_blocking_def Let_def allocated_header_def)
  moreover have "unat (retain_count (hdr m ?a) + 1) = 1"
    using x(3) by (metis add_0 unat_1 unat_eq_zero)
  then have "pool_rep B ?p ?m (rc(x := 1)) fs"
    using x t q(4) pool_check_sanity [OF x(2)]
    by (intro pool_rep_header [OF rep]) (auto simp: allocated_header_def)
  moreover have "pool_budget n p \<Longrightarrow> pool_budget n ?p" for n
    using q(1) t by (simp add: pool_budget_def)
  ultimately show ?thesis by (intro that [of ?p ?m]) simp_all
qed

lemma pool_alloc_none:
  assumes rep: "pool_rep B p m rc []"
  shows "pool_alloc (Some p) now [times_out] m = Some (Inr (NULL, Some p, m))"
proof -
  obtain q where q: "pool_q p = Some q" "ts_inv q" "ts_contents q = []"
    using rep by (rule pool_repD)
  have "ts_empty q" using ts_empty_iff [OF q(2)] q(3) length_ts_contents [of q] by simp
  then have "pt_ts_queue_dequeue (pool_q p) True NO_SLEEP now [times_out] =
      Some (Inr (None, Some q, []))"
    using q(1) by (simp add: pt_ts_queue_dequeue_def ts_dequeue_with_def times_out_def errno_defs)
  with q(1) show ?thesis by (simp add: pool_alloc_def pool_alloc_blocking_def)
qed

definition destructor_calls :: "pool_header \<Rightarrow> addr \<Rightarrow> (addr \<times> addr \<times> addr) list" where
  "destructor_calls h x =
     (if ph_destructor h \<noteq> NULL then [(ph_destructor h, x, ph_destructor_private h)] else [])"

text \<open>A queue with all blocks but one in it has room for that one.\<close>

lemma pool_queue_room:
  assumes rep: "pool_rep B p m rc fs" and x: "x \<in> B" "x \<notin> set fs" and q: "pool_q p = Some q"
  shows "ts_len q < unat (q_size q)"
proof -
  have "length fs = card (set fs)" using rep by (simp add: pool_rep_def distinct_card)
  also have "\<dots> < card B"
    using rep x by (intro psubset_card_mono) (auto simp: pool_rep_def)
  also have "\<dots> \<le> unat (q_size q)" using rep q by (auto simp: pool_rep_def)
  finally show ?thesis using rep q length_ts_contents [of q] by (auto simp: pool_rep_def)
qed

lemma pool_free_last:
  assumes rep: "pool_rep B p m rc fs" and x: "x \<in> B" "rc x = 1" and bud: "pool_budget (Suc n) p"
  obtains p' m' where
    "pool_free (Some p) x m = Inr (Some p', m',
       destructor_calls (hdr m (x - offset_data_from_header p)) x)"
    "pool_rep B p' m' (rc(x := 0)) (fs @ [x])" "pool_budget n p'"
proof -
  let ?a = "x - offset_data_from_header p"
  obtain q where q: "pool_q p = Some q" "ts_inv q" "ts_contents q = fs"
    "card B \<le> unat (q_size q)"
    using rep by (rule pool_repD)
  have xs: "pool_check p m x = Inr ()" "unat (retain_count (hdr m ?a)) = 1" "x \<notin> set fs" "distinct fs" "set fs \<subseteq> B"
    using rep x by (auto simp: pool_rep_def)
  have xn: "x \<noteq> NULL" using rep x(1) unfolding pool_rep_def by metis
  have rc1: "retain_count (hdr m ?a) = 1" using xs(2) by (simp add: word_unat_eq_iff)
  have room: "ts_len q < unat (q_size q)" by (rule pool_queue_room [OF rep x(1) xs(3) q(1)])
  have fits: "ts_fits q" using bud q(1) by (auto simp: pool_budget_def ts_fits_def)
  obtain q' where t: "ts_put x q = Inr (q', [Cnd])" "ts_inv q'" "q_size q' = q_size q"
    "ts_contents q' = fs @ [x]"
    using ts_put_ok [OF q(2) fits room, of x] q(3) by metis
  have "\<not> ts_full q" using ts_full_iff [OF q(2)] room by simp
  then have eq: "pt_ts_queue_enqueue (pool_q p) x NO_SLEEP zero_timespec [times_out] =
      Some (Inr (True, Some q', [Cnd]))"
    using t(1) xn q(1)
    by (simp add: pt_ts_queue_enqueue_def ts_enqueue_with_def ts_wait_not_blocked errno_defs)
  let ?p = "p\<lparr>pool_q := Some q'\<rparr>"
  let ?m = "set_header m ?a ((hdr m ?a)\<lparr>retain_count := 0\<rparr>)"
  have "pool_free (Some p) x m = Inr (Some ?p, ?m, destructor_calls (hdr m ?a) x)"
    using eq xs(1) rc1
    by (simp add: pool_free_def Let_def destructor_calls_def set_header_def)
  moreover have "pool_rep B ?p ?m (rc(x := 0)) (fs @ [x])"
    using x t q(4) xs pool_check_sanity [OF xs(1)]
    by (intro pool_rep_header [OF rep]) auto
  moreover have "pool_budget n ?p"
  proof -
    have "q_head q' = q_head q + 1"
      using t(1) by (auto simp: ts_put_def Let_def split: if_splits)
    moreover have "unat (q_head q + 1) = unat (q_head q) + 1"
      using fits by (subst unat_add_fits) (simp_all add: ts_fits_def)
    ultimately show ?thesis using bud q(1) t(3) by (auto simp: pool_budget_def)
  qed
  ultimately show ?thesis by (intro that [of ?p ?m])
qed

lemma pool_free_retained:
  assumes rep: "pool_rep B p m rc fs" and x: "x \<in> B" "rc x = Suc (Suc k)"
  obtains m' where "pool_free (Some p) x m = Inr (Some p, m', [])"
    "pool_rep B p m' (rc(x := Suc k)) fs"
    "hdr m' (x - offset_data_from_header p) =
       (hdr m (x - offset_data_from_header p))\<lparr>retain_count :=
          retain_count (hdr m (x - offset_data_from_header p)) - 1\<rparr>"
proof -
  let ?a = "x - offset_data_from_header p"
  obtain q where q: "pool_q p = Some q" "ts_inv q" "ts_contents q = fs"
    "card B \<le> unat (q_size q)"
    using rep by (rule pool_repD)
  have xs: "pool_check p m x = Inr ()" "unat (retain_count (hdr m ?a)) = Suc (Suc k)" "x \<notin> set fs"
    "distinct fs" "set fs \<subseteq> B"
    using rep x by (auto simp: pool_rep_def)
  have ne: "retain_count (hdr m ?a) \<noteq> 0" "retain_count (hdr m ?a) \<noteq> 1" using xs(2) by auto
  let ?h = "(hdr m ?a)\<lparr>retain_count := retain_count (hdr m ?a) - 1\<rparr>"
  let ?m = "set_header m ?a ?h"
  have pq: "p\<lparr>pool_q := Some q\<rparr> = p" using q(1) by (cases p) simp
  have "pool_free (Some p) x m = Inr (Some p, ?m, [])"
    using xs(1) ne by (simp add: pool_free_def Let_def)
  moreover have "unat (retain_count (hdr m ?a) - 1) = Suc k"
    using xs(2) by (subst unat_diff_fits) simp_all
  then have "pool_rep B (p\<lparr>pool_q := Some q\<rparr>) ?m (rc(x := Suc k)) fs"
    using x xs q pool_check_sanity [OF xs(1)] by (intro pool_rep_header [OF rep]) auto
  ultimately show ?thesis unfolding pq by (intro that [of ?m]) (simp_all add: set_header_def)
qed

lemma pool_retain_ok:
  assumes rep: "pool_rep B p m rc fs" and x: "x \<in> B" "0 < rc x" "Suc (rc x) < 2 ^ 32"
  obtains m' where "pool_retain (Some p) x m = Inr m'"
    "pool_rep B p m' (rc(x := Suc (rc x))) fs"
    "hdr m' (x - offset_data_from_header p) =
       (hdr m (x - offset_data_from_header p))\<lparr>retain_count :=
          retain_count (hdr m (x - offset_data_from_header p)) + 1\<rparr>"
proof -
  let ?a = "x - offset_data_from_header p"
  obtain q where q: "pool_q p = Some q" "ts_inv q" "ts_contents q = fs"
    "card B \<le> unat (q_size q)"
    using rep by (rule pool_repD)
  have xs: "pool_check p m x = Inr ()" "unat (retain_count (hdr m ?a)) = rc x" "x \<notin> set fs"
    "distinct fs" "set fs \<subseteq> B"
    using rep x by (auto simp: pool_rep_def)
  let ?m = "set_header m ?a ((hdr m ?a)\<lparr>retain_count := retain_count (hdr m ?a) + 1\<rparr>)"
  have pq: "p\<lparr>pool_q := Some q\<rparr> = p" using q(1) by (cases p) simp
  have "unat (retain_count (hdr m ?a) + 1) = Suc (rc x)"
    using xs(2) x(3) by (subst unat_add_fits) simp_all
  then have "pool_rep B (p\<lparr>pool_q := Some q\<rparr>) ?m (rc(x := Suc (rc x))) fs"
    using x xs q pool_check_sanity [OF xs(1)] by (intro pool_rep_header [OF rep]) auto
  moreover have "pool_retain (Some p) x m = Inr ?m"
    using xs(1) by (simp add: pool_retain_def Let_def)
  ultimately show ?thesis unfolding pq by (intro that [of ?m]) (simp_all add: set_header_def)
qed

lemma pool_free_double:
  assumes rep: "pool_rep B p m rc fs" and x: "x \<in> B" "x \<in> set fs"
  shows "pool_free (Some p) x m = Inl Assert_Failed"
proof -
  have "unat (retain_count (hdr m (x - offset_data_from_header p))) = 0" "pool_check p m x = Inr ()"
    using rep x by (auto simp: pool_rep_def)
  then have "retain_count (hdr m (x - offset_data_from_header p)) = 0" "pool_check p m x = Inr ()"
    by (simp_all add: unat_eq_zero)
  then show ?thesis by (simp add: pool_free_def Let_def)
qed

section \<open>A block allocator\<close>

type_synonym pl_state = "pool \<times> pool_mem"

definition pl_alloc :: "pl_state \<Rightarrow> (addr \<times> pl_state) option" where
  "pl_alloc s =
     (case pool_alloc (Some (fst s)) zero_timespec [times_out] (snd s) of
        Some (Inr (x, Some p', m')) \<Rightarrow> if x = NULL then None else Some (x, (p', m'))
      | _ \<Rightarrow> None)"

definition pl_release :: "addr \<Rightarrow> pl_state \<Rightarrow> pl_state option" where
  "pl_release x s =
     (case pool_free (Some (fst s)) x (snd s) of
        Inr (Some p', m', _) \<Rightarrow> Some (p', m')
      | _ \<Rightarrow> None)"

text \<open>Free blocks as above; a block that is out is retained once.\<close>

definition pl_free_in :: "addr set \<Rightarrow> pl_state \<Rightarrow> addr list \<Rightarrow> bool" where
  "pl_free_in B s fs \<longleftrightarrow>
     pool_rep B (fst s) (snd s) (\<lambda>b. if b \<in> set fs then 0 else 1) fs"

definition pl_budget :: "nat \<Rightarrow> pl_state \<Rightarrow> bool" where
  "pl_budget n s = pool_budget n (fst s)"

lemma pool_alloc_keeps:
  assumes "pool_alloc_blocking (Some p) ms f d now ws m = Some (Inr (x, Some p', m'))"
  shows "element_size p' = element_size p"
proof -
  obtain item q' cs where "pt_ts_queue_dequeue (pool_q p) True ms now ws = Some (Inr (item, q', cs))"
  proof (cases "pt_ts_queue_dequeue (pool_q p) True ms now ws")
    case (Some r)
    with assms that show ?thesis by (cases r) (auto simp: pool_alloc_blocking_def)
  qed (use assms in \<open>simp add: pool_alloc_blocking_def\<close>)
  then show ?thesis
    using assms
    by (cases item; cases "pool_check p m (the item)") (simp_all add: pool_alloc_blocking_def Let_def, auto)
qed

lemma pool_alloc_free:
  assumes "pl_free_in B (p, m) (x # fs)"
  obtains p' m' where "pool_alloc (Some p) now ws m = Some (Inr (x, Some p', m'))" "pl_free_in B (p', m') fs"
    "\<And>n. pool_budget n p \<Longrightarrow> pool_budget n p'" "x \<in> B" "x \<notin> set fs" "x \<noteq> NULL" "element_size p' = element_size p"
proof -
  let ?rc = "\<lambda>b. if b \<in> set (x # fs) then 0 else (1 :: nat)"
  have rep: "pool_rep B p m ?rc (x # fs)" using assms by (simp add: pl_free_in_def)
  obtain p' m' where a: "pool_alloc_blocking (Some p) NO_SLEEP NULL NULL now ws m = Some (Inr (x, Some p', m'))"
    "pool_rep B p' m' (?rc(x := 1)) fs" "\<And>n. pool_budget n p \<Longrightarrow> pool_budget n p'"
    using pool_alloc_ok [OF rep] by metis
  have x: "x \<in> B" "x \<notin> set fs" "NULL \<notin> B" using rep by (auto simp: pool_rep_def)
  then have "x \<noteq> NULL" "?rc(x := 1) = (\<lambda>b. if b \<in> set fs then 0 else 1)" by (metis, auto)
  moreover have "element_size p' = element_size p" by (rule pool_alloc_keeps [OF a(1)])
  ultimately show ?thesis using a x that by (simp add: pool_alloc_def pl_free_in_def)
qed

lemma pool_free_free:
  assumes "pl_free_in B (p, m) fs" and "x \<in> B" and "x \<notin> set fs" and "pool_budget (Suc n) p"
  obtains p' m' cs where "pool_free (Some p) x m = Inr (Some p', m', cs)" "pl_free_in B (p', m') (fs @ [x])"
    "pool_budget n p'"
proof -
  let ?rc = "\<lambda>b. if b \<in> set fs then 0 else (1 :: nat)"
  have rep: "pool_rep B p m ?rc fs" using assms(1) by (simp add: pl_free_in_def)
  have one: "?rc x = 1" using assms(3) by simp
  obtain p' m' where f: "pool_free (Some p) x m = Inr (Some p', m',
      destructor_calls (hdr m (x - offset_data_from_header p)) x)"
    "pool_rep B p' m' (?rc(x := 0)) (fs @ [x])" "pool_budget n p'"
    by (rule pool_free_last [OF rep assms(2) one assms(4)])
  have "?rc(x := 0) = (\<lambda>b. if b \<in> set (fs @ [x]) then 0 else 1)" by auto
  then show ?thesis using f that by (simp add: pl_free_in_def)
qed

lemma pool_free_twice: "pl_free_in B (p, m) fs \<Longrightarrow> x \<in> set fs \<Longrightarrow> pool_free (Some p) x m = Inl Assert_Failed"
  unfolding pl_free_in_def fst_conv snd_conv by (rule pool_free_double, assumption) (auto simp: pool_rep_def)

lemma pl_alloc_budget:
  assumes "pl_alloc s = Some (x, s')" and "pl_budget n s"
  shows "pl_budget n s'"
proof -
  obtain q where q: "pool_q (fst s) = Some q" "unat (q_head q) + n + unat (q_size q) < 2 ^ 64"
    using assms(2) by (auto simp: pl_budget_def pool_budget_def)
  have t: "q_head q' = q_head q0 \<and> q_size q' = q_size q0"
    if "ts_take q0 = Inr (y, q', sg)" for q0 q' y sg
    using that by (auto simp: ts_take_def Let_def split: if_splits)
  have u: "q' = q \<or> q_head q' = q_head q \<and> q_size q' = q_size q"
    if "pt_ts_queue_dequeue (Some q) True NO_SLEEP zero_timespec [times_out] =
      Some (Inr (y, Some q', sg))" for y q' sg
    using that t
    by (auto simp: pt_ts_queue_dequeue_def ts_dequeue_with_def times_out_def errno_defs
        bind_res_eq_Inr split: if_splits)
  from assms(1) obtain y q' sg where
    "pt_ts_queue_dequeue (Some q) True NO_SLEEP zero_timespec [times_out] = Some (Inr (y, q', sg))"
    "pool_q (fst s') = q'"
    using q(1)
    by (auto simp: pl_alloc_def pool_alloc_def pool_alloc_blocking_def Let_def bind_res_eq_Inr
        split: option.splits sum.splits prod.splits if_splits)
  moreover have "q' \<noteq> None"
    using calculation(1)
    by (auto simp: pt_ts_queue_dequeue_def ts_dequeue_with_def bind_res_eq_Inr split: if_splits
        option.splits)
  ultimately show ?thesis
    using u q(2) by (auto simp: pl_budget_def pool_budget_def)
qed

interpretation pl: block_allocator pl_alloc pl_release pl_free_in pl_budget
proof unfold_locales
  fix B s fs assume "pl_free_in B s fs"
  then show "distinct fs \<and> set fs \<subseteq> B" by (simp add: pl_free_in_def pool_rep_def)
next
  fix B s fs assume r: "pl_free_in B s fs" and "fs \<noteq> []"
  then obtain x gs where fs: "fs = x # gs" by (cases fs) auto
  have rep: "pool_rep B (fst s) (snd s) (\<lambda>b. if b \<in> set fs then 0 else 1) (x # gs)"
    using r fs by (simp add: pl_free_in_def)
  obtain p' m' where a: "pool_alloc_blocking (Some (fst s)) NO_SLEEP NULL NULL zero_timespec
      [times_out] (snd s) = Some (Inr (x, Some p', m'))"
    "pool_rep B p' m' ((\<lambda>b. if b \<in> set fs then 0 else 1)(x := 1)) gs"
    using pool_alloc_ok [OF rep] by metis
  have "x \<in> B" "NULL \<notin> B" "x \<notin> set gs" using rep by (auto simp: pool_rep_def)
  then have x: "x \<noteq> NULL" "x \<notin> set gs" by metis+
  have "(\<lambda>b. if b \<in> set fs then 0 else 1)(x := 1) = (\<lambda>b. if b \<in> set gs then 0 else (1 :: nat))"
    using fs x(2) by auto
  then have "pl_free_in B (p', m') gs" using a(2) by (simp add: pl_free_in_def)
  moreover have "pl_alloc s = Some (x, (p', m'))"
    using a(1) x(1) by (simp add: pl_alloc_def pool_alloc_def)
  ultimately show "\<exists>x s' fs'. pl_alloc s = Some (x, s') \<and> pl_free_in B s' fs' \<and> x \<in> set fs \<and>
      fs' = remove1 x fs"
    using fs by auto
next
  fix B s assume "pl_free_in B s []"
  then show "pl_alloc s = None"
    using pool_alloc_none [of B "fst s" "snd s"] by (simp add: pl_alloc_def pl_free_in_def)
next
  fix B s fs x n assume r: "pl_free_in B s fs" and x: "x \<in> B" "x \<notin> set fs"
    and b: "pl_budget (Suc n) s"
  have rep: "pool_rep B (fst s) (snd s) (\<lambda>b. if b \<in> set fs then 0 else 1) fs"
    using r by (simp add: pl_free_in_def)
  have bud: "pool_budget (Suc n) (fst s)" using b by (simp add: pl_budget_def)
  have one: "(if x \<in> set fs then 0 else 1 :: nat) = 1" using x(2) by simp
  obtain p' m' c where f: "pool_free (Some (fst s)) x (snd s) = Inr (Some p', m', c)"
    "pool_rep B p' m' ((\<lambda>b. if b \<in> set fs then 0 else 1)(x := 0)) (fs @ [x])" "pool_budget n p'"
    by (rule pool_free_last [OF rep x(1) one bud]) blast
  have "(\<lambda>b. if b \<in> set fs then 0 else 1)(x := 0) =
      (\<lambda>b. if b \<in> set (fs @ [x]) then 0 else (1 :: nat))" by auto
  with f show "\<exists>s' fs'. pl_release x s = Some s' \<and> pl_free_in B s' fs' \<and>
      mset fs' = add_mset x (mset fs) \<and> pl_budget n s'"
    by (intro exI [of _ "(p', m')"] exI [of _ "fs @ [x]"])
       (simp add: pl_release_def pl_free_in_def pl_budget_def)
next
  fix s x s' n assume "pl_alloc s = Some (x, s')" and "pl_budget n s"
  then show "pl_budget n s'" by (rule pl_alloc_budget)
next
  fix n s assume "pl_budget (Suc n) s"
  then show "pl_budget n s" by (auto simp: pl_budget_def pool_budget_def)
qed

section \<open>Creation\<close>

text \<open>
  Parameters as \<open>POOL_CREATE_INIT\<close> makes them: the elements fit in 32 bits, and the queue store has a
  power-of-two number of slots, enough for all of them.
\<close>

definition pool_params_ok :: "pool_create_params \<Rightarrow> bool" where
  "pool_params_ok p \<longleftrightarrow>
     pp_pool p \<noteq> None \<and> pp_backing p \<noteq> NULL \<and> 0 < unat (pp_total_element_size p) \<and>
     unat (pp_num_of_elements p) * unat (pp_total_element_size p) < 2 ^ 32 \<and>
     (case pp_queue_params p of
        None \<Rightarrow> False
      | Some qp \<Rightarrow>
          tp_queue qp \<noteq> None \<and>
          (case tp_ptr_array qp of
             None \<Rightarrow> False | Some arr \<Rightarrow> length arr = unat (tp_size qp)) \<and>
          power_of_2 (tp_size qp) \<and> unat (pp_num_of_elements p) \<le> unat (tp_size qp) \<and>
          unat (tp_size qp) \<le> 2 ^ 32)"

abbreviation pool_blocks :: "pool_create_params \<Rightarrow> addr list" where
  "pool_blocks p \<equiv> map (pool_block p) [0..<unat (pp_num_of_elements p)]"

lemma pool_block_eq:
  assumes "pool_params_ok p" and "i < unat (pp_num_of_elements p)"
  shows "pool_block p i =
    pp_backing p + i * unat (pp_total_element_size p) + pp_offset_data_from_header p"
proof -
  let ?t = "unat (pp_total_element_size p)"
  have b: "unat (pp_num_of_elements p) * ?t < 4294967296" "0 < ?t"
    using assms(1) by (simp_all add: pool_params_ok_def)
  have "i * ?t \<le> unat (pp_num_of_elements p) * ?t" using assms(2) by simp
  then have it: "i * ?t < 4294967296" using b(1) by linarith
  have "i * 1 \<le> i * ?t" using b(2) by (intro mult_le_mono) auto
  then have "i < 4294967296" using it by linarith
  then have "unat (of_nat i :: u32) = i" by (simp add: unat_of_nat)
  then have "unat (of_nat i * pp_total_element_size p) = i * ?t"
    using it by (simp add: unat_word_ariths)
  then show ?thesis by (simp add: pool_block_def)
qed

lemma pool_block_inj:
  assumes "pool_params_ok p" and "i < unat (pp_num_of_elements p)"
    and "j < unat (pp_num_of_elements p)"
  shows "pool_block p i = pool_block p j \<longleftrightarrow> i = j"
  using assms(1) pool_block_eq [OF assms(1,2)] pool_block_eq [OF assms(1,3)]
  by (simp add: pool_params_ok_def)

definition fresh_header :: pool_header where
  "fresh_header = \<lparr>ph_sanity = POOL_ELEMENT_HEADER_SANITY, retain_count = 0, ph_destructor = NULL,
     ph_destructor_private = NULL\<rparr>"

text \<open>Block \<open>i\<close> has been written and queued.\<close>

definition block_ready :: "pool_create_params \<Rightarrow> pool_mem \<Rightarrow> nat \<Rightarrow> bool" where
  "block_ready p m i \<longleftrightarrow>
     hdr m (pool_block p i - pp_offset_data_from_header p) = fresh_header \<and>
     trailer m (pool_block p i + unat (pp_element_size_requested p)) = POOL_ELEMENT_TRAILER_SANITY"

lemma pool_create_fold:
  assumes ok: "pool_params_ok p" and q0: "ts_inv q0" "ts_contents q0 = []" "q_head q0 = 0"
      "unat (pp_num_of_elements p) \<le> unat (q_size q0)" "unat (q_size q0) \<le> 2 ^ 32"
    and k: "k \<le> unat (pp_num_of_elements p)"
  shows "\<exists>q m'. fold (pool_create_step p) [0..<k] (Inr (Some q0, m)) = Inr (Some q, m') \<and>
    ts_inv q \<and> ts_contents q = map (pool_block p) [0..<k] \<and> q_size q = q_size q0 \<and>
    unat (q_head q) = k \<and> (\<forall>i < k. block_ready p m' i)"
  using k
proof (induction k)
  case 0
  then show ?case using q0 by simp
next
  case (Suc k)
  then obtain q m' where IH: "fold (pool_create_step p) [0..<k] (Inr (Some q0, m)) = Inr (Some q, m')"
    "ts_inv q" "ts_contents q = map (pool_block p) [0..<k]" "q_size q = q_size q0"
    "unat (q_head q) = k" "\<And>i. i < k \<Longrightarrow> block_ready p m' i"
    by auto
  have kn: "k < unat (pp_num_of_elements p)" using Suc.prems by simp
  let ?o = "pp_offset_data_from_header p" and ?e = "unat (pp_element_size_requested p)"
  let ?x = "pool_block p k"
  let ?m1 = "set_header m' (?x - ?o) fresh_header"
  let ?m2 = "?m1\<lparr>trailer := (trailer ?m1)(?x + ?e := POOL_ELEMENT_TRAILER_SANITY)\<rparr>"
  have len: "ts_len q = k" using IH(3) length_ts_contents [of q] by simp
  have fits: "ts_fits q" using IH(4,5) kn q0(4,5) by (simp add: ts_fits_def)
  have room: "ts_len q < unat (q_size q)" using len kn q0(4) IH(4) by simp
  have xn: "?x \<noteq> NULL" using ok by (simp add: pool_block_def pool_params_ok_def)
  obtain q' where t: "ts_put ?x q = Inr (q', [Cnd])" "ts_inv q'" "q_size q' = q_size q"
    "ts_contents q' = ts_contents q @ [?x]" "q_tail q' = q_tail q"
    using ts_put_ok [OF IH(2) fits room] by metis
  have "\<not> ts_full q" using ts_full_iff [OF IH(2)] room by simp
  then have "pt_ts_queue_enqueue (Some q) ?x NO_SLEEP zero_timespec [times_out] =
      Some (Inr (True, Some q', [Cnd]))"
    using t(1) xn
    by (simp add: pt_ts_queue_enqueue_def ts_enqueue_with_def ts_wait_not_blocked errno_defs)
  then have "fold (pool_create_step p) [0..<Suc k] (Inr (Some q0, m)) = Inr (Some q', ?m2)"
    using IH(1) by (simp add: pool_create_step_def Let_def fresh_header_def)
  moreover have "unat (q_head q') = Suc k"
    using ts_inv_nat(7) [OF t(2)] ts_inv_nat(7) [OF IH(2)] t(4,5) len IH(5)
      length_ts_contents [of q'] by simp
  moreover have "block_ready p ?m2 i" if "i < Suc k" for i
  proof (cases "i = k")
    case True
    then show ?thesis by (simp add: block_ready_def set_header_def)
  next
    case False
    then have i: "i < k" "i < unat (pp_num_of_elements p)" using that kn by auto
    have "?o \<le> pool_block p i" "?o \<le> ?x" by (simp_all add: pool_block_def)
    moreover have "pool_block p i \<noteq> ?x" using pool_block_inj [OF ok i(2) kn] False by simp
    ultimately show ?thesis
      using IH(6) [OF i(1)] by (auto simp: block_ready_def set_header_def)
  qed
  ultimately show ?case using t IH(3,4) by auto
qed

lemma pool_create_rep:
  assumes ok: "pool_params_ok p"
  obtains pl m' where "pool_create p True 0 0 m = Inr (Some pl, True, m')"
    "pl_free_in (set (pool_blocks p)) (pl, m') (pool_blocks p)"
    "\<And>n. n < 2 ^ 63 \<Longrightarrow> pl_budget n (pl, m')"
proof -
  let ?n = "unat (pp_num_of_elements p)"
  obtain qp q arr where qp: "pp_queue_params p = Some qp" "tp_queue qp = Some q"
    "tp_ptr_array qp = Some arr" "length arr = unat (tp_size qp)" "power_of_2 (tp_size qp)"
    "?n \<le> unat (tp_size qp)" "unat (tp_size qp) \<le> 2 ^ 32" and pp: "pp_pool p \<noteq> None"
    using ok by (auto simp: pool_params_ok_def split: option.splits)
  let ?q0 = "q\<lparr>pp_ptr_array := arr, q_size := tp_size qp, q_count := 0, q_tail := 0, q_head := 0\<rparr>"
  have init: "ts_queue_init (pp_queue_params p) True 0 0 = (Some ?q0, True, False)"
    using qp by (simp add: ts_queue_init_def Let_def)
  have q0: "ts_inv ?q0" "ts_contents ?q0 = []" "q_head ?q0 = 0" "?n \<le> unat (q_size ?q0)"
    "unat (q_size ?q0) \<le> 2 ^ 32"
    using qp by (simp_all add: ts_inv_def ts_len_def ts_contents_def)
  obtain q1 m' where f: "fold (pool_create_step p) [0..<?n] (Inr (Some ?q0, m)) = Inr (Some q1, m')"
    "ts_inv q1" "ts_contents q1 = pool_blocks p" "q_size q1 = tp_size qp" "unat (q_head q1) = ?n"
    "\<And>i. i < ?n \<Longrightarrow> block_ready p m' i"
    using pool_create_fold [OF ok q0 order_refl, of m] by auto
  let ?pl = "\<lparr>pool_q = Some q1, num_of_elements = ?n,
      element_size = unat (pp_element_size_requested p),
      offset_data_from_header = pp_offset_data_from_header p\<rparr>"
  have "pool_create p True 0 0 m = Inr (Some ?pl, True, m')"
    using pp init f(1) by (auto simp: pool_create_def Let_def)
  moreover have "pl_free_in (set (pool_blocks p)) (?pl, m') (pool_blocks p)"
  proof -
    have "distinct (pool_blocks p)"
      using pool_block_inj [OF ok] by (auto simp: distinct_map inj_on_def)
    moreover have "card (set (pool_blocks p)) \<le> unat (q_size q1)"
      using card_length [of "pool_blocks p"] qp(6) f(4) by simp
    moreover have "NULL \<notin> set (pool_blocks p)"
      using ok by (auto simp: pool_block_def pool_params_ok_def)
    moreover have "pp_offset_data_from_header p \<le> pool_block p i" for i
      by (simp add: pool_block_def)
    ultimately show ?thesis
      using f by (auto simp: pl_free_in_def pool_rep_def block_ready_def pool_check_def
          fresh_header_def)
  qed
  moreover have "pl_budget n (?pl, m')" if "n < 2 ^ 63" for n
    using that f(4,5) qp(6,7) by (simp add: pl_budget_def pool_budget_def)
  ultimately show ?thesis by (intro that [of ?pl m'])
qed

section \<open>Properties\<close>

text \<open>
  C10: (safety) After \<open>pool_create\<close>, any sequence of allocations and frees by clients that free what they
  hold succeeds; at its end no block is held twice, every block is held or free, and none is lost.
\<close>

theorem pool_no_double_alloc:
  assumes "pool_params_ok p" and "length ops < 2 ^ 63"
  shows "\<exists>pl m' held pl' m''. pool_create p True 0 0 m = Inr (Some pl, True, m') \<and>
    arun pl_alloc pl_release ops [] (pl, m') = Some (held, (pl', m'')) \<and> distinct held \<and>
    (\<exists>fs. pl_free_in (set (pool_blocks p)) (pl', m'') fs \<and> set held \<inter> set fs = {} \<and>
       set held \<union> set fs = set (pool_blocks p))"
proof -
  obtain pl m' where c: "pool_create p True 0 0 m = Inr (Some pl, True, m')"
    "pl_free_in (set (pool_blocks p)) (pl, m') (pool_blocks p)" "pl_budget (length ops) (pl, m')"
    using pool_create_rep [OF assms(1)] assms(2) by metis
  have "pl.splits (set (pool_blocks p)) [] (pl, m')"
    using c(2) by (auto simp: pl.splits_def)
  from pl.arun_splits [OF this c(3)] obtain held pl' m''
    where "arun pl_alloc pl_release ops [] (pl, m') = Some (held, (pl', m''))"
      "pl.splits (set (pool_blocks p)) held (pl', m'')"
    by auto
  with c(1) show ?thesis by (auto simp: pl.splits_def)
qed

definition pool_example_params :: pool_create_params where
  "pool_example_params = \<lparr>pp_pool = Some \<lparr>pool_q = None, num_of_elements = 0, element_size = 0,
     offset_data_from_header = 0\<rparr>, pp_num_of_elements = 2, pp_element_size_requested = 8,
     pp_total_element_size = 48, pp_backing = 1000, pp_offset_data_from_header = 32,
     pp_queue_params = Some \<lparr>tp_queue = Some ts_example, tp_ptr_array = Some [0, 0],
     tp_size = 2\<rparr>\<rparr>"

lemma pool_example_ok: "pool_params_ok pool_example_params"
  by (simp add: pool_params_ok_def pool_example_params_def power_of_2_def)

theorem pool_no_double_alloc_witness:
  "\<exists>pl m' held pl' m''. pool_create pool_example_params True 0 0
      \<lparr>hdr = (\<lambda>_. fresh_header), trailer = (\<lambda>_. 0)\<rparr> = Inr (Some pl, True, m') \<and>
    arun pl_alloc pl_release [Alloc, Alloc, Alloc, Release 1032] [] (pl, m') =
      Some (held, (pl', m'')) \<and> distinct held"
  using pool_no_double_alloc [OF pool_example_ok, of "[Alloc, Alloc, Alloc, Release 1032]"
      "\<lparr>hdr = (\<lambda>_. fresh_header), trailer = (\<lambda>_. 0)\<rparr>"]
  by fastforce

text \<open>\<open>n\<close> calls of \<open>pool_free\<close> on one block, with all destructor calls.\<close>

fun pool_frees :: "nat \<Rightarrow> pool \<Rightarrow> addr \<Rightarrow> pool_mem
    \<Rightarrow> (pool \<times> pool_mem \<times> (addr \<times> addr \<times> addr) list) res" where
  "pool_frees 0 p x m = Inr (p, m, [])"
| "pool_frees (Suc n) p x m =
     bind_res (pool_free (Some p) x m) (\<lambda>(p', m', c).
       case p' of None \<Rightarrow> Inl Null_Deref
       | Some p1 \<Rightarrow> bind_res (pool_frees n p1 x m') (\<lambda>(p2, m2, cs). Inr (p2, m2, c @ cs)))"

text \<open>
  C29: (functional) Reference counting: a block that is retained \<open>k + 1\<close> times stays out of the pool for
  \<open>k\<close> frees, without a destructor call; the next free calls the destructor exactly once, if one is
  set, and puts the block back at the end of the free queue; one free too many is caught by an
  assertion.
\<close>

theorem pool_refcount:
  assumes "pool_rep B p m rc fs" and "x \<in> B" and "rc x = Suc k" and "pool_budget 1 p"
  shows "\<exists>p1 m1 p2 m2. pool_frees k p x m = Inr (p1, m1, []) \<and> pool_rep B p1 m1 (rc(x := 1)) fs \<and>
    pool_free (Some p1) x m1 = Inr (Some p2, m2,
      destructor_calls (hdr m (x - offset_data_from_header p)) x) \<and>
    pool_rep B p2 m2 (rc(x := 0)) (fs @ [x]) \<and>
    pool_free (Some p2) x m2 = Inl Assert_Failed"
  using assms
proof (induction k arbitrary: m rc)
  case 0
  have one: "rc x = 1" "pool_budget (Suc 0) p" using 0(3,4) by simp_all
  obtain p' m' where f: "pool_free (Some p) x m = Inr (Some p', m',
      destructor_calls (hdr m (x - offset_data_from_header p)) x)"
    "pool_rep B p' m' (rc(x := 0)) (fs @ [x])"
    by (rule pool_free_last [OF 0(1,2) one])
  have r1: "rc(x := 1) = rc" using one(1) by auto
  have dbl: "pool_free (Some p') x m' = Inl Assert_Failed"
    using 0(2) by (intro pool_free_double [OF f(2)]) simp_all
  show ?case
    using f 0(1) dbl
    by (intro exI [of _ p] exI [of _ m] exI [of _ p'] exI [of _ m'] conjI)
       (simp_all only: r1 pool_frees.simps)
next
  case (Suc k)
  let ?a = "x - offset_data_from_header p"
  obtain m' where f: "pool_free (Some p) x m = Inr (Some p, m', [])"
    "pool_rep B p m' (rc(x := Suc k)) fs"
    "hdr m' ?a = (hdr m ?a)\<lparr>retain_count := retain_count (hdr m ?a) - 1\<rparr>"
    using pool_free_retained [OF Suc.prems(1,2,3)] by metis
  have d: "destructor_calls (hdr m' ?a) x = destructor_calls (hdr m ?a) x"
    using f(3) by (simp add: destructor_calls_def)
  have "(rc(x := Suc k)) x = Suc k" by simp
  from Suc.IH [OF f(2) Suc.prems(2) this Suc.prems(4), unfolded fun_upd_upd d]
  obtain p1 m1 p2 m2 where r: "pool_frees k p x m' = Inr (p1, m1, [])"
    "pool_rep B p1 m1 (rc(x := 1)) fs"
    "pool_free (Some p1) x m1 = Inr (Some p2, m2, destructor_calls (hdr m ?a) x)"
    "pool_rep B p2 m2 (rc(x := 0)) (fs @ [x])" "pool_free (Some p2) x m2 = Inl Assert_Failed"
    by blast
  then have "pool_frees (Suc k) p x m = Inr (p1, m1, [])" using f(1) by simp
  with r show ?case by blast
qed

lemma pool_example_rep:
  "pool_rep {1032} \<lparr>pool_q = Some ts_example, num_of_elements = 1, element_size = 8,
     offset_data_from_header = 32\<rparr>
   \<lparr>hdr = (\<lambda>_. fresh_header\<lparr>retain_count := 2, ph_destructor := 77\<rparr>),
    trailer = (\<lambda>_. POOL_ELEMENT_TRAILER_SANITY)\<rparr> (\<lambda>_. 2) []"
  using ts_example_ok by (simp add: pool_rep_def pool_check_def fresh_header_def)

theorem pool_refcount_witness:
  "\<exists>p1 m1 p2 m2. pool_frees 1 \<lparr>pool_q = Some ts_example, num_of_elements = 1, element_size = 8,
       offset_data_from_header = 32\<rparr> 1032
     \<lparr>hdr = (\<lambda>_. fresh_header\<lparr>retain_count := 2, ph_destructor := 77\<rparr>),
      trailer = (\<lambda>_. POOL_ELEMENT_TRAILER_SANITY)\<rparr> = Inr (p1, m1, []) \<and>
    pool_free (Some p1) 1032 m1 = Inr (Some p2, m2, [(77, 1032, 0)]) \<and>
    pool_free (Some p2) 1032 m2 = Inl Assert_Failed"
proof -
  let ?p = "\<lparr>pool_q = Some ts_example, num_of_elements = 1, element_size = 8,
       offset_data_from_header = 32\<rparr>"
  let ?m = "\<lparr>hdr = (\<lambda>_. fresh_header\<lparr>retain_count := 2, ph_destructor := 77\<rparr>),
      trailer = (\<lambda>_. POOL_ELEMENT_TRAILER_SANITY)\<rparr>"
  have "(2 :: nat) = Suc 1" "pool_budget 1 ?p" by (simp_all add: pool_budget_def ts_example_def)
  moreover have "destructor_calls (hdr ?m (1032 - offset_data_from_header ?p)) 1032 =
      [(77, 1032, 0)]"
    by (simp add: destructor_calls_def fresh_header_def)
  ultimately show ?thesis
    using pool_refcount [OF pool_example_rep, of 1032 1] by fastforce
qed

text \<open>
  (error) A block allocated without a destructor keeps the one of its previous user: when it is freed,
  that destructor is called again with the earlier private data.
\<close>

theorem pool_stale_destructor:
  assumes "pool_rep B p m rc (x # fs)" and "pool_budget 1 p"
    and "ph_destructor (hdr m (x - offset_data_from_header p)) = d" and "d \<noteq> NULL"
  shows "\<exists>p1 m1 p2 m2. pool_alloc (Some p) now ws m = Some (Inr (x, Some p1, m1)) \<and>
    pool_free (Some p1) x m1 = Inr (Some p2, m2,
      [(d, x, ph_destructor_private (hdr m (x - offset_data_from_header p)))])"
proof -
  let ?a = "x - offset_data_from_header p"
  obtain p1 m1 where a: "pool_alloc_blocking (Some p) NO_SLEEP NULL NULL now ws m =
      Some (Inr (x, Some p1, m1))" "pool_rep B p1 m1 (rc(x := 1)) fs" "pool_budget 1 p1"
    "m1 = set_header m ?a (allocated_header (hdr m ?a) NULL NULL)"
    "offset_data_from_header p1 = offset_data_from_header p"
    using pool_alloc_ok [OF assms(1)] assms(2) by metis
  have x: "x \<in> B" using assms(1) by (simp add: pool_rep_def)
  have "destructor_calls (hdr m1 (x - offset_data_from_header p1)) x =
      [(d, x, ph_destructor_private (hdr m ?a))]"
    using a(4,5) assms(3,4) by (simp add: destructor_calls_def set_header_def allocated_header_def)
  moreover have "(rc(x := 1)) x = 1" "pool_budget (Suc 0) p1" using a(3) by simp_all
  ultimately show ?thesis
    using pool_free_last [OF a(2) x] a(1) unfolding pool_alloc_def by metis
qed

theorem pool_stale_destructor_witness:
  "\<exists>p1 m1 p2 m2. pool_alloc (Some \<lparr>pool_q = Some \<lparr>pp_ptr_array = [1032], q_size = 1, q_count = 1,
       q_head = 1, q_tail = 0\<rparr>, num_of_elements = 1, element_size = 8,
       offset_data_from_header = 32\<rparr>) zero_timespec []
     \<lparr>hdr = (\<lambda>_. fresh_header\<lparr>ph_destructor := 77\<rparr>),
      trailer = (\<lambda>_. POOL_ELEMENT_TRAILER_SANITY)\<rparr> = Some (Inr (1032, Some p1, m1)) \<and>
    pool_free (Some p1) 1032 m1 = Inr (Some p2, m2, [(77, 1032, 0)])"
proof -
  have "pool_rep {1032} \<lparr>pool_q = Some \<lparr>pp_ptr_array = [1032], q_size = 1, q_count = 1, q_head = 1,
       q_tail = 0\<rparr>, num_of_elements = 1, element_size = 8, offset_data_from_header = 32\<rparr>
     \<lparr>hdr = (\<lambda>_. fresh_header\<lparr>ph_destructor := 77\<rparr>),
      trailer = (\<lambda>_. POOL_ELEMENT_TRAILER_SANITY)\<rparr> (\<lambda>_. 0) [1032]"
    by (simp add: pool_rep_def pool_check_def fresh_header_def ts_inv_def ts_len_def power_of_2_def
        ts_contents_def ring_slice_Cons)
  from pool_stale_destructor [OF this, of 77 zero_timespec "[]"] show ?thesis
    by (simp add: pool_budget_def fresh_header_def)
qed

end
