(* ===== verification/Notifier.thy ===== *)
theory Notifier
  imports Klist Pool
begin

text \<open>
  The notifier of \<open>inc/cutils/notifier.h\<close> and \<open>src/notifier.c\<close>: a table of lists of notification blocks,
  one list per category, with the blocks taken from a pool. Every operation runs under the notifier's
  mutex, so that an operation is one step on the state.
\<close>

section \<open>State and operations\<close>

text \<open>A block lives at its address: its links, its category, and the pool's words around it.\<close>

record notifier_mem =
  links :: klist_mem
  category_of :: "addr \<Rightarrow> u32"
  blocks :: pool_mem

record notifier =
  notif_array :: "addr list"
  total_notification_categories :: u32
  execute_f :: addr
  nt_pool :: "pool option"

record notifier_create_params =
  np_notifier :: "notifier option"
  np_notif_block_size :: u32
  np_max_registrations :: u32
  np_notif_array :: "addr list option"
  np_total_categories :: u32
  np_pool_params :: pool_create_params
  np_execute_f :: addr

text \<open>The notifier after the call and the return value; \<open>mutex_ok\<close> is the result of \<open>mutex_new\<close>.\<close>

definition notifier_init ::
  "notifier_create_params option \<Rightarrow> bool \<Rightarrow> bool \<Rightarrow> int \<Rightarrow> int \<Rightarrow> notifier_mem
    \<Rightarrow> (bool \<times> notifier \<times> notifier_mem) res" where
  "notifier_init params mutex_ok q_mutex_ok c1 c2 M =
     (case params of
        None \<Rightarrow> Inl Assert_Failed
      | Some ps \<Rightarrow>
          (case (np_notifier ps, np_notif_array ps) of
             (Some _, Some arr) \<Rightarrow>
               (let n = \<lparr>notif_array = arr, total_notification_categories = np_total_categories ps,
                         execute_f = np_execute_f ps, nt_pool = None\<rparr>
                in if mutex_ok
                   then bind_res (pool_create (np_pool_params ps) q_mutex_ok c1 c2 (blocks M))
                     (\<lambda>(pl, ok, pm).
                        if ok
                        then (if length arr < unat (total_notification_categories n)
                              then Inl Out_Of_Bounds
                              else Inr (True, n\<lparr>nt_pool := pl,
                                     notif_array := replicate (unat (total_notification_categories n)) NULL
                                       @ drop (unat (total_notification_categories n)) arr\<rparr>,
                                     M\<lparr>blocks := pm\<rparr>))
                        else Inr (False, n, M\<lparr>blocks := pm\<rparr>))
                   else Inr (False, n, M))
           | _ \<Rightarrow> Inl Assert_Failed))"

definition notifier_deinit :: "notifier option \<Rightarrow> (notifier \<times> ts_resource list) res" where
  "notifier_deinit nt =
     (case nt of
        None \<Rightarrow> Inl Assert_Failed
      | Some n \<Rightarrow> Inr (n\<lparr>nt_pool := None\<rparr>, snd (pool_destroy (nt_pool n))))"

text \<open>The block is cleared after it is taken from the pool.\<close>

definition clear_block :: "notifier_mem \<Rightarrow> addr \<Rightarrow> notifier_mem" where
  "clear_block M b = M\<lparr>links := set_next (set_prev (links M) b NULL) b NULL,
                       category_of := (category_of M)(b := 0)\<rparr>"

definition notifier_allocate_notification_block ::
  "notifier option \<Rightarrow> timespec \<Rightarrow> outcome list \<Rightarrow> notifier_mem
    \<Rightarrow> (addr \<times> notifier \<times> notifier_mem) res option" where
  "notifier_allocate_notification_block nt now ws M =
     (case nt of
        None \<Rightarrow> Some (Inl Assert_Failed)
      | Some n \<Rightarrow>
          map_option (\<lambda>r. bind_res r (\<lambda>(b, pl, pm).
            if b = NULL then Inl Assert_Failed
            else Inr (b, n\<lparr>nt_pool := pl\<rparr>, clear_block (M\<lparr>blocks := pm\<rparr>) b)))
            (pool_alloc (nt_pool n) now ws (blocks M)))"

definition notifier_register_notification_block ::
  "notifier option \<Rightarrow> u32 \<Rightarrow> addr \<Rightarrow> notifier_mem \<Rightarrow> (bool \<times> notifier \<times> notifier_mem) res" where
  "notifier_register_notification_block nt category block M =
     (case nt of
        None \<Rightarrow> Inl Assert_Failed
      | Some n \<Rightarrow>
          if block \<noteq> NULL \<and> category < total_notification_categories n
          then (if unat category < length (notif_array n)
                then (let M1 = M\<lparr>category_of := (category_of M)(block := category)\<rparr>;
                          (m', h') = klist_head_prepend (links M1) (notif_array n ! unat category) block
                      in Inr (True, n\<lparr>notif_array := (notif_array n)[unat category := h']\<rparr>,
                              M1\<lparr>links := m'\<rparr>))
                else Inl Out_Of_Bounds)
          else Inl Assert_Failed)"

definition notifier_deregister_notification_block ::
  "notifier option \<Rightarrow> addr \<Rightarrow> notifier_mem
    \<Rightarrow> (notifier \<times> notifier_mem \<times> (addr \<times> addr \<times> addr) list) res" where
  "notifier_deregister_notification_block nt block M =
     (case nt of
        None \<Rightarrow> Inl Assert_Failed
      | Some n \<Rightarrow>
          if block \<noteq> NULL \<and> category_of M block < total_notification_categories n
          then (let c = unat (category_of M block)
                in if c < length (notif_array n)
                   then bind_res
                     (if notif_array n ! c = block
                      then (let (m', h', pPopped) = klist_head_pop (links M) (notif_array n ! c)
                            in bind_res (assert_res (pPopped = block))
                                 (\<lambda>_. Inr (n\<lparr>notif_array := (notif_array n)[c := h']\<rparr>,
                                           M\<lparr>links := m'\<rparr>)))
                      else Inr (n, M\<lparr>links := klist_remove_elem (links M) block\<rparr>))
                     (\<lambda>(n1, M1).
                        bind_res (pool_free (nt_pool n1) block (blocks M1)) (\<lambda>(pl, pm, cs).
                          Inr (n1\<lparr>nt_pool := pl\<rparr>, M1\<lparr>blocks := pm\<rparr>, cs)))
                   else Inl Out_Of_Bounds)
          else Inl Assert_Failed)"

text \<open>A call of the client's function: the function, the block, its category and the data.\<close>

type_synonym nt_call = "addr \<times> addr \<times> u32 \<times> addr"

definition Poster :: "notifier \<Rightarrow> notifier_mem \<Rightarrow> addr \<Rightarrow> addr \<Rightarrow> nt_call list \<Rightarrow> nt_call list" where
  "Poster n M notification_data elem tr =
     tr @ [(execute_f n, elem, category_of M elem, notification_data)]"

text \<open>\<open>None\<close>: the walk over the list does not end.\<close>

definition notifier_post_notification ::
  "notifier option \<Rightarrow> u32 \<Rightarrow> addr \<Rightarrow> notifier_mem \<Rightarrow> nt_call list res option" where
  "notifier_post_notification nt category notification_data M =
     (case nt of
        None \<Rightarrow> Some (Inl Assert_Failed)
      | Some n \<Rightarrow>
          if category < total_notification_categories n
          then (if unat category < length (notif_array n)
                then (if execute_f n = NULL \<and> notif_array n ! unat category \<noteq> NULL
                      then Some (Inl Null_Call)
                      else map_option Inr (klist_head_foreach (\<lambda>_. links M)
                             (Poster n M notification_data) (notif_array n ! unat category) []))
                else Some (Inl Out_Of_Bounds))
          else Some (Inl Assert_Failed))"

section \<open>Invariant\<close>

text \<open>
  \<open>nt_rep B n M ls fs\<close>: category \<open>c\<close> holds the blocks \<open>ls ! c\<close>, in the order in which they are called;
  the blocks of the pool are \<open>B\<close>, those in \<open>fs\<close> are free.
\<close>

definition nt_rep :: "addr set \<Rightarrow> notifier \<Rightarrow> notifier_mem \<Rightarrow> addr list list \<Rightarrow> addr list \<Rightarrow> bool" where
  "nt_rep B n M ls fs \<longleftrightarrow>
     length (notif_array n) = length ls \<and> length ls = unat (total_notification_categories n) \<and>
     (\<forall>c < length ls. dll (links M) (notif_array n ! c) (ls ! c) \<and>
        (\<forall>b \<in> set (ls ! c). category_of M b = of_nat c \<and> b \<in> B \<and> b \<notin> set fs)) \<and>
     (\<exists>p. nt_pool n = Some p \<and> pl_free_in B (p, blocks M) fs)"

definition nt_budget :: "nat \<Rightarrow> notifier \<Rightarrow> bool" where
  "nt_budget k n \<longleftrightarrow> (\<exists>p. nt_pool n = Some p \<and> pool_budget k p)"

lemma nt_repD:
  assumes "nt_rep B n M ls fs" and "c < length ls"
  shows "dll (links M) (notif_array n ! c) (ls ! c)" "length (notif_array n) = length ls"
    "length ls = unat (total_notification_categories n)"
    "\<And>b. b \<in> set (ls ! c) \<Longrightarrow> category_of M b = of_nat c \<and> b \<in> B \<and> b \<notin> set fs"
  using assms by (auto simp: nt_rep_def)

lemma nt_rep_pool:
  assumes "nt_rep B n M ls fs"
  obtains p where "nt_pool n = Some p" "pl_free_in B (p, blocks M) fs" "NULL \<notin> B"
  using assms by (auto simp: nt_rep_def pl_free_in_def pool_rep_def)

text \<open>A block is in the list of its category only.\<close>

lemma nt_rep_disjoint:
  assumes "nt_rep B n M ls fs" and "c < length ls" and "d < length ls"
    and "b \<in> set (ls ! c)" and "b \<in> set (ls ! d)"
  shows "c = d"
proof -
  have "(of_nat c :: u32) = of_nat d" using nt_repD(4) [OF assms(1)] assms by metis
  moreover have "c < 4294967296" "d < 4294967296"
    using nt_repD(3) [OF assms(1,2)] assms(2,3)
      unat_u32_bound [of "total_notification_categories n"] by linarith+
  ultimately show ?thesis by (simp add: word_of_nat_eq_iff take_bit_eq_mod)
qed

lemma dll_head: "dll m p xs \<Longrightarrow> p = NULL \<or> p \<in> set xs"
  by (cases xs) (auto simp: dll_def)

lemma dll_nonnull: "dll m p xs \<Longrightarrow> NULL \<notin> set xs"
  by (auto simp: dll_def dest: chain_nonnull)

lemma unat_category: "nt_rep B n M ls fs \<Longrightarrow> c < length ls \<Longrightarrow> unat (of_nat c :: u32) = c"
  using nt_repD(3) [of B n M ls fs c] unat_u32_bound [of "total_notification_categories n"]
  by (simp add: unat_of_nat)

section \<open>What the operations do to the table\<close>

lemma notifier_register_ok:
  assumes rep: "nt_rep B n M ls fs" and c: "unat c < length ls"
    and e: "e \<in> B" "e \<notin> set fs" "\<And>d. d < length ls \<Longrightarrow> e \<notin> set (ls ! d)"
      "next_of (links M) e = NULL"
  obtains n' M' where "notifier_register_notification_block (Some n) c e M = Inr (True, n', M')"
    "nt_rep B n' M' (ls[unat c := e # ls ! unat c]) fs" "nt_pool n' = nt_pool n"
    "execute_f n' = execute_f n"
proof -
  let ?c = "unat c"
  have NB: "NULL \<notin> B" using rep by (rule nt_rep_pool)
  then have en: "e \<noteq> NULL" using e(1) by metis
  note R = nt_repD [OF rep]
  let ?h = "notif_array n ! ?c"
  obtain m' where pre: "klist_head_prepend (links M) ?h e = (m', e)"
    using klist_head_prepend_dll(1) [OF R(1) [OF c] e(3) [OF c] en] e(4)
    by (cases "klist_head_prepend (links M) ?h e") auto
  have mE: "fst (klist_head_prepend (links M) ?h e) = m'" using pre by simp
  let ?n = "n\<lparr>notif_array := (notif_array n)[?c := e]\<rparr>"
  let ?M = "M\<lparr>category_of := (category_of M)(e := c), links := m'\<rparr>"
  have lt: "c < total_notification_categories n" using R(3) [OF c] c by (simp add: word_less_nat_alt)
  have "notifier_register_notification_block (Some n) c e M = Inr (True, ?n, ?M)"
    using pre lt en c R(2) [OF c]
    by (simp add: notifier_register_notification_block_def)
  moreover have "nt_rep B ?n ?M (ls[?c := e # ls ! ?c]) fs"
  proof -
    have "dll m' ((notif_array n)[?c := e] ! d) (ls[?c := e # ls ! ?c] ! d) \<and>
        (\<forall>b \<in> set (ls[?c := e # ls ! ?c] ! d).
           ((category_of M)(e := c)) b = of_nat d \<and> b \<in> B \<and> b \<notin> set fs)"
      if d: "d < length ls" for d
    proof (cases "d = ?c")
      case True
      then show ?thesis
        using klist_head_prepend_dll(2) [OF R(1) [OF c] e(3) [OF c] en] mE e c R(2) [OF c]
          R(4) [OF c] by (auto simp: ucast_id)
    next
      case False
      have fr: "next_of m' y = next_of (links M) y \<and> prev_of m' y = prev_of (links M) y"
        if y: "y \<in> set (ls ! d)" for y
      proof -
        have "y \<noteq> e" using e(3) [OF d] y by metis
        moreover have "y \<noteq> NULL" using dll_nonnull [OF R(1) [OF d]] y by metis
        moreover have "y \<notin> set (ls ! ?c)" using nt_rep_disjoint [OF rep d c y] False by metis
        ultimately show ?thesis
          using dll_head [OF R(1) [OF c]] unfolding mE [symmetric]
          by (intro conjI klist_head_prepend_frame) metis+
      qed
      have "dll m' (notif_array n ! d) (ls ! d)"
        using dll_frame(1) [of "ls ! d" m' "links M" "notif_array n ! d"] fr R(1) [OF d] by simp
      then show ?thesis using False R(4) [OF d] e(3) [OF d] by auto
    qed
    then show ?thesis using rep by (simp add: nt_rep_def)
  qed
  ultimately show ?thesis by (intro that [of ?n ?M]) simp_all
qed

lemma notifier_allocate_ok:
  assumes rep: "nt_rep B n M ls (x # fs)"
  obtains n' M' where
    "notifier_allocate_notification_block (Some n) now ws M = Some (Inr (x, n', M'))"
    "nt_rep B n' M' ls fs" "next_of (links M') x = NULL" "x \<in> B" "x \<notin> set fs"
    "\<And>d. d < length ls \<Longrightarrow> x \<notin> set (ls ! d)" "\<And>k. nt_budget k n \<Longrightarrow> nt_budget k n'"
    "execute_f n' = execute_f n"
proof -
  obtain p where p: "nt_pool n = Some p" "pl_free_in B (p, blocks M) (x # fs)" "NULL \<notin> B"
    using rep by (rule nt_rep_pool)
  have prep: "pool_rep B p (blocks M) (\<lambda>b. if b \<in> set (x # fs) then 0 else 1) (x # fs)"
    using p(2) by (simp add: pl_free_in_def)
  obtain p' m' where a: "pool_alloc_blocking (Some p) NO_SLEEP NULL NULL now ws (blocks M) =
      Some (Inr (x, Some p', m'))"
    "pool_rep B p' m' ((\<lambda>b. if b \<in> set (x # fs) then 0 else 1)(x := 1)) fs"
    "\<And>k. pool_budget k p \<Longrightarrow> pool_budget k p'"
    using pool_alloc_ok [OF prep] by metis
  have x: "x \<in> B" "x \<notin> set fs" using prep by (auto simp: pool_rep_def)
  then have xn: "x \<noteq> NULL" using p(3) by metis
  have out: "x \<notin> set (ls ! d)" if "d < length ls" for d
    using nt_repD(4) [OF rep that, of x] by auto
  have "(\<lambda>b. if b \<in> set (x # fs) then 0 else 1)(x := 1) = (\<lambda>b. if b \<in> set fs then 0 else (1 :: nat))"
    using x(2) by auto
  then have pf: "pl_free_in B (p', m') fs" using a(2) by (simp add: pl_free_in_def)
  let ?n = "n\<lparr>nt_pool := Some p'\<rparr>" and ?M = "clear_block (M\<lparr>blocks := m'\<rparr>) x"
  have "notifier_allocate_notification_block (Some n) now ws M = Some (Inr (x, ?n, ?M))"
    using p(1) a(1) xn by (simp add: notifier_allocate_notification_block_def pool_alloc_def)
  moreover have "nt_rep B ?n ?M ls fs"
  proof -
    have "dll (links ?M) (notif_array n ! d) (ls ! d) \<and>
        (\<forall>b \<in> set (ls ! d). category_of ?M b = of_nat d \<and> b \<in> B \<and> b \<notin> set fs)"
      if d: "d < length ls" for d
    proof -
      have "dll (links ?M) (notif_array n ! d) (ls ! d) = dll (links M) (notif_array n ! d) (ls ! d)"
        using out [OF d] by (intro dll_frame(1)) (auto simp: clear_block_def)
      with nt_repD [OF rep d] out [OF d] show ?thesis by (auto simp: clear_block_def)
    qed
    with rep pf show ?thesis by (simp add: nt_rep_def clear_block_def)
  qed
  moreover have "nt_budget k ?n" if "nt_budget k n" for k
    using that p(1) a(3) by (auto simp: nt_budget_def)
  ultimately show ?thesis
    using x out by (intro that [of ?n ?M]) (simp_all add: clear_block_def)
qed

lemma notifier_post_ok:
  assumes rep: "nt_rep B n M ls fs" and c: "unat c < length ls" and ex: "execute_f n \<noteq> NULL"
  shows "notifier_post_notification (Some n) c data M =
    Some (Inr (map (\<lambda>b. (execute_f n, b, c, data)) (ls ! unat c)))"
proof -
  note R = nt_repD [OF rep c]
  have lt: "c < total_notification_categories n" using R(3) c by (simp add: word_less_nat_alt)
  have "fold (Poster n M data) bs tr = tr @ map (\<lambda>b. (execute_f n, b, category_of M b, data)) bs"
    for bs tr by (induction bs arbitrary: tr) (simp_all add: Poster_def)
  moreover have "klist_head_foreach (\<lambda>_. links M) (Poster n M data) (notif_array n ! unat c) [] =
      Some (fold (Poster n M data) (ls ! unat c) [])"
    using R(1) by (intro klist_head_foreach_chain) (simp_all add: dll_def)
  moreover have "map (\<lambda>b. (execute_f n, b, category_of M b, data)) (ls ! unat c) =
      map (\<lambda>b. (execute_f n, b, c, data)) (ls ! unat c)"
    using R(4) by (auto simp: ucast_id)
  ultimately show ?thesis
    using lt ex c R(2) by (simp add: notifier_post_notification_def)
qed

text \<open>Taking a block out of its list.\<close>

definition unlink_block :: "notifier \<Rightarrow> notifier_mem \<Rightarrow> nat \<Rightarrow> addr \<Rightarrow> klist_mem \<times> addr" where
  "unlink_block n M c b =
     (if notif_array n ! c = b
      then (set_next (set_prev (links M) b NULL) b NULL, next_of (links M) b)
      else (klist_remove_elem (links M) b, notif_array n ! c))"

text \<open>The head of a list, and the neighbours of an element behind it.\<close>

lemma dll_head_iff:
  assumes "dll m h (as @ b # bs)"
  shows "h = b \<longleftrightarrow> as = []"
  using assms dll_distinct [OF assms] by (cases as) (auto simp: dll_def)

lemma dll_neighbours:
  assumes "dll m h (as @ b # bs)" and "as \<noteq> []"
  shows "prev_of m b \<in> set as" and "next_of m b = NULL \<or> next_of m b \<in> set bs"
proof -
  obtain a as' where "as = a # as'" using assms(2) by (cases as) auto
  with assms(1) have "prev_of m b = last as" by (auto simp: dll_def)
  with assms(2) show "prev_of m b \<in> set as" by simp
  have ch: "chain (next_of m) h (as @ b # bs)" using assms(1) by (simp add: dll_def)
  then show "next_of m b = NULL \<or> next_of m b \<in> set bs"
    using chain_last [of "next_of m" h as b] chain_nth [of "next_of m" h as b] by (cases bs) auto
qed

lemma unlink_block_dll:
  assumes "dll (links M) (notif_array n ! c) (as @ b # bs)"
  shows "dll (fst (unlink_block n M c b)) (snd (unlink_block n M c b)) (as @ bs)"
proof (cases "as = []")
  case True
  with assms have d: "notif_array n ! c = b" "dll (links M) b (b # bs)" using dll_head_iff [OF assms] by simp_all
  obtain m' where "klist_head_pop (links M) b = (m', next_of (links M) b, b)" "dll m' (next_of (links M) b) bs"
    using klist_head_pop_dll [OF d(2)] by metis
  then show ?thesis
    using True d(1) dll_nonnull [OF assms] by (auto simp: unlink_block_def klist_head_pop_def Let_def)
next
  case False
  then show ?thesis
    using klist_remove_elem_dll [OF assms False] dll_head_iff [OF assms] by (simp add: unlink_block_def)
qed

lemma unlink_block_frame:
  assumes "dll (links M) (notif_array n ! c) (as @ b # bs)" and y: "y \<noteq> b" "y \<notin> set (as @ bs)" "y \<noteq> NULL"
  shows "next_of (fst (unlink_block n M c b)) y = next_of (links M) y \<and>
    prev_of (fst (unlink_block n M c b)) y = prev_of (links M) y"
proof (cases "as = []")
  case True
  then show ?thesis using y(1) dll_head_iff [OF assms(1)] by (simp add: unlink_block_def)
next
  case False
  then have "y \<noteq> next_of (links M) b \<and> y \<noteq> prev_of (links M) b" using y dll_neighbours [OF assms(1)] by auto
  then show ?thesis
    using False y(1) klist_remove_elem_frame [of y b "links M"] dll_head_iff [OF assms(1)]
    by (simp add: unlink_block_def)
qed

lemma nt_rep_unlinked:
  assumes rep: "nt_rep B n M ls fs" and c: "c < length ls" and b: "ls ! c = as @ b # bs"
    and u: "unlink_block n M c b = (m', h')" and pf: "pl_free_in B (p', pm) (fs @ [b])"
  shows "nt_rep B (n\<lparr>notif_array := (notif_array n)[c := h'], nt_pool := Some p'\<rparr>)
    (M\<lparr>links := m', blocks := pm\<rparr>) (ls[c := as @ bs]) (fs @ [b])"
proof -
  note R = nt_repD [OF rep]
  have d: "dll (links M) (notif_array n ! c) (as @ b # bs)" using R(1) [OF c] b by simp
  note ud = unlink_block_dll [OF d, unfolded u fst_conv snd_conv] unlink_block_frame [OF d, unfolded u fst_conv]
  have "dll m' ((notif_array n)[c := h'] ! e) (ls[c := as @ bs] ! e) \<and>
      (\<forall>x \<in> set (ls[c := as @ bs] ! e). category_of M x = of_nat e \<and> x \<in> B \<and> x \<notin> set (fs @ [b]))"
    if e: "e < length ls" for e
  proof (cases "e = c")
    case True
    then show ?thesis using ud(1) R(4) [OF c] b dll_distinct [OF d] c R(2) [OF c] by auto
  next
    case False
    have ne: "y \<notin> set (ls ! c)" if "y \<in> set (ls ! e)" for y
      using nt_rep_disjoint [OF rep e c that] False by metis
    have "next_of m' y = next_of (links M) y \<and> prev_of m' y = prev_of (links M) y"
      if y: "y \<in> set (ls ! e)" for y
      using ud(2) [of y] ne [OF y] b dll_nonnull [OF R(1) [OF e]] y by auto
    then have "dll m' (notif_array n ! e) (ls ! e)"
      using dll_frame(1) [of "ls ! e" m' "links M" "notif_array n ! e"] R(1) [OF e] by simp
    then show ?thesis using False R(4) [OF e] ne b by auto
  qed
  with rep pf show ?thesis by (simp add: nt_rep_def)
qed

lemma notifier_deregister_ok:
  assumes rep: "nt_rep B n M ls fs" and c: "c < length ls" and b: "ls ! c = as @ b # bs"
    and bud: "nt_budget (Suc k) n"
  obtains n' M' cs where "notifier_deregister_notification_block (Some n) b M = Inr (n', M', cs)"
    "nt_rep B n' M' (ls[c := as @ bs]) (fs @ [b])" "nt_budget k n'" "execute_f n' = execute_f n"
proof -
  note R = nt_repD [OF rep]
  have bc: "b \<in> set (ls ! c)" using b by simp
  note cb = R(4) [OF c bc]
  obtain p where p: "nt_pool n = Some p" "pl_free_in B (p, blocks M) fs" "NULL \<notin> B"
    using rep by (rule nt_rep_pool)
  have bn: "b \<noteq> NULL" using cb p(3) by metis
  have uc: "unat (category_of M b) = c" using cb unat_category [OF rep c] by simp
  have lt: "category_of M b < total_notification_categories n"
    using uc c R(3) [OF c] by (simp add: word_less_nat_alt)
  obtain m' h' where u: "unlink_block n M c b = (m', h')" by (cases "unlink_block n M c b")
  let ?n1 = "n\<lparr>notif_array := (notif_array n)[c := h']\<rparr>" and ?M1 = "M\<lparr>links := m'\<rparr>"
  have step: "(if notif_array n ! c = b
      then (case klist_head_pop (links M) (notif_array n ! c) of (m', h', pPopped) \<Rightarrow>
              bind_res (assert_res (pPopped = b))
                 (\<lambda>_. Inr (n\<lparr>notif_array := (notif_array n)[c := h']\<rparr>, M\<lparr>links := m'\<rparr>)))
      else Inr (n, M\<lparr>links := klist_remove_elem (links M) b\<rparr>)) = Inr (?n1, ?M1)"
    using u bn by (auto simp: unlink_block_def klist_head_pop_def Let_def)
  have prep: "pool_rep B p (blocks M) (\<lambda>b. if b \<in> set fs then 0 else 1) fs"
    using p(2) by (simp add: pl_free_in_def)
  have one: "(if b \<in> set fs then 0 else 1 :: nat) = 1" using cb by simp
  have pb: "pool_budget (Suc k) p" using bud p(1) by (simp add: nt_budget_def)
  have bB: "b \<in> B" using cb by simp
  obtain p' pm cs where f: "pool_free (Some p) b (blocks M) = Inr (Some p', pm, cs)"
    "pool_rep B p' pm ((\<lambda>b. if b \<in> set fs then 0 else 1)(b := 0)) (fs @ [b])" "pool_budget k p'"
    by (rule pool_free_last [OF prep bB one pb]) blast
  have "(\<lambda>b. if b \<in> set fs then 0 else 1)(b := 0) =
      (\<lambda>x. if x \<in> set (fs @ [b]) then 0 else (1 :: nat))" by auto
  then have pf: "pl_free_in B (p', pm) (fs @ [b])" using f(2) by (simp add: pl_free_in_def)
  have guard: "b \<noteq> NULL \<and> category_of M b < total_notification_categories n" using bn lt by simp
  have inb: "c < length (notif_array n)" using c R(2) [OF c] by simp
  let ?n = "?n1\<lparr>nt_pool := Some p'\<rparr>" and ?M = "?M1\<lparr>blocks := pm\<rparr>"
  have "notifier_deregister_notification_block (Some n) b M = Inr (?n, ?M, cs)"
    unfolding notifier_deregister_notification_block_def option.case Let_def uc
      if_P [OF guard] if_P [OF inb] step
    using f(1) p(1) by (simp add: bind_res_Inr)
  moreover have "nt_rep B ?n ?M (ls[c := as @ bs]) (fs @ [b])"
    using nt_rep_unlinked [OF rep c b u pf] by simp
  moreover have "nt_budget k ?n" using f(3) by (simp add: nt_budget_def)
  ultimately show ?thesis by (intro that [of ?n ?M cs]) simp_all
qed

lemma notifier_init_ok:
  assumes "np_notifier ps \<noteq> None" and "np_notif_array ps = Some arr"
    and "length arr = unat (np_total_categories ps)" and "pool_params_ok (np_pool_params ps)"
  obtains n M' where "notifier_init (Some ps) True True 0 0 M = Inr (True, n, M')"
    "nt_rep (set (pool_blocks (np_pool_params ps))) n M' (replicate (length arr) [])
       (pool_blocks (np_pool_params ps))"
    "\<And>k. k < 2 ^ 63 \<Longrightarrow> nt_budget k n" "execute_f n = np_execute_f ps"
proof -
  let ?p = "np_pool_params ps"
  obtain pl m' where c: "pool_create ?p True 0 0 (blocks M) = Inr (Some pl, True, m')"
    "pl_free_in (set (pool_blocks ?p)) (pl, m') (pool_blocks ?p)"
    "\<And>n. n < 2 ^ 63 \<Longrightarrow> pl_budget n (pl, m')"
    using pool_create_rep [OF assms(4)] by metis
  let ?n = "\<lparr>notif_array = replicate (length arr) NULL,
      total_notification_categories = np_total_categories ps, execute_f = np_execute_f ps,
      nt_pool = Some pl\<rparr>" and ?M = "M\<lparr>blocks := m'\<rparr>"
  have "notifier_init (Some ps) True True 0 0 M = Inr (True, ?n, ?M)"
    using assms(1-3) c(1) by (auto simp: notifier_init_def Let_def)
  moreover have "nt_rep (set (pool_blocks ?p)) ?n ?M (replicate (length arr) []) (pool_blocks ?p)"
    using assms(3) c(2) by (auto simp: nt_rep_def dll_def)
  moreover have "nt_budget k ?n" if "k < 2 ^ 63" for k
    using c(3) [OF that] by (simp add: nt_budget_def pl_budget_def)
  ultimately show ?thesis by (intro that [of ?n ?M]) simp_all
qed

section \<open>The notifier as a table of subscribers\<close>

text \<open>
  What a client does: take a block and register it, take a registered block out, or post. The
  specification keeps, for every category, the blocks in the order of their calls, newest first, and
  the free blocks; it has no value where the client breaks the contract.
\<close>

datatype nt_op = Subscribe u32 | Unsubscribe addr | Post u32 addr

type_synonym nt_table = "addr list list \<times> addr list"

fun tab_step :: "nt_op \<Rightarrow> nt_table \<Rightarrow> (nt_table \<times> (addr \<times> u32 \<times> addr) list) option" where
  "tab_step (Subscribe c) (ls, x # fs) =
     (if unat c < length ls then Some ((ls[unat c := x # ls ! unat c], fs), []) else None)"
| "tab_step (Subscribe c) (ls, []) = None"
| "tab_step (Unsubscribe b) (ls, fs) =
     (if b \<in> \<Union> (set ` set ls) then Some ((map (remove1 b) ls, fs @ [b]), []) else None)"
| "tab_step (Post c d) (ls, fs) =
     (if unat c < length ls then Some ((ls, fs), map (\<lambda>b. (b, c, d)) (ls ! unat c)) else None)"

fun tab_run :: "nt_op list \<Rightarrow> nt_table \<Rightarrow> (nt_table \<times> (addr \<times> u32 \<times> addr) list) option" where
  "tab_run [] t = Some (t, [])"
| "tab_run (op # ops) t =
     (case tab_step op t of
        None \<Rightarrow> None
      | Some (t', cs) \<Rightarrow> map_option (\<lambda>(t'', cs'). (t'', cs @ cs')) (tab_run ops t'))"

definition nt_step ::
  "nt_op \<Rightarrow> notifier \<times> notifier_mem \<Rightarrow> ((notifier \<times> notifier_mem) \<times> nt_call list) option" where
  "nt_step op s =
     (case (op, s) of
        (Subscribe c, n, M) \<Rightarrow>
          (case notifier_allocate_notification_block (Some n) zero_timespec [] M of
             Some (Inr (b, n1, M1)) \<Rightarrow>
               (case notifier_register_notification_block (Some n1) c b M1 of
                  Inr (True, n2, M2) \<Rightarrow> Some ((n2, M2), [])
                | _ \<Rightarrow> None)
           | _ \<Rightarrow> None)
      | (Unsubscribe b, n, M) \<Rightarrow>
          (case notifier_deregister_notification_block (Some n) b M of
             Inr (n1, M1, _) \<Rightarrow> Some ((n1, M1), [])
           | _ \<Rightarrow> None)
      | (Post c d, n, M) \<Rightarrow>
          (case notifier_post_notification (Some n) c d M of
             Some (Inr cs) \<Rightarrow> Some ((n, M), cs)
           | _ \<Rightarrow> None))"

fun nt_run ::
  "nt_op list \<Rightarrow> notifier \<times> notifier_mem \<Rightarrow> ((notifier \<times> notifier_mem) \<times> nt_call list) option" where
  "nt_run [] s = Some (s, [])"
| "nt_run (op # ops) s =
     (case nt_step op s of
        None \<Rightarrow> None
      | Some (s', cs) \<Rightarrow> map_option (\<lambda>(s'', cs'). (s'', cs @ cs')) (nt_run ops s'))"

lemma remove1_table:
  assumes "nt_rep B n M ls fs" and "c < length ls" and "b \<in> set (ls ! c)"
  shows "map (remove1 b) ls = ls[c := remove1 b (ls ! c)]"
proof (rule nth_equalityI)
  fix i assume i: "i < length (map (remove1 b) ls)"
  show "map (remove1 b) ls ! i = ls[c := remove1 b (ls ! c)] ! i"
    using i nt_rep_disjoint [OF assms(1) _ assms(2) _ assms(3), of i]
    by (cases "i = c") (auto intro!: remove1_idem)
qed simp

text \<open>One step of the code is one step of the table.\<close>

lemma nt_step_refines:
  assumes rep: "nt_rep B n M ls fs" and bud: "nt_budget (Suc k) n" and ex: "execute_f n \<noteq> NULL"
    and step: "tab_step op (ls, fs) = Some ((ls', fs'), cs)"
  shows "\<exists>n' M'. nt_step op (n, M) = Some ((n', M'), map (Pair (execute_f n)) cs) \<and>
    nt_rep B n' M' ls' fs' \<and> nt_budget k n' \<and> execute_f n' = execute_f n"
proof (cases op)
  case (Subscribe c)
  then obtain x where fs: "fs = x # fs'" and c: "unat c < length ls"
    and ls': "ls' = ls[unat c := x # ls ! unat c]" and cs: "cs = []"
    using step by (cases fs) (auto split: if_splits)
  obtain n1 M1 where a:
    "notifier_allocate_notification_block (Some n) zero_timespec [] M = Some (Inr (x, n1, M1))"
    "nt_rep B n1 M1 ls fs'" "next_of (links M1) x = NULL" "x \<in> B" "x \<notin> set fs'"
    "\<And>d. d < length ls \<Longrightarrow> x \<notin> set (ls ! d)" "\<And>k. nt_budget k n \<Longrightarrow> nt_budget k n1"
    "execute_f n1 = execute_f n"
    using notifier_allocate_ok [OF rep [unfolded fs]] by metis
  obtain n2 M2 where r: "notifier_register_notification_block (Some n1) c x M1 = Inr (True, n2, M2)"
    "nt_rep B n2 M2 ls' fs'" "nt_pool n2 = nt_pool n1" "execute_f n2 = execute_f n1"
    using notifier_register_ok [OF a(2) c a(4,5,6,3)] ls' by metis
  have "nt_budget k n1" using a(7) [OF bud] by (auto simp: nt_budget_def pool_budget_def)
  then show ?thesis using Subscribe a r cs by (simp add: nt_step_def nt_budget_def)
next
  case (Unsubscribe b)
  then have "b \<in> \<Union> (set ` set ls)" and ls': "ls' = map (remove1 b) ls" and fs': "fs' = fs @ [b]"
    and cs: "cs = []"
    using step by (auto split: if_splits)
  then obtain l where "l \<in> set ls" "b \<in> set l" by auto
  then obtain c where c: "c < length ls" and bc: "b \<in> set (ls ! c)" by (metis in_set_conv_nth)
  then obtain as bs where b: "ls ! c = as @ b # bs" "b \<notin> set as" by (metis split_list_first)
  then have "ls' = ls[c := as @ bs]"
    using remove1_table [OF rep c bc] ls' by (simp add: remove1_append)
  with notifier_deregister_ok [OF rep c b(1) bud] fs' obtain n1 M1 cs'
    where "notifier_deregister_notification_block (Some n) b M = Inr (n1, M1, cs')"
      "nt_rep B n1 M1 ls' fs'" "nt_budget k n1" "execute_f n1 = execute_f n" by metis
  then show ?thesis using Unsubscribe cs by (simp add: nt_step_def)
next
  case (Post c d)
  then have c: "unat c < length ls" and e: "ls' = ls" "fs' = fs"
    "cs = map (\<lambda>b. (b, c, d)) (ls ! unat c)"
    using step by (auto split: if_splits)
  have "nt_budget k n" using bud by (auto simp: nt_budget_def pool_budget_def)
  then show ?thesis
    using Post e rep notifier_post_ok [OF rep c ex] by (simp add: nt_step_def comp_def)
qed

lemma nt_run_refines:
  assumes "nt_rep B n M ls fs" and "nt_budget (length ops) n" and "execute_f n \<noteq> NULL"
    and "tab_run ops (ls, fs) = Some ((ls', fs'), cs)"
  shows "\<exists>n' M'. nt_run ops (n, M) = Some ((n', M'), map (Pair (execute_f n)) cs) \<and>
    nt_rep B n' M' ls' fs'"
  using assms
proof (induction ops arbitrary: n M ls fs cs)
  case Nil
  then show ?case by auto
next
  case (Cons op ops)
  from Cons.prems(4) obtain l1 f1 c1 c2 where s: "tab_step op (ls, fs) = Some ((l1, f1), c1)"
    and t: "tab_run ops (l1, f1) = Some ((ls', fs'), c2)" and cs: "cs = c1 @ c2"
    by (auto split: option.splits)
  have "nt_budget (Suc (length ops)) n" using Cons.prems(2) by simp
  from nt_step_refines [OF Cons.prems(1) this Cons.prems(3) s] obtain n1 M1
    where st: "nt_step op (n, M) = Some ((n1, M1), map (Pair (execute_f n)) c1)"
      "nt_rep B n1 M1 l1 f1" "nt_budget (length ops) n1" "execute_f n1 = execute_f n" by auto
  with Cons.IH [OF st(2,3) _ t] Cons.prems(3) obtain n' M'
    where "nt_run ops (n1, M1) = Some ((n', M'), map (Pair (execute_f n)) c2)"
      "nt_rep B n' M' ls' fs'" by auto
  then show ?case using st cs by simp
qed

section \<open>Properties\<close>

text \<open>
  C11: (refinement) From \<open>notifier_init\<close> on, any sequence of subscriptions, unsubscriptions and posts that
  the table of subscribers allows runs without a fault, and makes exactly the calls of the table: a post
  calls every block of its category once, newest first, and no block of another category.
\<close>

theorem notifier_refines_table:
  assumes "np_notifier ps \<noteq> None" and "np_notif_array ps = Some arr"
    and "length arr = unat (np_total_categories ps)" and "pool_params_ok (np_pool_params ps)"
    and "np_execute_f ps \<noteq> NULL" and "length ops < 2 ^ 63"
    and "tab_run ops (replicate (length arr) [], pool_blocks (np_pool_params ps)) = Some (t, cs)"
  shows "\<exists>n M1 n' M'. notifier_init (Some ps) True True 0 0 M = Inr (True, n, M1) \<and>
    nt_run ops (n, M1) = Some ((n', M'), map (Pair (np_execute_f ps)) cs) \<and>
    nt_rep (set (pool_blocks (np_pool_params ps))) n' M' (fst t) (snd t)"
proof -
  obtain n M1 where i: "notifier_init (Some ps) True True 0 0 M = Inr (True, n, M1)"
    "nt_rep (set (pool_blocks (np_pool_params ps))) n M1 (replicate (length arr) [])
       (pool_blocks (np_pool_params ps))"
    "nt_budget (length ops) n" "execute_f n = np_execute_f ps"
    using notifier_init_ok [OF assms(1-4)] assms(6) by metis
  obtain ls fs where t: "t = (ls, fs)" by (cases t)
  from nt_run_refines [OF i(2,3) _ assms(7) [unfolded t]] i(1,4) assms(5) t show ?thesis by auto
qed

definition notifier_example_params :: notifier_create_params where
  "notifier_example_params = \<lparr>np_notifier = Some \<lparr>notif_array = [], total_notification_categories = 0,
     execute_f = 0, nt_pool = None\<rparr>, np_notif_block_size = 24, np_max_registrations = 2,
     np_notif_array = Some [7, 7], np_total_categories = 2,
     np_pool_params = pool_example_params, np_execute_f = 500\<rparr>"

theorem notifier_refines_table_witness:
  "\<exists>n M1 n' M'. notifier_init (Some notifier_example_params) True True 0 0
      \<lparr>links = \<lparr>prev_of = (\<lambda>_. 9), next_of = (\<lambda>_. 9)\<rparr>, category_of = (\<lambda>_. 0),
       blocks = \<lparr>hdr = (\<lambda>_. fresh_header), trailer = (\<lambda>_. 0)\<rparr>\<rparr> = Inr (True, n, M1) \<and>
    nt_run [Subscribe 1, Subscribe 1, Post 1 5, Unsubscribe 1032, Post 1 6, Post 0 7] (n, M1) =
      Some ((n', M'), [(500, 1080, 1, 5), (500, 1032, 1, 5), (500, 1080, 1, 6)])"
proof -
  let ?ops = "[Subscribe 1, Subscribe 1, Post 1 5, Unsubscribe 1032, Post 1 6, Post 0 7]"
  have pb: "pool_blocks (np_pool_params notifier_example_params) = [1032, 1080]"
    by (simp add: notifier_example_params_def pool_example_params_def pool_block_def
        upt_conv_Cons)
  have run: "tab_run ?ops (replicate (length [7, 7 :: addr]) [],
      pool_blocks (np_pool_params notifier_example_params)) =
    Some (([[], [1080]], [1032]), [(1080, 1, 5), (1032, 1, 5), (1080, 1, 6)])"
    unfolding pb by simp
  show ?thesis
    using notifier_refines_table [of notifier_example_params "[7, 7]" ?ops, OF _ _ _ _ _ _ run]
    by (fastforce simp: notifier_example_params_def pool_example_ok)
qed

end
