(* ===== verification/Logger.thy ===== *)
theory Logger
  imports Prelude
begin

text \<open>
  The logger of \<open>inc/cutils/logger.h\<close> and \<open>src/logger.c\<close>, and the enumeration macros of
  \<open>inc/cutils/types.h\<close>. What \<open>vsprintf\<close> makes of a format and its arguments is a parameter, the
  \<open>rendered\<close> text (\<open>None\<close>: an encoding error, the call returns -1); where the text goes, and whether it
  fits, is the code's own doing and is modelled with the bounds of the buffer.
\<close>

section \<open>Enumerations with names\<close>

text \<open>
  An enumeration declared by \<open>DECLARE_ENUM\<close> is the list of its names and values. The first function is
  a \<open>switch\<close> over the values, with the empty string as default, the second a chain of string
  comparisons, with 0 as default.
\<close>

fun get_enum_string :: "(string \<times> int) list \<Rightarrow> int \<Rightarrow> string" where
  "get_enum_string [] v = ''''"
| "get_enum_string ((name, assign) # es) v = (if assign = v then name else get_enum_string es v)"

fun get_enum_value :: "(string \<times> int) list \<Rightarrow> string \<Rightarrow> int" where
  "get_enum_value [] str = 0"
| "get_enum_value ((name, assign) # es) str = (if str = name then assign else get_enum_value es str)"

lemma get_enum_string_in: "v \<in> snd ` set es \<Longrightarrow> (get_enum_string es v, v) \<in> set es"
  by (induction es v rule: get_enum_string.induct) auto

lemma get_enum_value_in: "str \<in> fst ` set es \<Longrightarrow> (str, get_enum_value es str) \<in> set es"
  by (induction es str rule: get_enum_value.induct) auto

section \<open>State\<close>

text \<open>
  A buffer is the whole array the text goes to; functions that take a pointer into it take the index.
  A prefix function gets the private pointer, the buffer, the index and the size it may use.
\<close>

type_synonym ctext = "u8 list"

type_synonym prefix_f = "addr \<Rightarrow> ctext \<Rightarrow> nat \<Rightarrow> u32 \<Rightarrow> (u32 \<times> ctext) res"

record logger =
  fnPrefix :: "prefix_f option"
  isEnabled :: bool
  log_level :: u32

record simple_logger =
  sl_base :: logger
  pPrefix :: ctext

section \<open>Operations\<close>

definition sprintf_at :: "ctext \<Rightarrow> nat \<Rightarrow> ctext \<Rightarrow> ctext res" where
  "sprintf_at buf i s = memcpy_to buf i (s @ [0])"

text \<open>The conversion \<open>PRIu32\<close>.\<close>

fun decimal :: "nat \<Rightarrow> ctext" where
  "decimal n = (if n < 10 then [of_nat (48 + n)] else decimal (n div 10) @ [of_nat (48 + n mod 10)])"

declare decimal.simps [simp del]

abbreviation literal :: "string \<Rightarrow> ctext" where
  "literal s \<equiv> map of_char s"

text \<open>\<open>INSERT_TO_STRING\<close>: the buffer and the new count of characters.\<close>

definition insert_to_string :: "ctext \<Rightarrow> nat \<Rightarrow> u32 \<Rightarrow> ctext \<Rightarrow> (u32 \<times> ctext) res" where
  "insert_to_string buf p n_written s =
     bind_res (sprintf_at buf (p + unat n_written) s) (\<lambda>buf'.
       Inr (n_written + of_nat (length s), buf'))"

definition SimpleLoggerPrefix :: "ctext \<Rightarrow> prefix_f" where
  "SimpleLoggerPrefix prefix p_private buf p string_size =
     bind_res (sprintf_at buf p prefix) (\<lambda>buf'. Inr (of_nat (length prefix), buf'))"

definition simple_logger_init :: "ctext \<Rightarrow> bool \<Rightarrow> simple_logger" where
  "simple_logger_init prefix enabled =
     \<lparr>sl_base = \<lparr>fnPrefix = Some (SimpleLoggerPrefix prefix), isEnabled = enabled, log_level = 0\<rparr>,
      pPrefix = prefix\<rparr>"

text \<open>The inner result tells whether the function returns before the text is written.\<close>

definition logger_write_string ::
  "logger \<Rightarrow> addr \<Rightarrow> ctext \<Rightarrow> ctext \<Rightarrow> nat \<Rightarrow> u32 \<Rightarrow> ctext option \<Rightarrow> (u32 \<times> ctext) res" where
  "logger_write_string p_logger p_private fmt buf p buffer_size rendered =
     (if length fmt < unat ((buffer_size - 1) div 2)
      then bind_res
        (case fnPrefix p_logger of
           None \<Rightarrow> Inr (0, buf, False)
         | Some f \<Rightarrow>
             bind_res (f p_private buf p (buffer_size - of_nat (length fmt))) (\<lambda>(n, buf1).
               let index = n
               in if index < buffer_size - 2
                  then bind_res (memcpy_to buf1 (p + unat index) [0x3A, 0x20]) (\<lambda>buf2.
                         Inr (index + 2, buf2, False))
                  else Inr (index, buf1, True)))
        (\<lambda>(index, buf1, returned).
           if returned then Inr (index, buf1)
           else (case rendered of
                   Some s \<Rightarrow> bind_res (sprintf_at buf1 (p + unat index) s) (\<lambda>buf2.
                               Inr (index + of_nat (length s), buf2))
                 | None \<Rightarrow> Inr (index - 1, buf1)))
      else Inr (0, buf))"

definition LOG_LINE :: nat where
  "LOG_LINE = 512"

text \<open>
  \<open>stamp\<close> is the rendered time, \<open>buf\<close> the contents of the array on entry; the result is what \<open>debugf\<close> is
  given, if it is called.
\<close>

definition console_log ::
  "logger option \<Rightarrow> addr \<Rightarrow> ctext \<Rightarrow> ctext option \<Rightarrow> ctext \<Rightarrow> ctext \<Rightarrow> ctext option res" where
  "console_log lg p_private str rendered stamp buf =
     (case lg of
        Some l \<Rightarrow>
          if isEnabled l
          then bind_res (sprintf_at buf 0 stamp) (\<lambda>buf1.
            let index = length stamp
            in bind_res (logger_write_string l p_private str buf1 index
                           (of_nat LOG_LINE - of_nat index) rendered) (\<lambda>(bytes_written, buf2).
               bind_res (sprintf_at buf2 (index + unat bytes_written) [0x0A]) (\<lambda>buf3.
               Inr (Some (takeWhile (\<lambda>c. c \<noteq> 0) buf3)))))
          else Inr None
      | None \<Rightarrow> Inr None)"

section \<open>Where the text goes\<close>

lemma decimal_length: "n < 10 ^ Suc k \<Longrightarrow> length (decimal n) \<le> Suc k"
proof (induction k arbitrary: n)
  case 0
  then show ?case by (subst decimal.simps) simp
next
  case (Suc k)
  have "n div 10 < 10 ^ Suc k" using Suc.prems by (simp add: div_less_iff_less_mult mult.commute)
  from Suc.IH [OF this] show ?case by (subst decimal.simps) simp
qed

lemma decimal_u32: "length (decimal (unat (x :: u32))) \<le> 10"
proof -
  have "unat x < 2 ^ 32" using unsigned_less [of x] by simp
  then have "unat x < 10 ^ Suc 9" by simp
  from decimal_length [OF this] show ?thesis by simp
qed

lemma splice_append:
  assumes "length xs + length ys \<le> length buf" and "take (length xs) buf = xs"
  shows "take (length xs + length ys) (splice buf (length xs) ys) = xs @ ys"
  using assms by (simp add: splice_def)

lemma take_splice_prefix: "n \<le> i \<Longrightarrow> i \<le> length buf \<Longrightarrow> take n (splice buf i ys) = take n buf"
  by (simp add: splice_def min_def)

text \<open>A written text followed by its terminating null character.\<close>

lemma sprintf_at_ok:
  assumes "length xs + length s < length buf" and "take (length xs) buf = xs"
  obtains buf' where "sprintf_at buf (length xs) s = Inr buf'" "length buf' = length buf"
    "take (length xs + length s) buf' = xs @ s" "buf' ! (length xs + length s) = 0"
proof -
  let ?b = "splice buf (length xs) (s @ [0])"
  have "sprintf_at buf (length xs) s = Inr ?b" using assms by (simp add: sprintf_at_def)
  moreover have t: "take (length xs + length (s @ [0 :: u8])) ?b = xs @ s @ [0]"
    using assms by (intro splice_append) simp_all
  moreover have "take (length xs + length s) ?b = xs @ s"
    using arg_cong [OF t, of "take (length xs + length s)"] by simp
  moreover have "?b ! (length xs + length s) = 0"
    using arg_cong [OF t, of "\<lambda>l. l ! (length xs + length s)"] by (simp add: nth_append)
  moreover have "length ?b = length buf" using assms by simp
  ultimately show ?thesis by (intro that)
qed

lemma takeWhile_line:
  assumes "take n b = xs" and "n < length b" and "b ! n = 0" and "0 \<notin> set xs"
  shows "takeWhile (\<lambda>c. c \<noteq> 0) b = xs"
proof -
  obtain ys where "b = xs @ 0 # ys" using id_take_nth_drop [OF assms(2)] assms(1,3) by metis
  moreover have "takeWhile (\<lambda>c. c \<noteq> 0) (xs @ 0 # ys) = xs"
    using assms(4) by (subst takeWhile_append2) auto
  ultimately show ?thesis by simp
qed

lemma logger_write_string_ok:
  assumes "fnPrefix l = Some (SimpleLoggerPrefix pre)"
    and "take (length st) buf = st" and "length buf = length st + unat sz"
    and "length fmt < unat ((sz - 1) div 2)" and "length pre + length s + 3 \<le> unat sz"
  obtains buf' where
    "logger_write_string l priv fmt buf (length st) sz (Some s) = Inr (of_nat (length pre + 2 + length s), buf')"
    "length buf' = length buf"
    "take (length st + length pre + 2 + length s) buf' = st @ pre @ [0x3A, 0x20] @ s"
proof -
  obtain b1 where b1: "sprintf_at buf (length st) pre = Inr b1" "length b1 = length buf"
    "take (length st + length pre) b1 = st @ pre"
    using sprintf_at_ok [of st pre buf] assms by auto
  let ?b2 = "splice b1 (length (st @ pre)) [0x3A, 0x20 :: u8]"
  have t2: "take (length (st @ pre) + length [0x3A, 0x20 :: u8]) ?b2 = (st @ pre) @ [0x3A, 0x20]"
    using b1 assms(3,5) by (intro splice_append) simp_all
  obtain b3 where b3: "sprintf_at ?b2 (length (st @ pre @ [0x3A, 0x20 :: u8])) s = Inr b3"
    "length b3 = length ?b2"
    "take (length (st @ pre @ [0x3A, 0x20 :: u8]) + length s) b3 = (st @ pre @ [0x3A, 0x20]) @ s"
    using sprintf_at_ok [of "st @ pre @ [0x3A, 0x20]" s ?b2] t2 b1(2) assms(3,5) by auto
  have szb: "unat sz < 2 ^ 32" using unat_u32_bound [of sz] by simp
  have n: "unat (of_nat (length pre) :: u32) = length pre" using assms(5) szb by (simp add: unat_of_nat)
  have sz2: "unat (sz - 2) = unat sz - 2" using assms(5) by (simp add: unat_diff_fits)
  have lt: "of_nat (length pre) < sz - 2" using n sz2 assms(5) by (simp add: word_less_nat_alt)
  have n2: "unat (of_nat (length pre) + 2 :: u32) = length pre + 2"
    using unat_add_fits [of "of_nat (length pre) :: u32" 2] n assms(5) szb by simp
  have m: "memcpy_to b1 (length st + length pre) [0x3A, 0x20] = Inr ?b2"
    using b1(2) assms(3,5) by (simp add: memcpy_to_def)
  have "logger_write_string l priv fmt buf (length st) sz (Some s) =
      Inr (of_nat (length pre + 2 + length s), b3)"
    unfolding logger_write_string_def
    using assms(1,4) b1(1) lt n n2 m b3(1) by (simp add: SimpleLoggerPrefix_def Let_def add_ac)
  then show ?thesis using that b1(2) b3 assms(3,5) by (simp add: add_ac)
qed

lemma console_log_prints:
  assumes "isEnabled l" and "fnPrefix l = Some (SimpleLoggerPrefix pre)" and "length buf = 512"
    and "length fmt < (511 - length stamp) div 2"
    and "length stamp + length pre + length s + 4 \<le> 512"
    and "0 \<notin> set stamp" and "0 \<notin> set pre" and "0 \<notin> set s"
  shows "console_log (Some l) priv fmt (Some s) stamp buf =
    Inr (Some (stamp @ pre @ [0x3A, 0x20] @ s @ [0x0A]))"
proof -
  let ?sz = "of_nat LOG_LINE - of_nat (length stamp) :: u32"
  obtain b1 where b1: "sprintf_at buf 0 stamp = Inr b1" "length b1 = 512" "take (length stamp) b1 = stamp"
    using sprintf_at_ok [of "[]" stamp buf] assms(3,5) by auto
  have l: "unat (of_nat (length stamp) :: u32) = length stamp" using assms(5) by (simp add: unat_of_nat)
  have sz: "unat ?sz = 512 - length stamp"
    using unat_diff_fits [of "of_nat (length stamp) :: u32" "of_nat LOG_LINE"] l assms(5)
    by (simp add: LOG_LINE_def)
  have h: "unat ((?sz - 1) div 2) = (511 - length stamp) div 2"
    using unat_diff_fits [of 1 ?sz] sz assms(5) by (simp add: unat_div_distrib)
  have len: "length b1 = length stamp + unat ?sz" using b1(2) sz assms(5) by simp
  have fmt: "length fmt < unat ((?sz - 1) div 2)" using h assms(4) by simp
  have fits: "length pre + length s + 3 \<le> unat ?sz" using sz assms(5) by simp
  obtain b2 where b2: "logger_write_string l priv fmt b1 (length stamp) ?sz (Some s) =
      Inr (of_nat (length pre + 2 + length s), b2)" "length b2 = length b1"
    "take (length stamp + length pre + 2 + length s) b2 = stamp @ pre @ [0x3A, 0x20] @ s"
    by (rule logger_write_string_ok [OF assms(2) b1(3) len fmt fits])
  let ?line = "stamp @ pre @ [0x3A, 0x20 :: u8] @ s"
  obtain b3 where b3: "sprintf_at b2 (length ?line) [0x0A] = Inr b3" "length b3 = length b2"
    "take (length ?line + length [0x0A :: u8]) b3 = ?line @ [0x0A]" "b3 ! (length ?line + length [0x0A :: u8]) = 0"
    using sprintf_at_ok [of ?line "[0x0A]" b2] b2 b1(2) assms(5) by (auto simp: add_ac)
  have "takeWhile (\<lambda>c. c \<noteq> 0) b3 = ?line @ [0x0A]"
    using b3(3,4) b3(2) b2(2) b1(2) assms(5-8) by (intro takeWhile_line) auto
  moreover have "unat (of_nat (length pre + 2 + length s) :: u32) = length pre + 2 + length s"
    using assms(5) unfolding unat_of_nat by (intro mod_less) simp
  ultimately show ?thesis
    using assms(1) b1(1) b2(1) b3(1) by (simp add: console_log_def Let_def add_ac)
qed

section \<open>Properties\<close>

text \<open>
  (roundtrip) An enumeration whose names and values are distinct is read back from its strings and
  printed back from its values; an unknown string gives 0 and an unknown value the empty string.
\<close>

theorem enum_string_roundtrip:
  assumes "distinct (map fst es)" and "distinct (map snd es)"
  shows "(\<forall>v \<in> snd ` set es. get_enum_value es (get_enum_string es v) = v) \<and>
    (\<forall>n \<in> fst ` set es. get_enum_string es (get_enum_value es n) = n) \<and>
    (\<forall>n. n \<notin> fst ` set es \<longrightarrow> get_enum_value es n = 0)"
proof (intro conjI ballI allI impI)
  fix v assume v: "v \<in> snd ` set es"
  have i: "(get_enum_string es v, v) \<in> set es" using v by (rule get_enum_string_in)
  then have "(get_enum_string es v, get_enum_value es (get_enum_string es v)) \<in> set es"
    by (intro get_enum_value_in) force
  with i show "get_enum_value es (get_enum_string es v) = v"
    using assms(1) by (metis eq_key_imp_eq_value)
next
  fix n assume n: "n \<in> fst ` set es"
  have i: "(n, get_enum_value es n) \<in> set es" using n by (rule get_enum_value_in)
  then have j: "(get_enum_string es (get_enum_value es n), get_enum_value es n) \<in> set es"
    by (intro get_enum_string_in) force
  have "inj_on snd (set es)" using assms(2) by (simp add: distinct_map)
  from inj_onD [OF this _ j i] show "get_enum_string es (get_enum_value es n) = n" by simp
next
  fix n assume "n \<notin> fst ` set es"
  then show "get_enum_value es n = 0" by (induction es n rule: get_enum_value.induct) auto
qed

theorem enum_string_roundtrip_witness:
  "get_enum_value [(''A'', 0), (''B'', 1), (''C'', 4)] (get_enum_string [(''A'', 0), (''B'', 1), (''C'', 4)] 4) = 4 \<and>
    get_enum_value [(''A'', 0), (''B'', 1), (''C'', 4)] ''D'' = 0"
  using enum_string_roundtrip [of "[(''A'', 0), (''B'', 1), (''C'', 4)]"] by simp

text \<open>
  (functional) A message whose format is shorter than half of the space left, and whose text fits,
  is printed as one line: the time, the prefix, a colon and a space, the text and a line end.
\<close>

theorem console_log_line:
  assumes "isEnabled l" and "fnPrefix l = Some (SimpleLoggerPrefix pre)" and "length buf = 512"
    and "length fmt < (511 - length stamp) div 2"
    and "length stamp + length pre + length s + 4 \<le> 512"
    and "0 \<notin> set stamp" and "0 \<notin> set pre" and "0 \<notin> set s"
  shows "console_log (Some l) priv fmt (Some s) stamp buf =
    Inr (Some (stamp @ pre @ [0x3A, 0x20] @ s @ [0x0A]))"
  by (rule console_log_prints [OF assms])

theorem console_log_line_witness:
  "console_log (Some (sl_base (simple_logger_init [0x67] True))) 0 [0x25, 0x73] (Some [0x68, 0x69]) [0x5B, 0x5D]
     (replicate 512 0x7F) = Inr (Some [0x5B, 0x5D, 0x67, 0x3A, 0x20, 0x68, 0x69, 0x0A])"
  using console_log_line [of "sl_base (simple_logger_init [0x67] True)" "[0x67]" "replicate 512 0x7F"
      "[0x25, 0x73]" "[0x5B, 0x5D]" "[0x68, 0x69]" 0]
  by (simp add: simple_logger_init_def)

text \<open>
  (bounds) Only the format is measured: a short format whose text is longer than the space left, for
  instance \<open>%s\<close> with a long string, is written past the end of the line buffer.
\<close>

theorem console_log_overflow:
  assumes "isEnabled l" and "fnPrefix l = None" and "length buf = 512" and "length stamp < 512"
    and "length fmt < (511 - length stamp) div 2" and "512 \<le> length stamp + length s"
  shows "console_log (Some l) priv fmt (Some s) stamp buf = Inl Out_Of_Bounds"
proof -
  let ?sz = "of_nat LOG_LINE - of_nat (length stamp) :: u32"
  have l: "unat (of_nat (length stamp) :: u32) = length stamp" using assms(4) by (simp add: unat_of_nat)
  have sz: "unat ?sz = 512 - length stamp"
    using unat_diff_fits [of "of_nat (length stamp) :: u32" "of_nat LOG_LINE"] l assms(4)
    by (simp add: LOG_LINE_def)
  have "unat ((?sz - 1) div 2) = (511 - length stamp) div 2"
    using unat_diff_fits [of 1 ?sz] sz assms(4) by (simp add: unat_div_distrib)
  then show ?thesis
    using assms by (simp add: console_log_def logger_write_string_def sprintf_at_def memcpy_to_def Let_def)
qed

theorem console_log_overflow_witness:
  "console_log (Some \<lparr>fnPrefix = None, isEnabled = True, log_level = 0\<rparr>) 0 [0x25, 0x73]
     (Some (replicate 600 0x41)) [0x5B, 0x5D] (replicate 512 0) = Inl Out_Of_Bounds"
  by (rule console_log_overflow) simp_all

end
