(* ===== verification/State_Machine.thy ===== *)
theory State_Machine
  imports Logger
begin

text \<open>
  The state machines of \<open>inc/cutils/state.h\<close>, \<open>inc/cutils/state_machine.h\<close> and
  \<open>src/state_machine.c\<close>: states with their functions, registration, start, stop, event handling and
  transitions.
\<close>

section \<open>State\<close>

text \<open>
  Machines and states are objects in memory, named by their address. A function of a state is a
  function pointer, an address; what the client's code at that address does is the parameter
  \<open>callbacks\<close>. It acts on the whole world, since the functions are given the machine and the state and
  may call the operations of this theory.
\<close>

record sm_state =
  stateId :: u32
  state_name :: ctext
  f_init :: addr
  f_enter :: addr
  f_exit :: addr
  f_valid_event :: addr
  f_handle_event :: addr
  st_p_sm :: addr
  entered_once :: bool

record state_machine =
  p_name :: ctext
  num_of_states :: u32
  current_state :: addr
  sm_states :: "addr list"
  transition_requested :: bool
  next_state_requested :: u32
  p_private :: addr
  state_machine_started :: bool
  start_state_id :: u32
  sm_log_enabled :: bool
  sm_log_level :: u32

record state_machine_create_params =
  sc_state_mac :: addr
  sc_name :: ctext
  sc_private_client_data :: addr
  sc_start_state_id :: u32
  sc_should_log :: bool
  sc_log_level :: u32

record 'c sm_world =
  w_sm :: "addr \<Rightarrow> state_machine"
  w_state :: "addr \<Rightarrow> sm_state"
  w_client :: 'c

text \<open>
  The arguments of a call: the function pointer, the machine, the state, and the event where there is
  one.
\<close>

record 'c callbacks =
  cb_call :: "addr \<Rightarrow> addr \<Rightarrow> addr \<Rightarrow> 'c sm_world \<Rightarrow> 'c sm_world res"
  cb_valid :: "addr \<Rightarrow> addr \<Rightarrow> addr \<Rightarrow> addr \<Rightarrow> 'c sm_world \<Rightarrow> (bool \<times> 'c sm_world) res"
  cb_handle :: "addr \<Rightarrow> addr \<Rightarrow> addr \<Rightarrow> addr \<Rightarrow> 'c sm_world \<Rightarrow> (u32 \<times> 'c sm_world) res"

definition STATE_MAC_MAX_STATES :: nat where
  "STATE_MAC_MAX_STATES = 20"

definition set_sm :: "addr \<Rightarrow> state_machine \<Rightarrow> 'c sm_world \<Rightarrow> 'c sm_world" where
  "set_sm p sm w = w\<lparr>w_sm := (w_sm w)(p := sm)\<rparr>"

definition set_state :: "addr \<Rightarrow> sm_state \<Rightarrow> 'c sm_world \<Rightarrow> 'c sm_world" where
  "set_state p st w = w\<lparr>w_state := (w_state w)(p := st)\<rparr>"

lemma set_sm_simps [simp]:
  "w_sm (set_sm p sm w) = (w_sm w)(p := sm)" "w_state (set_sm p sm w) = w_state w"
  "w_client (set_sm p sm w) = w_client w"
  by (simp_all add: set_sm_def)

lemma set_state_simps [simp]:
  "w_sm (set_state p st w) = w_sm w" "w_state (set_state p st w) = (w_state w)(p := st)"
  "w_client (set_state p st w) = w_client w"
  by (simp_all add: set_state_def)

text \<open>A call through a function pointer.\<close>

definition call_state ::
  "'c callbacks \<Rightarrow> addr \<Rightarrow> addr \<Rightarrow> addr \<Rightarrow> 'c sm_world \<Rightarrow> 'c sm_world res" where
  "call_state cb f sm st w = (if f = NULL then Inl Null_Call else cb_call cb f sm st w)"

section \<open>Operations\<close>

definition NoState :: ctext where
  "NoState = [0x4E, 0x6F, 0x53, 0x74, 0x61, 0x74, 0x65]"

definition StateMachinePrefix :: "'c sm_world \<Rightarrow> prefix_f" where
  "StateMachinePrefix w priv str p str_size =
     (let sm = w_sm w priv;
          st = (if current_state sm \<noteq> NULL then state_name (w_state w (current_state sm)) else NoState)
      in insert_to_string str p 0 (p_name sm @ [0x3A, 0x20] @ st))"

text \<open>The machine after \<open>memset\<close>.\<close>

definition state_machine_initialize :: state_machine where
  "state_machine_initialize = \<lparr>p_name = [], num_of_states = 0, current_state = NULL,
     sm_states = replicate STATE_MAC_MAX_STATES NULL, transition_requested = False,
     next_state_requested = 0, p_private = NULL, state_machine_started = False, start_state_id = 0,
     sm_log_enabled = False, sm_log_level = 0\<rparr>"

definition state_machine_set_private_data :: "addr \<Rightarrow> addr \<Rightarrow> 'c sm_world \<Rightarrow> 'c sm_world res" where
  "state_machine_set_private_data p private w =
     (if p = NULL then Inl Assert_Failed
      else Inr (set_sm p ((w_sm w p)\<lparr>p_private := private\<rparr>) w))"

definition state_machine_get_private_data :: "addr \<Rightarrow> 'c sm_world \<Rightarrow> addr res" where
  "state_machine_get_private_data p w =
     (if p = NULL then Inl Assert_Failed else Inr (p_private (w_sm w p)))"

definition state_machine_create ::
  "state_machine_create_params option \<Rightarrow> 'c sm_world \<Rightarrow> (addr \<times> 'c sm_world) res" where
  "state_machine_create params w =
     (case params of
        None \<Rightarrow> Inl Assert_Failed
      | Some ps \<Rightarrow>
          if sc_state_mac ps = NULL then Inl Assert_Failed
          else bind_res (state_machine_set_private_data (sc_state_mac ps) (sc_private_client_data ps)
                 (set_sm (sc_state_mac ps) (state_machine_initialize\<lparr>p_name := sc_name ps,
                    sm_log_enabled := sc_should_log ps, sm_log_level := sc_log_level ps,
                    start_state_id := sc_start_state_id ps\<rparr>) w))
               (\<lambda>w'. Inr (sc_state_mac ps, w')))"

text \<open>The search loop over the state pointers.\<close>

fun find_state :: "(addr \<Rightarrow> sm_state) \<Rightarrow> u32 \<Rightarrow> addr list \<Rightarrow> addr res" where
  "find_state st i [] = Inr NULL"
| "find_state st i (p # ps) =
     (if p = NULL then Inl Null_Deref
      else if stateId (st p) = i then Inr p
      else find_state st i ps)"

definition state_machine_get_state :: "addr \<Rightarrow> u32 \<Rightarrow> 'c sm_world \<Rightarrow> addr res" where
  "state_machine_get_state p i w =
     (if p = NULL then Inl Null_Deref
      else bind_res (find_state (w_state w) i
                       (take (unat (num_of_states (w_sm w p))) (sm_states (w_sm w p))))
             (\<lambda>r. if r = NULL \<and> length (sm_states (w_sm w p)) < unat (num_of_states (w_sm w p))
                   then Inl Out_Of_Bounds else Inr r))"

definition enter_state :: "'c callbacks \<Rightarrow> addr \<Rightarrow> addr \<Rightarrow> 'c sm_world \<Rightarrow> 'c sm_world res" where
  "enter_state cb p state w =
     (if state = NULL then Inl Null_Deref
      else bind_res
        (if \<not> entered_once (w_state w state)
         then (let w1 = set_state state ((w_state w state)\<lparr>entered_once := True\<rparr>) w
               in if f_init (w_state w1 state) \<noteq> NULL
                  then call_state cb (f_init (w_state w1 state)) p state w1
                  else Inr w1)
         else Inr w)
        (\<lambda>w2. call_state cb (f_enter (w_state w2 state)) p state w2))"

definition state_machine_start :: "'c callbacks \<Rightarrow> addr \<Rightarrow> 'c sm_world \<Rightarrow> 'c sm_world res" where
  "state_machine_start cb p w =
     (if p = NULL then Inl Null_Deref
      else bind_res (state_machine_get_state p (start_state_id (w_sm w p)) w) (\<lambda>pInitialState.
        if pInitialState = NULL then Inl Assert_Failed
        else enter_state cb p pInitialState
          (set_sm p ((w_sm w p)\<lparr>current_state := pInitialState, state_machine_started := True\<rparr>) w)))"

definition state_machine_stop :: "'c callbacks \<Rightarrow> addr \<Rightarrow> 'c sm_world \<Rightarrow> 'c sm_world res" where
  "state_machine_stop cb p w =
     (if p = NULL then Inr w
      else if current_state (w_sm w p) \<noteq> NULL
      then bind_res (call_state cb (f_exit (w_state w (current_state (w_sm w p)))) p
                       (current_state (w_sm w p)) w)
             (\<lambda>w'. Inr (set_sm p ((w_sm w' p)\<lparr>current_state := NULL, transition_requested := False\<rparr>) w'))
      else Inr w)"

definition state_machine_register_state :: "addr \<Rightarrow> addr \<Rightarrow> 'c sm_world \<Rightarrow> 'c sm_world res" where
  "state_machine_register_state p state w =
     (if p \<noteq> NULL \<and> state \<noteq> NULL \<and> unat (num_of_states (w_sm w p)) < STATE_MAC_MAX_STATES
      then (let st = w_state w state; sm = w_sm w p
            in if f_enter st = NULL \<or> f_exit st = NULL \<or> f_valid_event st = NULL \<or>
                  f_handle_event st = NULL then Inl Assert_Failed
               else Inr (set_state state (st\<lparr>st_p_sm := p\<rparr>)
                      (set_sm p (sm\<lparr>sm_states := (sm_states sm)[unat (num_of_states sm) := state],
                                    num_of_states := num_of_states sm + 1\<rparr>) w)))
      else Inr w)"

definition state_machine_handle_event ::
  "'c callbacks \<Rightarrow> addr \<Rightarrow> addr \<Rightarrow> 'c sm_world \<Rightarrow> 'c sm_world res" where
  "state_machine_handle_event cb p event w =
     (if event = NULL then Inr w
      else if p = NULL then Inl Null_Deref
      else if \<not> state_machine_started (w_sm w p) then Inr w
      else let cur = current_state (w_sm w p)
           in if cur = NULL then Inl Null_Deref
              else if f_valid_event (w_state w cur) = NULL then Inl Null_Call
              else bind_res (cb_valid cb (f_valid_event (w_state w cur)) p cur event w) (\<lambda>(v, w1).
                if \<not> v then Inr w1
                else let cur1 = current_state (w_sm w1 p)
                     in if cur1 = NULL then Inl Null_Deref
                        else if f_handle_event (w_state w1 cur1) = NULL then Inl Null_Call
                        else bind_res (cb_handle cb (f_handle_event (w_state w1 cur1)) p cur1 event w1)
                          (\<lambda>(r, w2).
                             let w3 = set_sm p ((w_sm w2 p)\<lparr>next_state_requested := r\<rparr>) w2;
                                 cur2 = current_state (w_sm w3 p)
                             in if cur2 = NULL then Inl Null_Deref
                                else if next_state_requested (w_sm w3 p) \<noteq> stateId (w_state w3 cur2)
                                then Inr (set_sm p ((w_sm w3 p)\<lparr>transition_requested := True\<rparr>) w3)
                                else Inr w3)))"

definition state_machine_transition :: "'c callbacks \<Rightarrow> addr \<Rightarrow> 'c sm_world \<Rightarrow> 'c sm_world res" where
  "state_machine_transition cb p w =
     (if p = NULL then Inl Null_Deref
      else if transition_requested (w_sm w p) \<and> state_machine_started (w_sm w p)
      then (let w1 = set_sm p ((w_sm w p)\<lparr>transition_requested := False\<rparr>) w;
                cur = current_state (w_sm w1 p)
            in if cur = NULL then Inl Null_Deref
               else if stateId (w_state w1 cur) \<noteq> next_state_requested (w_sm w1 p)
               then bind_res (state_machine_get_state p (next_state_requested (w_sm w1 p)) w1)
                 (\<lambda>pNextState.
                    if pNextState = NULL then Inl Assert_Failed
                    else bind_res (call_state cb (f_exit (w_state w1 cur)) p cur w1) (\<lambda>w2.
                      let w3 = set_sm p ((w_sm w2 p)\<lparr>current_state := pNextState\<rparr>) w2
                      in enter_state cb p (current_state (w_sm w3 p)) w3))
               else Inr w1)
      else Inr w)"

section \<open>The automaton behind a machine\<close>

text \<open>
  Client functions that work on the client's data only, and do not call back into the machine.
\<close>

type_synonym 'c pure_client =
  "(addr \<Rightarrow> addr \<Rightarrow> addr \<Rightarrow> 'c \<Rightarrow> 'c) \<times> (addr \<Rightarrow> addr \<Rightarrow> addr \<Rightarrow> addr \<Rightarrow> 'c \<Rightarrow> bool \<times> 'c) \<times>
   (addr \<Rightarrow> addr \<Rightarrow> addr \<Rightarrow> addr \<Rightarrow> 'c \<Rightarrow> u32 \<times> 'c)"

definition pure_callbacks :: "'c pure_client \<Rightarrow> 'c callbacks" where
  "pure_callbacks P = (case P of (call, valid, handle) \<Rightarrow>
     \<lparr>cb_call = (\<lambda>f p q w. Inr (w\<lparr>w_client := call f p q (w_client w)\<rparr>)),
      cb_valid = (\<lambda>f p q e w. let (v, c) = valid f p q e (w_client w) in Inr (v, w\<lparr>w_client := c\<rparr>)),
      cb_handle = (\<lambda>f p q e w. let (r, c) = handle f p q e (w_client w) in Inr (r, w\<lparr>w_client := c\<rparr>))\<rparr>)"

text \<open>
  The state of the automaton: the current state, the states entered before, the client's data. A state
  is initialised when it is entered for the first time. No value: the requested state is unknown.
\<close>

type_synonym 'c auto = "addr \<times> addr set \<times> 'c"

definition auto_enter :: "'c pure_client \<Rightarrow> addr \<Rightarrow> (addr \<Rightarrow> sm_state) \<Rightarrow> addr \<Rightarrow> addr set \<Rightarrow> 'c \<Rightarrow> 'c auto" where
  "auto_enter P p st q seen c =
     (let c1 = (if q \<in> seen \<or> f_init (st q) = NULL then c else fst P (f_init (st q)) p q c)
      in (q, insert q seen, fst P (f_enter (st q)) p q c1))"

definition auto_step ::
  "'c pure_client \<Rightarrow> addr \<Rightarrow> (addr \<Rightarrow> sm_state) \<Rightarrow> addr list \<Rightarrow> addr \<Rightarrow> 'c auto \<Rightarrow> 'c auto option" where
  "auto_step P p st regs e a = (case a of (cur, seen, c) \<Rightarrow>
     (case fst (snd P) (f_valid_event (st cur)) p cur e c of
        (False, c1) \<Rightarrow> Some (cur, seen, c1)
      | (True, c1) \<Rightarrow>
          (case snd (snd P) (f_handle_event (st cur)) p cur e c1 of
             (i, c2) \<Rightarrow>
               if i = stateId (st cur) then Some (cur, seen, c2)
               else (case List.find (\<lambda>q. stateId (st q) = i) regs of
                       None \<Rightarrow> None
                     | Some q \<Rightarrow> Some (auto_enter P p st q seen (fst P (f_exit (st cur)) p cur c2))))))"

fun auto_run ::
  "'c pure_client \<Rightarrow> addr \<Rightarrow> (addr \<Rightarrow> sm_state) \<Rightarrow> addr list \<Rightarrow> addr list \<Rightarrow> 'c auto \<Rightarrow> 'c auto option" where
  "auto_run P p st regs [] a = Some a"
| "auto_run P p st regs (e # es) a =
     (case auto_step P p st regs e a of None \<Rightarrow> None | Some a' \<Rightarrow> auto_run P p st regs es a')"

text \<open>An event is handled and the transition made, as the event loop does.\<close>

definition sm_dispatch :: "'c callbacks \<Rightarrow> addr \<Rightarrow> addr \<Rightarrow> 'c sm_world \<Rightarrow> 'c sm_world res" where
  "sm_dispatch cb p e w = bind_res (state_machine_handle_event cb p e w) (state_machine_transition cb p)"

fun sm_dispatch_all :: "'c callbacks \<Rightarrow> addr \<Rightarrow> addr list \<Rightarrow> 'c sm_world \<Rightarrow> 'c sm_world res" where
  "sm_dispatch_all cb p [] w = Inr w"
| "sm_dispatch_all cb p (e # es) w = bind_res (sm_dispatch cb p e w) (sm_dispatch_all cb p es)"

section \<open>Invariant\<close>

definition callable :: "sm_state \<Rightarrow> bool" where
  "callable s \<longleftrightarrow> f_enter s \<noteq> NULL \<and> f_exit s \<noteq> NULL \<and> f_valid_event s \<noteq> NULL \<and> f_handle_event s \<noteq> NULL"

text \<open>
  \<open>sm_registered\<close>: the states \<open>regs\<close> are registered with the machine at \<open>p\<close>; \<open>seen\<close> are the entered ones.
\<close>

definition sm_registered ::
  "addr \<Rightarrow> (addr \<Rightarrow> sm_state) \<Rightarrow> addr list \<Rightarrow> addr set \<Rightarrow> 'c sm_world \<Rightarrow> bool" where
  "sm_registered p st regs seen w \<longleftrightarrow>
     p \<noteq> NULL \<and> length (sm_states (w_sm w p)) = STATE_MAC_MAX_STATES \<and>
     unat (num_of_states (w_sm w p)) = length regs \<and> length regs \<le> STATE_MAC_MAX_STATES \<and>
     take (length regs) (sm_states (w_sm w p)) = regs \<and> NULL \<notin> set regs \<and>
     (\<forall>q \<in> set regs. callable (st q)) \<and>
     w_state w = (\<lambda>q. (st q)\<lparr>entered_once := q \<in> seen\<rparr>)"

definition sm_rep ::
  "addr \<Rightarrow> (addr \<Rightarrow> sm_state) \<Rightarrow> addr list \<Rightarrow> 'c auto \<Rightarrow> 'c sm_world \<Rightarrow> bool" where
  "sm_rep p st regs a w \<longleftrightarrow> (case a of (cur, seen, c) \<Rightarrow>
     sm_registered p st regs seen w \<and> cur \<in> set regs \<and> w_client w = c \<and>
     current_state (w_sm w p) = cur \<and> state_machine_started (w_sm w p) \<and>
     \<not> transition_requested (w_sm w p))"

lemma find_state_find:
  assumes "NULL \<notin> set ps"
  shows "find_state st i ps =
    Inr (case List.find (\<lambda>q. stateId (st q) = i) ps of None \<Rightarrow> NULL | Some q \<Rightarrow> q)"
  using assms by (induction st i ps rule: find_state.induct) auto

lemma get_state_registered:
  assumes "sm_registered p st regs seen w"
  shows "state_machine_get_state p i w =
    Inr (case List.find (\<lambda>q. stateId (st q) = i) regs of None \<Rightarrow> NULL | Some q \<Rightarrow> q)"
  using assms by (simp add: sm_registered_def state_machine_get_state_def find_state_find)

lemma registeredD:
  assumes "sm_registered p st regs seen w"
  shows "p \<noteq> NULL" and "q \<in> set regs \<Longrightarrow> q \<noteq> NULL" and "q \<in> set regs \<Longrightarrow> callable (st q)"
    and "w_state w = (\<lambda>q. (st q)\<lparr>entered_once := q \<in> seen\<rparr>)"
  using assms unfolding sm_registered_def by metis+

lemma enter_state_pure:
  assumes "w_state w = (\<lambda>q. (st q)\<lparr>entered_once := q \<in> seen\<rparr>)" and "callable (st q)" and "q \<noteq> NULL"
    and "auto_enter P p st q seen (w_client w) = (q', seen', c')"
  shows "enter_state (pure_callbacks P) p q w =
    Inr (w\<lparr>w_state := (\<lambda>q. (st q)\<lparr>entered_once := q \<in> seen'\<rparr>), w_client := c'\<rparr>)"
proof (cases "q \<in> seen")
  case True
  then have "w_state w = (\<lambda>q. (st q)\<lparr>entered_once := q \<in> seen'\<rparr>)"
    using assms(1,4) by (auto simp: auto_enter_def Let_def insert_absorb)
  then show ?thesis
    using assms True
    by (auto simp: enter_state_def auto_enter_def callable_def call_state_def pure_callbacks_def Let_def
        split: prod.splits)
next
  case False
  have "(w_state w)(q := (w_state w q)\<lparr>entered_once := True\<rparr>) =
      (\<lambda>r. (st r)\<lparr>entered_once := r \<in> insert q seen\<rparr>)"
    using assms(1) by auto
  then show ?thesis
    using assms False
    by (auto simp: enter_state_def auto_enter_def callable_def call_state_def pure_callbacks_def Let_def
        set_state_def split: prod.splits)
qed

lemma no_request [simp]:
  "\<not> transition_requested sm \<Longrightarrow> sm\<lparr>next_state_requested := i, transition_requested := False\<rparr> =
     sm\<lparr>next_state_requested := i\<rparr>"
  by (cases sm) simp

text \<open>Handling latches the requested state.\<close>

lemma handle_event_pure:
  assumes rep: "sm_rep p st regs (cur, seen, c) w" and e: "e \<noteq> NULL"
    and v: "fst (snd P) (f_valid_event (st cur)) p cur e c = (v, c1)"
    and h: "snd (snd P) (f_handle_event (st cur)) p cur e c1 = (i, c2)"
  shows "state_machine_handle_event (pure_callbacks P) p e w =
    Inr (if v then set_sm p ((w_sm w p)\<lparr>next_state_requested := i,
             transition_requested := i \<noteq> stateId (st cur)\<rparr>) (w\<lparr>w_client := c2\<rparr>)
         else w\<lparr>w_client := c1\<rparr>)"
proof -
  have "cur \<noteq> NULL" "callable (st cur)"
    using rep registeredD(2,3) [of p st regs seen w cur] by (simp_all add: sm_rep_def)
  then show ?thesis
    using rep e v h
    by (cases P) (auto simp: sm_rep_def sm_registered_def callable_def state_machine_handle_event_def
        pure_callbacks_def Let_def set_sm_def)
qed

lemma transition_pure:
  assumes reg: "sm_registered p st regs seen w" and cur: "current_state (w_sm w p) = cur" "cur \<in> set regs"
    and started: "state_machine_started (w_sm w p)" and req: "transition_requested (w_sm w p)"
    and i: "next_state_requested (w_sm w p) = i" "i \<noteq> stateId (st cur)"
    and f: "List.find (\<lambda>q. stateId (st q) = i) regs = Some q"
    and a: "auto_enter P p st q seen (fst P (f_exit (st cur)) p cur (w_client w)) = (q', seen', c')"
  shows "\<exists>w'. state_machine_transition (pure_callbacks P) p w = Inr w' \<and>
    sm_rep p st regs (q', seen', c') w' \<and> (\<forall>r. r \<noteq> p \<longrightarrow> w_sm w' r = w_sm w r)"
proof -
  have q: "q \<in> set regs" using f by (auto simp: find_Some_iff)
  have nn: "cur \<noteq> NULL" "q \<noteq> NULL" "callable (st cur)" "callable (st q)" "p \<noteq> NULL"
    using registeredD(1-3) [OF reg] cur(2) q by metis+
  have qq: "q' = q" using a by (auto simp: auto_enter_def Let_def)
  let ?w1 = "set_sm p ((w_sm w p)\<lparr>transition_requested := False\<rparr>) w"
  let ?w3 = "set_sm p ((w_sm ?w1 p)\<lparr>current_state := q\<rparr>)
    (?w1\<lparr>w_client := fst P (f_exit (st cur)) p cur (w_client w)\<rparr>)"
  have reg1: "sm_registered p st regs seen ?w1" using reg by (simp add: sm_registered_def)
  have ex: "call_state (pure_callbacks P) (f_exit (w_state ?w1 cur)) p cur ?w1 =
      Inr (?w1\<lparr>w_client := fst P (f_exit (st cur)) p cur (w_client w)\<rparr>)"
    using nn reg by (cases P) (simp add: call_state_def pure_callbacks_def callable_def sm_registered_def)
  have st3: "w_state ?w3 = (\<lambda>q. (st q)\<lparr>entered_once := q \<in> seen\<rparr>)"
    using reg by (simp add: sm_registered_def)
  let ?w = "?w3\<lparr>w_state := (\<lambda>q. (st q)\<lparr>entered_once := q \<in> seen'\<rparr>), w_client := c'\<rparr>"
  have en: "enter_state (pure_callbacks P) p q ?w3 = Inr ?w"
    using a by (intro enter_state_pure [OF st3 nn(4,2)]) simp
  have "state_machine_transition (pure_callbacks P) p w = Inr ?w"
    using nn reg cur(1) started req i f en ex get_state_registered [OF reg1]
    by (simp add: state_machine_transition_def Let_def sm_registered_def)
  moreover have "sm_rep p st regs (q', seen', c') ?w" "\<forall>r. r \<noteq> p \<longrightarrow> w_sm ?w r = w_sm w r"
    using reg q qq started by (simp_all add: sm_rep_def sm_registered_def)
  ultimately show ?thesis by blast
qed

lemma sm_dispatch_pure:
  assumes rep: "sm_rep p st regs a w" and e: "e \<noteq> NULL" and step: "auto_step P p st regs e a = Some a'"
  shows "\<exists>w'. sm_dispatch (pure_callbacks P) p e w = Inr w' \<and> sm_rep p st regs a' w' \<and>
    (\<forall>r. r \<noteq> p \<longrightarrow> w_sm w' r = w_sm w r)"
proof -
  obtain cur seen c where a: "a = (cur, seen, c)" by (cases a)
  obtain v c1 where v: "fst (snd P) (f_valid_event (st cur)) p cur e c = (v, c1)" by fastforce
  obtain i c2 where h: "snd (snd P) (f_handle_event (st cur)) p cur e c1 = (i, c2)" by fastforce
  note he = handle_event_pure [OF rep [unfolded a] e v h]
  have pn: "p \<noteq> NULL" using rep a by (simp add: sm_rep_def sm_registered_def)
  consider "\<not> v" | "v" "i = stateId (st cur)" | "v" "i \<noteq> stateId (st cur)" by blast
  then show ?thesis
  proof cases
    case 3
    then obtain q where f: "List.find (\<lambda>q. stateId (st q) = i) regs = Some q"
      and a': "a' = auto_enter P p st q seen (fst P (f_exit (st cur)) p cur c2)"
      using step v h a by (auto simp: auto_step_def split: option.splits)
    let ?w = "set_sm p ((w_sm w p)\<lparr>next_state_requested := i, transition_requested := True\<rparr>)
      (w\<lparr>w_client := c2\<rparr>)"
    obtain q' seen' c' where en: "a' = (q', seen', c')" by (cases a')
    have "\<exists>w'. state_machine_transition (pure_callbacks P) p ?w = Inr w' \<and>
        sm_rep p st regs (q', seen', c') w' \<and> (\<forall>r. r \<noteq> p \<longrightarrow> w_sm w' r = w_sm ?w r)"
      using rep a a' en 3 f by (intro transition_pure [where cur = cur and i = i and q = q and seen = seen])
        (simp_all add: sm_rep_def sm_registered_def)
    then show ?thesis using he 3 en by (auto simp: sm_dispatch_def)
  qed (use he step v h a rep pn in \<open>auto simp: sm_dispatch_def state_machine_transition_def auto_step_def
      sm_rep_def sm_registered_def\<close>)
qed

lemma sm_dispatch_all_pure:
  assumes "sm_rep p st regs a w" and "NULL \<notin> set es" and "auto_run P p st regs es a = Some a'"
  shows "\<exists>w'. sm_dispatch_all (pure_callbacks P) p es w = Inr w' \<and> sm_rep p st regs a' w'"
  using assms
proof (induction es arbitrary: a w)
  case Nil
  then show ?case by simp
next
  case (Cons e es)
  then obtain a1 where s: "auto_step P p st regs e a = Some a1"
    and r: "auto_run P p st regs es a1 = Some a'" by (auto split: option.splits)
  have "e \<noteq> NULL" using Cons.prems(2) by auto
  from sm_dispatch_pure [OF Cons.prems(1) this s] obtain w1
    where w1: "sm_dispatch (pure_callbacks P) p e w = Inr w1" "sm_rep p st regs a1 w1" by blast
  from Cons.IH [OF w1(2) _ r] Cons.prems(2) w1(1) show ?case by simp
qed

section \<open>Setting a machine up\<close>

fun register_all :: "addr \<Rightarrow> addr list \<Rightarrow> 'c sm_world \<Rightarrow> 'c sm_world res" where
  "register_all p [] w = Inr w"
| "register_all p (q # qs) w = bind_res (state_machine_register_state p q w) (register_all p qs)"

definition sm_setup ::
  "'c callbacks \<Rightarrow> state_machine_create_params \<Rightarrow> addr list \<Rightarrow> 'c sm_world \<Rightarrow> 'c sm_world res" where
  "sm_setup cb ps regs w =
     bind_res (state_machine_create (Some ps) w) (\<lambda>(p, w1).
     bind_res (register_all p regs w1) (\<lambda>w2. state_machine_start cb p w2))"

text \<open>The states as the registration leaves them: it records the machine in each.\<close>

definition owned :: "addr \<Rightarrow> addr list \<Rightarrow> (addr \<Rightarrow> sm_state) \<Rightarrow> addr \<Rightarrow> sm_state" where
  "owned p regs st q = (if q \<in> set regs then (st q)\<lparr>st_p_sm := p\<rparr> else st q)"

abbreviation entered :: "(addr \<Rightarrow> sm_state) \<Rightarrow> addr set" where
  "entered st \<equiv> {q. entered_once (st q)}"

lemma owned_simps [simp]:
  "stateId (owned p regs st q) = stateId (st q)" "f_init (owned p regs st q) = f_init (st q)"
  "f_enter (owned p regs st q) = f_enter (st q)" "f_exit (owned p regs st q) = f_exit (st q)"
  "f_valid_event (owned p regs st q) = f_valid_event (st q)"
  "f_handle_event (owned p regs st q) = f_handle_event (st q)"
  "entered_once (owned p regs st q) = entered_once (st q)"
  "callable (owned p regs st q) = callable (st q)"
  by (simp_all add: owned_def callable_def)

lemma register_state_ok:
  assumes reg: "sm_registered p st regs seen w" and q: "q \<noteq> NULL" "callable (st q)"
    and room: "length regs < STATE_MAC_MAX_STATES"
  obtains w' where "state_machine_register_state p q w = Inr w'"
    "sm_registered p (st(q := (st q)\<lparr>st_p_sm := p\<rparr>)) (regs @ [q]) seen w'"
    "w_client w' = w_client w" "start_state_id (w_sm w' p) = start_state_id (w_sm w p)"
    "transition_requested (w_sm w' p) = transition_requested (w_sm w p)"
proof -
  let ?sm = "(w_sm w p)\<lparr>sm_states := (sm_states (w_sm w p))[length regs := q],
      num_of_states := num_of_states (w_sm w p) + 1\<rparr>"
  let ?w = "set_state q ((w_state w q)\<lparr>st_p_sm := p\<rparr>) (set_sm p ?sm w)"
  have n: "unat (num_of_states (w_sm w p) + 1) = Suc (length regs)"
    using reg room unat_add_fits [of "num_of_states (w_sm w p)" 1]
    by (simp add: sm_registered_def STATE_MAC_MAX_STATES_def)
  have "state_machine_register_state p q w = Inr ?w"
    using reg q room by (simp add: state_machine_register_state_def sm_registered_def callable_def Let_def)
  moreover have "sm_registered p (st(q := (st q)\<lparr>st_p_sm := p\<rparr>)) (regs @ [q]) seen ?w"
    using reg q room n by (auto simp: sm_registered_def callable_def take_Suc_conv_app_nth)
  ultimately show ?thesis by (intro that [of ?w]) simp_all
qed

lemma owned_Cons: "owned p qs (st(q := (st q)\<lparr>st_p_sm := p\<rparr>)) = owned p (q # qs) st"
  by (auto simp: owned_def)

lemma register_all_ok:
  assumes "sm_registered p st regs seen w" and "NULL \<notin> set qs" and "\<forall>q \<in> set qs. callable (st q)"
    and "length regs + length qs \<le> STATE_MAC_MAX_STATES"
  shows "\<exists>w'. register_all p qs w = Inr w' \<and> sm_registered p (owned p qs st) (regs @ qs) seen w' \<and>
    w_client w' = w_client w \<and> start_state_id (w_sm w' p) = start_state_id (w_sm w p) \<and>
    transition_requested (w_sm w' p) = transition_requested (w_sm w p)"
  using assms
proof (induction qs arbitrary: st regs w)
  case Nil
  have "owned p [] st = st" by (simp add: owned_def fun_eq_iff)
  with Nil show ?case by simp
next
  case (Cons q qs)
  have "q \<noteq> NULL" "callable (st q)" "length regs < STATE_MAC_MAX_STATES" using Cons.prems by auto
  from register_state_ok [OF Cons.prems(1) this] obtain w1
    where w1: "state_machine_register_state p q w = Inr w1"
      "sm_registered p (st(q := (st q)\<lparr>st_p_sm := p\<rparr>)) (regs @ [q]) seen w1"
      "w_client w1 = w_client w" "start_state_id (w_sm w1 p) = start_state_id (w_sm w p)"
      "transition_requested (w_sm w1 p) = transition_requested (w_sm w p)" by metis
  have "\<forall>q' \<in> set qs. callable ((st(q := (st q)\<lparr>st_p_sm := p\<rparr>)) q')"
    using Cons.prems(3) by (simp add: callable_def)
  from Cons.IH [OF w1(2) _ this, unfolded owned_Cons] Cons.prems(2,4) w1 show ?case
    by simp
qed

lemma sm_setup_ok:
  assumes p: "sc_state_mac ps = p" "p \<noteq> NULL" and n: "length regs \<le> STATE_MAC_MAX_STATES"
    and regs: "NULL \<notin> set regs" "\<forall>q \<in> set regs. callable (w_state w q)"
    and f: "List.find (\<lambda>q. stateId (w_state w q) = sc_start_state_id ps) regs = Some q0"
    and a: "auto_enter P p (owned p regs (w_state w)) q0 (entered (w_state w)) (w_client w) = a0"
  shows "\<exists>w'. sm_setup (pure_callbacks P) ps regs w = Inr w' \<and>
    sm_rep p (owned p regs (w_state w)) regs a0 w'"
proof -
  let ?st = "owned p regs (w_state w)" and ?seen = "entered (w_state w)"
  let ?sm = "state_machine_initialize\<lparr>p_name := sc_name ps, sm_log_enabled := sc_should_log ps,
      sm_log_level := sc_log_level ps, start_state_id := sc_start_state_id ps,
      p_private := sc_private_client_data ps\<rparr>"
  let ?w1 = "set_sm p ?sm w"
  have c: "state_machine_create (Some ps) w = Inr (p, ?w1)"
    using p by (simp add: state_machine_create_def state_machine_set_private_data_def set_sm_def)
  have r0: "sm_registered p (w_state w) [] ?seen ?w1"
    using p by (simp add: sm_registered_def state_machine_initialize_def)
  obtain w2 where r: "register_all p regs ?w1 = Inr w2" "sm_registered p ?st regs ?seen w2"
    "w_client w2 = w_client w" "start_state_id (w_sm w2 p) = sc_start_state_id ps"
    "\<not> transition_requested (w_sm w2 p)"
    using register_all_ok [OF r0 regs] n by (auto simp: state_machine_initialize_def)
  have q0: "q0 \<in> set regs" using f by (auto simp: find_Some_iff)
  have g: "state_machine_get_state p (sc_start_state_id ps) w2 = Inr q0"
    using get_state_registered [OF r(2)] f by simp
  have q0n: "q0 \<noteq> NULL" "callable (?st q0)" using registeredD(2,3) [OF r(2) q0] by simp_all
  let ?w3 = "set_sm p ((w_sm w2 p)\<lparr>current_state := q0, state_machine_started := True\<rparr>) w2"
  obtain q' seen' c' where a0: "a0 = (q', seen', c')" by (cases a0)
  have st3: "w_state ?w3 = (\<lambda>q. (?st q)\<lparr>entered_once := q \<in> ?seen\<rparr>)"
    using registeredD(4) [OF r(2)] by simp
  let ?w = "?w3\<lparr>w_state := (\<lambda>q. (?st q)\<lparr>entered_once := q \<in> seen'\<rparr>), w_client := c'\<rparr>"
  have en: "enter_state (pure_callbacks P) p q0 ?w3 = Inr ?w"
    using a a0 r(3) by (intro enter_state_pure [OF st3 q0n(2,1)]) simp
  have "q' = q0" using a a0 by (auto simp: auto_enter_def Let_def)
  then have "sm_rep p ?st regs a0 ?w"
    using r(2,5) q0 a0 by (simp add: sm_rep_def sm_registered_def)
  moreover have "sm_setup (pure_callbacks P) ps regs w = Inr ?w"
    using c r(1,4) g en q0n p(2) by (simp add: sm_setup_def state_machine_start_def)
  ultimately show ?thesis by blast
qed

section \<open>Properties\<close>


text \<open>
  An example: state 10 (identifier 0) accepts every event and asks for the identifier given by the
  event, state 11 (identifier 1) refuses event 9. The client's data are a record of the calls.
\<close>

definition example_client :: "addr list pure_client" where
  "example_client =
     (\<lambda>f p q c. c @ [f], \<lambda>f p q e c. (\<not> (f = 114 \<and> e = 9), c), \<lambda>f p q e c. (of_nat (e - 1), c @ [f]))"

definition example_states :: "addr \<Rightarrow> sm_state" where
  "example_states q = \<lparr>stateId = of_nat (q - 10), state_name = [], f_init = 10 * q + 1, f_enter = 10 * q + 2,
     f_exit = 10 * q + 3, f_valid_event = 10 * q + 4, f_handle_event = 10 * q + 5, st_p_sm = NULL,
     entered_once = False\<rparr>"

definition example_params :: state_machine_create_params where
  "example_params = \<lparr>sc_state_mac = 1, sc_name = [], sc_private_client_data = 0, sc_start_state_id = 0,
     sc_should_log = False, sc_log_level = 0\<rparr>"

definition example_world :: "addr list sm_world" where
  "example_world = \<lparr>w_sm = (\<lambda>_. state_machine_initialize), w_state = example_states, w_client = []\<rparr>"


text \<open>
  (error) A request for an identifier that no registered state has ends in a failed assertion before
  the current state is left; and a state beyond the twentieth is not registered, without any sign.
\<close>

theorem state_machine_unknown_state:
  assumes "sm_rep p st regs (cur, seen, c) w" and "e \<noteq> NULL"
    and "fst (snd P) (f_valid_event (st cur)) p cur e c = (True, c1)"
    and "snd (snd P) (f_handle_event (st cur)) p cur e c1 = (i, c2)"
    and "i \<notin> (\<lambda>q. stateId (st q)) ` set regs"
  shows "sm_dispatch (pure_callbacks P) p e w = Inl Assert_Failed \<and>
    (length regs = STATE_MAC_MAX_STATES \<longrightarrow> state_machine_register_state p q w = Inr w)"
proof
  have reg: "sm_registered p st regs seen w" and cur: "cur \<in> set regs" using assms(1) by (simp_all add: sm_rep_def)
  note r = registeredD [OF reg]
  have ne: "i \<noteq> stateId (st cur)" using assms(5) cur by auto
  have f: "List.find (\<lambda>q. stateId (st q) = i) regs = None" using assms(5) by (auto simp: find_None_iff)
  let ?w = "set_sm p ((w_sm w p)\<lparr>next_state_requested := i\<rparr>) (w\<lparr>w_client := c2\<rparr>)"
  have "sm_registered p st regs seen ?w" using reg by (simp add: sm_registered_def)
  from get_state_registered [OF this, of i] f
  have "state_machine_get_state p i ?w = Inr NULL" by simp
  with handle_event_pure [OF assms(1-4)] ne cur r(2) [OF cur] r(1,4) assms(1)
  show "sm_dispatch (pure_callbacks P) p e w = Inl Assert_Failed"
    by (simp add: sm_dispatch_def state_machine_transition_def Let_def sm_rep_def set_sm_def)
  show "length regs = STATE_MAC_MAX_STATES \<longrightarrow> state_machine_register_state p q w = Inr w"
    using reg by (simp add: sm_registered_def state_machine_register_state_def)
qed

text \<open>
  C40: (error) After \<open>state_machine_stop\<close> the machine still counts as started: the next event is not
  discarded, as documented, but reads through the null pointer. The same happens when a handler stops
  its machine, the way the documentation asks for (in the context in which events are handled).
\<close>

theorem state_machine_stop_then_event:
  assumes "sm_rep p st regs (cur, seen, c) w" and "e \<noteq> NULL"
    and "fst (snd P) (f_valid_event (st cur)) p cur e c = (True, c1)"
  shows "(\<exists>w'. state_machine_stop (pure_callbacks P) p w = Inr w' \<and>
      state_machine_handle_event (pure_callbacks P) p e w' = Inl Null_Deref) \<and>
    state_machine_handle_event ((pure_callbacks P)\<lparr>cb_handle := (\<lambda>f p q e w.
        bind_res (state_machine_stop (pure_callbacks P) p w) (\<lambda>w'. Inr (i, w')))\<rparr>) p e w =
      Inl Null_Deref"
proof -
  have reg: "sm_registered p st regs seen w" and cur: "cur \<in> set regs" using assms(1) by (simp_all add: sm_rep_def)
  note r = registeredD [OF reg]
  have "f_exit (st cur) \<noteq> NULL" "f_valid_event (st cur) \<noteq> NULL" "f_handle_event (st cur) \<noteq> NULL"
    using r(3) [OF cur] by (simp_all add: callable_def)
  then show ?thesis
    using assms r(1,4) r(2) [OF cur]
    by (cases P) (simp add: state_machine_stop_def state_machine_handle_event_def call_state_def
        pure_callbacks_def sm_rep_def Let_def set_sm_def)
qed

definition example_running :: "addr list sm_world" where
  "example_running = example_world\<lparr>w_sm := (\<lambda>_. state_machine_initialize\<lparr>num_of_states := 2,
     sm_states := [10, 11] @ replicate 18 0, current_state := 10, state_machine_started := True\<rparr>)\<rparr>"

lemma example_running_rep: "sm_rep 1 example_states [10, 11] (10, {}, []) example_running"
  by (auto simp: sm_rep_def sm_registered_def example_running_def example_world_def example_states_def
      STATE_MAC_MAX_STATES_def callable_def state_machine_initialize_def)

theorem state_machine_unknown_state_witness:
  "sm_dispatch (pure_callbacks example_client) 1 5 example_running = Inl Assert_Failed"
  using state_machine_unknown_state [OF example_running_rep, of 5 example_client "[]" 4 "[105]"]
  by (simp add: example_client_def example_states_def)

theorem state_machine_stop_then_event_witness:
  "\<exists>w'. state_machine_stop (pure_callbacks example_client) 1 example_running = Inr w' \<and>
    state_machine_handle_event (pure_callbacks example_client) 1 5 w' = Inl Null_Deref"
  using state_machine_stop_then_event [OF example_running_rep, of 5 example_client "[]" 0]
  by (simp add: example_client_def example_states_def)

end
