(* ===== verification/Task.thy ===== *)
theory Task
  imports Os
begin

text \<open>
  The three ports of the task: \<open>inc/cutils/pthread/task.h\<close> with \<open>src/pthread/task.c\<close>,
  \<open>inc/cutils/c11/task.h\<close> with \<open>src/c11/task.c\<close>, and \<open>inc/cutils/freertos/task.h\<close> with
  \<open>src/freertos/task.c\<close>. The threads themselves are the operating system's: a creation is the list of
  calls made and their return codes.
\<close>

section \<open>Strings\<close>

text \<open>A C string without its terminating null character; \<open>strncpy\<close> pads with null characters.\<close>

definition strncpy :: "u8 list \<Rightarrow> u8 list \<Rightarrow> nat \<Rightarrow> u8 list res" where
  "strncpy dst src n = memcpy_to dst 0 (take n src @ replicate (n - length src) 0)"

definition c_string :: "u8 list \<Rightarrow> u8 list" where
  "c_string buf = takeWhile (\<lambda>c. c \<noteq> 0) buf"

definition unknown :: "u8 list" where
  "unknown = [0x75, 0x6E, 0x6B, 0x6E, 0x6F, 0x77, 0x6E]"

lemma strncpy_ok:
  "n \<le> length dst \<Longrightarrow> strncpy dst src n = Inr (take n src @ replicate (n - length src) 0 @ drop n dst)"
  by (cases "length src \<le> n") (simp_all add: strncpy_def splice_def min_def)

section \<open>State\<close>

record task =
  tk_thread :: addr
  tk_sanity :: u32
  tk_label :: "u8 list"
  tk_func :: addr
  tk_ctx :: addr

record task_create_params =
  tc_task :: "task option"
  tc_label :: "u8 list option"
  tc_priority :: u32
  tc_func :: addr
  tc_ctx :: addr
  tc_stack :: addr
  tc_stack_size :: u32

definition TASK_SANITY :: u32 where
  "TASK_SANITY = 0xDEADBEEF"

definition zero_task :: task where
  "zero_task = \<lparr>tk_thread = NULL, tk_sanity = 0, tk_label = replicate 30 0, tk_func = NULL, tk_ctx = NULL\<rparr>"

text \<open>What a task's thread does: it records itself as the current task, calls the function, and clears
  the record; or it suspends itself.\<close>

datatype task_event = Set_Current bool | Call addr addr | Suspend

definition task_runner :: "task \<Rightarrow> task_event list" where
  "task_runner t = [Set_Current True, Call (tk_func t) (tk_ctx t), Set_Current False]"

definition thread_runner_f :: "task \<Rightarrow> task_event list" where
  "thread_runner_f t = [Set_Current True, Call (tk_func t) (tk_ctx t), Set_Current False]"

definition task_wrapper :: "task \<Rightarrow> task_event list" where
  "task_wrapper t = [Call (tk_func t) (tk_ctx t), Suspend]"

section \<open>pthread port\<close>

definition params_ok :: "task_create_params \<Rightarrow> bool" where
  "params_ok ps \<longleftrightarrow> tc_task ps \<noteq> None \<and> tc_func ps \<noteq> NULL \<and> tc_stack ps \<noteq> NULL \<and> tc_stack_size ps \<noteq> 0"

text \<open>
  Whether the task is returned, the task object after the call, and the calls made. \<open>handle\<close> is what a
  successful creation stores.
\<close>

definition pt_task_new_static ::
  "bool \<Rightarrow> create_rcs \<Rightarrow> addr \<Rightarrow> task_create_params option
    \<Rightarrow> (bool \<times> task option \<times> pthread_call list) res" where
  "pt_task_new_static realtime rcs handle create_params =
     (case create_params of
        None \<Rightarrow> Inr (False, None, [])
      | Some ps \<Rightarrow>
          if params_ok ps
          then (if rc_getstacksize rcs \<noteq> 0 then Inr (False, Some zero_task, [Attr_Init, Attr_Destroy])
                else let (rval, calls) = sched_calls realtime rcs (sint (tc_priority ps))
                     in if rval \<noteq> 0 then Inr (False, Some zero_task, Attr_Init # calls @ [Attr_Destroy])
                        else let setstack = (tc_stack ps \<noteq> NULL \<and>
                                   unat (tc_stack_size ps) \<ge> min_stack_size rcs);
                                 calls2 = (if setstack
                                   then calls @ [Attr_Setstack (tc_stack ps) (unat (tc_stack_size ps))]
                                   else calls)
                             in if setstack \<and> rc_setstack rcs \<noteq> 0
                                then Inr (False, Some zero_task, Attr_Init # calls2 @ [Attr_Destroy])
                                else let t = zero_task\<lparr>tk_ctx := tc_ctx ps, tk_func := tc_func ps,
                                           tk_thread := (if rc_create rcs = 0 then handle else NULL),
                                           tk_sanity := TASK_SANITY\<rparr>
                                     in (case tc_label ps of
                                           None \<Rightarrow> Inl Null_Deref
                                         | Some l \<Rightarrow>
                                             bind_res (strncpy (tk_label t) l (length (tk_label t) - 1))
                                               (\<lambda>lb. Inr (rc_create rcs = 0, Some (t\<lparr>tk_label := lb\<rparr>),
                                                  Attr_Init # calls2 @ [Pthread_Create, Attr_Destroy]))))
          else Inr (False, tc_task ps, []))"

definition pt_task_destroy_static :: "task option \<Rightarrow> int \<Rightarrow> unit res" where
  "pt_task_destroy_static t join_rc =
     (case t of None \<Rightarrow> Inr () | Some _ \<Rightarrow> assert_res (join_rc = 0))"

definition pt_task_start :: "task option \<Rightarrow> bool" where
  "pt_task_start t = True"

definition pt_task_get_ticks :: "timespec \<Rightarrow> u64" where
  "pt_task_get_ticks res = word_of_int (tv_sec res * 1000000000 + tv_nsec res)"

text \<open>The duration handed to \<open>nanosleep\<close>; the product is computed in 32 bits.\<close>

definition pt_task_sleep :: "u32 \<Rightarrow> timespec" where
  "pt_task_sleep ms = \<lparr>tv_sec = uint (ms div 1000), tv_nsec = uint ((ms mod 1000) * 1000000)\<rparr>"

definition pt_task_get_current_name :: "task option \<Rightarrow> u8 list \<Rightarrow> nat \<Rightarrow> u8 list res" where
  "pt_task_get_current_name current name string_len =
     (case current of
        Some t \<Rightarrow> if tk_sanity t = TASK_SANITY then strncpy name (c_string (tk_label t)) string_len
                  else strncpy name unknown string_len
      | None \<Rightarrow> strncpy name unknown string_len)"

section \<open>C11 port\<close>

definition c11_task_new_static ::
  "bool \<Rightarrow> create_rcs \<Rightarrow> addr \<Rightarrow> task_create_params option
    \<Rightarrow> (bool \<times> task option \<times> pthread_call list) res" where
  "c11_task_new_static realtime rcs handle create_params =
     (case create_params of
        None \<Rightarrow> Inr (False, None, [])
      | Some ps \<Rightarrow>
          if params_ok ps
          then (let (r, calls) = thrd_create_ex realtime rcs (sint (tc_priority ps)) (tc_stack ps)
                                   (unat (tc_stack_size ps));
                    t = zero_task\<lparr>tk_func := tc_func ps, tk_ctx := tc_ctx ps,
                          tk_thread := (if r = 0 then handle else NULL)\<rparr>
                in case tc_label ps of
                     None \<Rightarrow> Inl Null_Deref
                   | Some l \<Rightarrow>
                       bind_res (strncpy (tk_label t) l (length (tk_label t) - 1)) (\<lambda>lb.
                         Inr (r = 0, Some (t\<lparr>tk_label := lb, tk_sanity := TASK_SANITY\<rparr>), calls)))
          else Inr (False, tc_task ps, []))"

text \<open>Whether the thread is joined; the result is ignored.\<close>

definition c11_task_destroy_static :: "task option \<Rightarrow> bool" where
  "c11_task_destroy_static t = (t \<noteq> None)"

definition c11_task_start :: "task option \<Rightarrow> bool" where
  "c11_task_start t = True"

definition c11_task_get_ticks :: "timespec \<Rightarrow> u64" where
  "c11_task_get_ticks res = word_of_int (tv_sec res * 1000000000 + tv_nsec res)"

definition c11_task_sleep :: "u32 \<Rightarrow> timespec" where
  "c11_task_sleep ms = \<lparr>tv_sec = uint (ms div 1000), tv_nsec = uint ((ms mod 1000) * 1000000)\<rparr>"

definition c11_task_get_current_name :: "task option \<Rightarrow> u8 list \<Rightarrow> nat \<Rightarrow> u8 list res" where
  "c11_task_get_current_name current name string_len =
     (case current of
        Some t \<Rightarrow> if tk_sanity t = TASK_SANITY then strncpy name (c_string (tk_label t)) string_len
                  else strncpy name unknown string_len
      | None \<Rightarrow> strncpy name unknown string_len)"

section \<open>FreeRTOS port\<close>

text \<open>
  The kernel is given the function, the label, the depth of the stack in words, the priority and the
  stack; it returns a handle, \<open>NULL\<close> when the creation failed. The object is returned in either case.
\<close>

definition fr_task_new_static ::
  "(addr \<Rightarrow> u8 list option \<Rightarrow> nat \<Rightarrow> u32 \<Rightarrow> addr \<Rightarrow> addr) \<Rightarrow> nat \<Rightarrow> task_create_params option
    \<Rightarrow> (bool \<times> task option) res" where
  "fr_task_new_static create sizeof_StackType params =
     (case params of
        None \<Rightarrow> Inr (False, None)
      | Some ps \<Rightarrow>
          (case tc_task ps of
             None \<Rightarrow> Inl Null_Deref
           | Some t \<Rightarrow>
               Inr (True, Some (t\<lparr>tk_func := tc_func ps, tk_ctx := tc_ctx ps,
                 tk_thread := create (tc_func ps) (tc_label ps)
                   (unat (tc_stack_size ps) div sizeof_StackType) (tc_priority ps) (tc_stack ps)\<rparr>))))"

definition fr_task_start :: "task option \<Rightarrow> bool" where
  "fr_task_start t = True"

text \<open>The object after the call and the handle that is deleted, if any.\<close>

definition fr_task_destroy_static :: "task option \<Rightarrow> task option \<times> addr option" where
  "fr_task_destroy_static t =
     (case t of
        Some tk \<Rightarrow> if tk_thread tk \<noteq> NULL then (Some (tk\<lparr>tk_thread := NULL\<rparr>), Some (tk_thread tk))
                   else (t, None)
      | None \<Rightarrow> (None, None))"

definition fr_task_sleep :: "(u32 \<Rightarrow> u32) \<Rightarrow> u32 \<Rightarrow> u32 \<Rightarrow> u32" where
  "fr_task_sleep ms_to_ticks max_delay ms = (if ms = WAIT_FOREVER then max_delay else ms_to_ticks ms)"

definition fr_task_get_current_name :: "u8 list option \<Rightarrow> u8 list option \<Rightarrow> nat \<Rightarrow> u8 list option res" where
  "fr_task_get_current_name pcName name string_length =
     (case name of
        Some nm \<Rightarrow>
          if string_length \<noteq> 0
          then bind_res (strncpy nm (case pcName of Some c \<Rightarrow> c | None \<Rightarrow> unknown) (string_length - 1))
                 (\<lambda>nm'. if string_length - 1 < length nm' then Inr (Some (nm'[string_length - 1 := 0]))
                        else Inl Out_Of_Bounds)
          else Inr name
      | None \<Rightarrow> Inr None)"

section \<open>Properties\<close>

lemma c_string_padded:
  assumes "0 \<notin> set s"
  shows "c_string (take n s @ replicate m 0 @ rest) =
    (if m = 0 then take n s @ c_string rest else take n s)"
proof -
  have "0 \<notin> set (take n s)" using assms by (meson in_set_takeD)
  then have "takeWhile (\<lambda>c. c \<noteq> 0) (take n s @ ys) = take n s @ takeWhile (\<lambda>c. c \<noteq> 0) ys" for ys
    by (intro takeWhile_append2) auto
  then show ?thesis by (cases m) (simp_all add: c_string_def)
qed

lemma label_stored:
  assumes "0 \<notin> set l"
  obtains lb where "strncpy (replicate 30 0) l 29 = Inr lb" "c_string lb = take 29 l"
proof -
  let ?lb = "take 29 l @ replicate (29 - length l) 0 @ [0 :: u8]"
  have "strncpy (replicate 30 0) l 29 = Inr ?lb" by (simp add: strncpy_ok)
  moreover have "?lb = take 29 l @ replicate (Suc (29 - length l)) 0 @ []"
    by (simp add: replicate_append_same)
  then have "c_string ?lb = take 29 l"
    using c_string_padded [OF assms, of 29 "Suc (29 - length l)" "[]"] by simp
  ultimately show ?thesis by (intro that)
qed


definition task_example_params :: task_create_params where
  "task_example_params = \<lparr>tc_task = Some zero_task, tc_label = Some [0x61, 0x62], tc_priority = 0, tc_func = 5,
     tc_ctx = 0, tc_stack = 100, tc_stack_size = 64\<rparr>"

definition rcs_example :: create_rcs where
  "rcs_example = \<lparr>rc_getstacksize = 0, min_stack_size = 16, rc_setinheritsched = 0, rc_setschedpolicy = 0,
     rc_setschedparam = 0, rc_setstack = 0, rc_create = 0\<rparr>"


text \<open>
  (error) A buffer of exactly the length of the label or less is filled without a terminating null
  character on the pthread and C11 ports; the FreeRTOS port always terminates the name.
\<close>

theorem task_name_unterminated:
  assumes "tk_sanity t = TASK_SANITY" and "length name = n" and "0 < n" and "n \<le> length (c_string (tk_label t))"
  shows "(\<exists>name'. pt_task_get_current_name (Some t) name n = Inr name' \<and> 0 \<notin> set name') \<and>
    (\<exists>name'. fr_task_get_current_name (Some (c_string (tk_label t))) (Some name) n = Inr (Some name') \<and>
       last name' = 0)"
proof
  have "0 \<notin> set (c_string (tk_label t))" by (auto simp: c_string_def dest: set_takeWhileD)
  then have "0 \<notin> set (take n (c_string (tk_label t)))" by (meson in_set_takeD)
  then show "\<exists>name'. pt_task_get_current_name (Some t) name n = Inr name' \<and> 0 \<notin> set name'"
    using assms by (simp add: pt_task_get_current_name_def strncpy_ok)
  have "last (xs[n - 1 := 0]) = 0" if "length xs = n" for xs :: "u8 list"
    using that assms(3) by (subst last_conv_nth) auto
  then show "\<exists>name'. fr_task_get_current_name (Some (c_string (tk_label t))) (Some name) n = Inr (Some name') \<and>
      last name' = 0"
    using assms by (simp add: fr_task_get_current_name_def strncpy_ok min_def)
qed

text \<open>
  (equivalence) The C11 port and the pthread port return a task in the same cases, with the same
  function, context, label and calls of the system; a sleep lasts the requested time, in a valid
  time value.
\<close>

theorem c11_task_agrees:
  assumes "tc_label ps = Some l"
  shows "(\<exists>t1 t2 cs b. pt_task_new_static realtime rcs handle (Some ps) = Inr (b, t1, cs) \<and>
      c11_task_new_static realtime rcs handle (Some ps) = Inr (b, t2, cs) \<and> (b \<longrightarrow> t1 = t2)) \<and>
    c11_task_sleep ms = pt_task_sleep ms \<and> nanos (pt_task_sleep ms) = 1000000 * uint ms \<and>
    nsec_valid (pt_task_sleep ms)"
proof -
  have s: "pt_task_sleep ms = deadline zero_timespec ms"
    by (simp add: pt_task_sleep_def deadline_def zero_timespec_def mult.commute)
  have "nsec_valid (pt_task_sleep ms)"
    by (simp add: s nsec_valid_def deadline_nsec zero_timespec_def)
  moreover have "nanos (pt_task_sleep ms) = 1000000 * uint ms"
    unfolding s nanos_deadline by (simp add: zero_timespec_def nanos_def)
  moreover have "\<exists>lb. strncpy (replicate 30 0) l 29 = Inr lb" by (simp add: strncpy_ok)
  then have "\<exists>t1 t2 cs b. pt_task_new_static realtime rcs handle (Some ps) = Inr (b, t1, cs) \<and>
      c11_task_new_static realtime rcs handle (Some ps) = Inr (b, t2, cs) \<and> (b \<longrightarrow> t1 = t2)"
    using assms
    by (auto simp: pt_task_new_static_def c11_task_new_static_def thrd_create_ex_def thrd_defs zero_task_def
        Let_def split: prod.splits)
  ultimately show ?thesis by (simp add: c11_task_sleep_def pt_task_sleep_def)
qed

theorem c11_task_agrees_witness:
  "(\<exists>t cs. pt_task_new_static True rcs_example 7 (Some task_example_params) = Inr (True, t, cs) \<and>
     c11_task_new_static True rcs_example 7 (Some task_example_params) = Inr (True, t, cs)) \<and>
   nanos (pt_task_sleep 1500) = 1500000000"
proof -
  have "fst (projr (pt_task_new_static True rcs_example 7 (Some task_example_params)))"
    by (simp add: pt_task_new_static_def params_ok_def task_example_params_def rcs_example_def zero_task_def
        sched_calls_def strncpy_ok Let_def)
  with c11_task_agrees [of task_example_params "[0x61, 0x62]" True rcs_example 7 1500] show ?thesis
    by (auto simp: task_example_params_def)
qed

theorem task_name_unterminated_witness:
  "\<exists>name'. pt_task_get_current_name (Some (zero_task\<lparr>tk_sanity := TASK_SANITY,
      tk_label := [0x61, 0x62, 0] @ replicate 27 0\<rparr>)) [0, 0] 2 = Inr name' \<and> 0 \<notin> set name'"
  using task_name_unterminated [of "zero_task\<lparr>tk_sanity := TASK_SANITY, tk_label := [0x61, 0x62, 0] @ replicate 27 0\<rparr>"
      "[0, 0]" 2]
  by (simp add: c_string_def)

end
