(* ===== verification/Dispatch_Queue.thy ===== *)
theory Dispatch_Queue
  imports Pool Event_Flag Task Runs
begin

text \<open>
  The dispatch queue of \<open>inc/cutils/dispatch_queue.h\<close> and \<open>src/dispatch_queue.c\<close>: a worker task that
  runs the functions posted to it. The operations are given as the code has them, and then split where
  other threads can come between, to give the steps of the concurrent system.
\<close>

section \<open>State\<close>

record dispatch_queue =
  destroying :: bool
  dq_queue :: "ts_queue option"
  dq_task :: "task option"
  dq_pool :: "pool option"
  dq_label :: "u8 list option"
  dq_signal :: event_flag

record dispatch_queue_create_params =
  dp_queue :: "dispatch_queue option"
  dp_task_params :: task_create_params
  dp_pool_params :: pool_create_params
  dp_queue_params :: ts_queue_create_params

record dispatch_queue_post_data =
  pd_fn :: addr
  pd_arg1 :: addr
  pd_arg2 :: addr

text \<open>The pool's memory, and the post data at the address of each block.\<close>

record dq_mem =
  dm_blocks :: pool_mem
  dm_data :: "addr \<Rightarrow> dispatch_queue_post_data"

section \<open>Posting\<close>

text \<open>
  The two halves of \<open>dispatch_async_f\<close>: take a block and fill it, put it into the queue. Neither waits.
\<close>

definition dispatch_prepare ::
  "dispatch_queue \<Rightarrow> dispatch_queue_post_data \<Rightarrow> timespec \<Rightarrow> outcome list \<Rightarrow> dq_mem
    \<Rightarrow> (addr \<times> dispatch_queue \<times> dq_mem) res option" where
  "dispatch_prepare q d now ws m =
     map_option (\<lambda>r. bind_res r (\<lambda>(p_data, pl, pm).
       if p_data = NULL then Inl Assert_Failed
       else Inr (p_data, q\<lparr>dq_pool := pl\<rparr>, m\<lparr>dm_blocks := pm, dm_data := (dm_data m)(p_data := d)\<rparr>)))
       (pool_alloc (dq_pool q) now ws (dm_blocks m))"

definition dispatch_enqueue ::
  "dispatch_queue \<Rightarrow> addr \<Rightarrow> timespec \<Rightarrow> outcome list \<Rightarrow> dispatch_queue res option" where
  "dispatch_enqueue q p_data now ws =
     map_option (\<lambda>r. bind_res r (\<lambda>(ok, tq, _).
       if ok then Inr (q\<lparr>dq_queue := tq\<rparr>) else Inl Assert_Failed))
       (pt_ts_queue_enqueue (dq_queue q) p_data NO_SLEEP now ws)"

definition dispatch_async_f ::
  "dispatch_queue option \<Rightarrow> addr \<Rightarrow> addr \<Rightarrow> addr \<Rightarrow> timespec \<Rightarrow> outcome list \<Rightarrow> dq_mem
    \<Rightarrow> (bool \<times> dispatch_queue option \<times> dq_mem) res option" where
  "dispatch_async_f p_queue fn arg1 arg2 now ws m =
     (case p_queue of
        None \<Rightarrow> Some (Inr (False, None, m))
      | Some q \<Rightarrow>
          if \<not> destroying q
          then (case dispatch_prepare q \<lparr>pd_fn = fn, pd_arg1 = arg1, pd_arg2 = arg2\<rparr> now ws m of
                  None \<Rightarrow> None
                | Some (Inl e) \<Rightarrow> Some (Inl e)
                | Some (Inr (p_data, q1, m1)) \<Rightarrow>
                    map_option (\<lambda>r. bind_res r (\<lambda>q2. Inr (True, Some q2, m1)))
                      (dispatch_enqueue q1 p_data now ws))
          else Some (Inr (False, Some q, m)))"

section \<open>The worker\<close>

text \<open>One removal; it waits as long as the queue is empty.\<close>

definition worker_take ::
  "dispatch_queue \<Rightarrow> timespec \<Rightarrow> outcome list \<Rightarrow> (addr \<times> dispatch_queue) res option" where
  "worker_take q now ws =
     map_option (\<lambda>r. bind_res r (\<lambda>(item, tq, _).
       case item of
         None \<Rightarrow> Inl Assert_Failed
       | Some p_data \<Rightarrow> Inr (p_data, q\<lparr>dq_queue := tq\<rparr>)))
       (pt_ts_queue_dequeue (dq_queue q) True WAIT_FOREVER now ws)"

definition worker_release ::
  "dispatch_queue \<Rightarrow> addr \<Rightarrow> dq_mem \<Rightarrow> (dispatch_queue \<times> dq_mem) res" where
  "worker_release q p_data m =
     bind_res (pool_free (dq_pool q) p_data (dm_blocks m)) (\<lambda>(pl, pm, _).
       Inr (q\<lparr>dq_pool := pl\<rparr>, m\<lparr>dm_blocks := pm\<rparr>))"

text \<open>
  The loop. \<open>self\<close> is the address of the queue, the kill request. The client's function acts on the
  queue through \<open>exec\<close>; the calls are recorded. There is one environment per round; \<open>None\<close>: the worker is
  still waiting when they are used up.
\<close>

fun dispatch_queue_worker ::
  "(dispatch_queue_post_data \<Rightarrow> dispatch_queue \<times> dq_mem \<Rightarrow> dispatch_queue \<times> dq_mem) \<Rightarrow> addr
    \<Rightarrow> (timespec \<times> outcome list) list \<Rightarrow> dispatch_queue \<Rightarrow> dq_mem
    \<Rightarrow> (dispatch_queue_post_data list \<times> dispatch_queue \<times> dq_mem) res option" where
  "dispatch_queue_worker exec self [] q m = None"
| "dispatch_queue_worker exec self ((now, ws) # envs) q m =
     (case worker_take q now ws of
        None \<Rightarrow> None
      | Some (Inl e) \<Rightarrow> Some (Inl e)
      | Some (Inr (p_data, q1)) \<Rightarrow>
          if p_data = self
          then Some (Inr ([], q1\<lparr>dq_signal := the (fst (snd (signal_send (Some (dq_signal q1)))))\<rparr>, m))
          else if pd_fn (dm_data m p_data) = NULL then Some (Inl Null_Call)
          else (case exec (dm_data m p_data) (q1, m) of
                  (q2, m2) \<Rightarrow>
                    (case worker_release q2 p_data m2 of
                       Inl e \<Rightarrow> Some (Inl e)
                     | Inr (q3, m3) \<Rightarrow>
                         map_option (map_sum id (\<lambda>(tr, q4, m4). (dm_data m p_data # tr, q4, m4)))
                           (dispatch_queue_worker exec self envs q3 m3))))"

section \<open>Creation and destruction\<close>

text \<open>The results of the system calls made by \<open>dispatch_queue_create\<close>.\<close>

record dq_rcs =
  dr_signal_mutex :: int
  dr_signal_cond :: int
  dr_mutex_ok :: bool
  dr_cond :: int
  dr_full_cond :: int
  dr_pool_mutex_ok :: bool
  dr_pool_cond :: int
  dr_pool_full_cond :: int
  dr_realtime :: bool
  dr_task :: create_rcs
  dr_handle :: addr

definition dispatch_queue_create ::
  "addr \<Rightarrow> dispatch_queue_create_params option \<Rightarrow> dq_rcs \<Rightarrow> addr \<Rightarrow> dq_mem
    \<Rightarrow> (dispatch_queue \<times> dq_mem) res" where
  "dispatch_queue_create self params rcs worker m =
     (case params of
        None \<Rightarrow> Inl Assert_Failed
      | Some ps \<Rightarrow>
          if tp_size (dp_queue_params ps) = 0 \<or> dp_queue ps = None then Inl Assert_Failed
          else let q0 = \<lparr>destroying = False, dq_queue = None, dq_task = None, dq_pool = None,
                         dq_label = None, dq_signal = \<lparr>ef_val = 0\<rparr>\<rparr>
               in (case signal_new (Some (dq_signal q0)) (dr_signal_mutex rcs) (dr_signal_cond rcs) of
                     (True, Some sg) \<Rightarrow>
                       (case ts_queue_init (Some (dp_queue_params ps)) (dr_mutex_ok rcs) (dr_cond rcs)
                               (dr_full_cond rcs) of
                          (Some tq, True, _) \<Rightarrow>
                            bind_res (pool_create (dp_pool_params ps) (dr_pool_mutex_ok rcs)
                                        (dr_pool_cond rcs) (dr_pool_full_cond rcs) (dm_blocks m)) (\<lambda>(pl, ok, pm).
                              if \<not> ok then Inl Assert_Failed
                              else bind_res (pt_task_new_static (dr_realtime rcs) (dr_task rcs)
                                     (dr_handle rcs)
                                     (Some ((dp_task_params ps)\<lparr>tc_func := worker, tc_ctx := self\<rparr>)))
                                   (\<lambda>(created, t, _).
                                      if \<not> created then Inl Assert_Failed
                                      else Inr (q0\<lparr>dq_signal := sg, dq_queue := Some tq, dq_pool := pl,
                                                   dq_label := tc_label (dp_task_params ps),
                                                   dq_task := t\<rparr>, m\<lparr>dm_blocks := pm\<rparr>)))
                        | _ \<Rightarrow> Inl Assert_Failed)
                   | _ \<Rightarrow> Inl Assert_Failed))"

text \<open>
  \<open>dispatch_queue_destroy\<close> sets the flag and posts the kill request, waits for the worker's signal, and
  takes the parts down. \<open>others\<close> is what the worker and the posters do to the queue during the wait.
\<close>

datatype dq_part = Part_Task | Part_Pool ts_resource | Part_Queue ts_resource | Part_Signal

definition dispatch_queue_teardown :: "dispatch_queue \<Rightarrow> int \<Rightarrow> (dispatch_queue \<times> dq_part list) res" where
  "dispatch_queue_teardown q join_rc =
     bind_res (pt_task_destroy_static (dq_task q) join_rc) (\<lambda>_.
       Inr (q\<lparr>dq_task := None, dq_pool := None, dq_queue := None\<rparr>,
            (if dq_task q \<noteq> None then [Part_Task] else []) @
            map Part_Pool (snd (pool_destroy (dq_pool q))) @
            map Part_Queue (ts_queue_destroy (dq_queue q \<noteq> None)) @ [Part_Signal]))"

definition dispatch_queue_destroy ::
  "addr \<Rightarrow> dispatch_queue option \<Rightarrow> timespec \<Rightarrow> outcome list \<Rightarrow> (dispatch_queue \<Rightarrow> dispatch_queue)
    \<Rightarrow> int \<Rightarrow> (timespec \<Rightarrow> int) \<Rightarrow> event_flag wake list \<Rightarrow> int
    \<Rightarrow> (dispatch_queue option \<times> dq_part list) res option" where
  "dispatch_queue_destroy self p_queue now ws others trylock_rc timedlock wakes join_rc =
     (case p_queue of
        None \<Rightarrow> Some (Inr (None, []))
      | Some q \<Rightarrow>
          if \<not> destroying q
          then (case dispatch_enqueue (q\<lparr>destroying := True\<rparr>) self now ws of
                  None \<Rightarrow> None
                | Some (Inl e) \<Rightarrow> Some (Inl e)
                | Some (Inr q1) \<Rightarrow>
                    (case signal_wait (Some (dq_signal q1)) trylock_rc now timedlock wakes of
                       Some (True, _, Some sg) \<Rightarrow>
                         Some (bind_res (dispatch_queue_teardown (others q1\<lparr>dq_signal := sg\<rparr>) join_rc)
                           (\<lambda>(q2, rs). Inr (Some q2, rs)))
                     | Some _ \<Rightarrow> Some (Inl Assert_Failed)
                     | None \<Rightarrow> None))
          else Some (Inr (Some q, [])))"

section \<open>The concurrent system\<close>

datatype worker = Idle | Busy addr | Gone

text \<open>
  \<open>ds_pending\<close> are the blocks of posters that have filled one and not yet queued it, \<open>ds_kill\<close> tells that
  a destroyer has set the flag and not yet queued its request. The last three components record the
  history: the data queued, the data run, and how many were queued before the kill request.
\<close>

record dq_sys =
  ds_q :: dispatch_queue
  ds_m :: dq_mem
  ds_pending :: "addr list"
  ds_kill :: bool
  ds_worker :: worker
  ds_posted :: "dispatch_queue_post_data list"
  ds_ran :: "dispatch_queue_post_data list"
  ds_cut :: "nat option"

inductive dq_step :: "addr \<Rightarrow> dq_sys \<Rightarrow> dq_sys \<Rightarrow> bool" for self where
  Prepare: "\<not> destroying (ds_q s) \<Longrightarrow>
    dispatch_prepare (ds_q s) d zero_timespec [times_out] (ds_m s) = Some (Inr (x, q', m')) \<Longrightarrow>
    dq_step self s (s\<lparr>ds_q := q', ds_m := m', ds_pending := x # ds_pending s\<rparr>)"
| Enqueue: "x \<in> set (ds_pending s) \<Longrightarrow>
    dispatch_enqueue (ds_q s) x zero_timespec [times_out] = Some (Inr q') \<Longrightarrow>
    dq_step self s (s\<lparr>ds_q := q', ds_pending := remove1 x (ds_pending s),
                      ds_posted := ds_posted s @ [dm_data (ds_m s) x]\<rparr>)"
| Flag: "\<not> destroying (ds_q s) \<Longrightarrow>
    dq_step self s (s\<lparr>ds_q := (ds_q s)\<lparr>destroying := True\<rparr>, ds_kill := True\<rparr>)"
| Kill: "ds_kill s \<Longrightarrow>
    dispatch_enqueue (ds_q s) self zero_timespec [times_out] = Some (Inr q') \<Longrightarrow>
    dq_step self s (s\<lparr>ds_q := q', ds_kill := False, ds_cut := Some (length (ds_posted s))\<rparr>)"
| Take: "ds_worker s = Idle \<Longrightarrow> worker_take (ds_q s) zero_timespec [] = Some (Inr (x, q')) \<Longrightarrow>
    x \<noteq> self \<Longrightarrow> dq_step self s (s\<lparr>ds_q := q', ds_worker := Busy x\<rparr>)"
| Exit: "ds_worker s = Idle \<Longrightarrow> worker_take (ds_q s) zero_timespec [] = Some (Inr (self, q')) \<Longrightarrow>
    dq_step self s (s\<lparr>ds_q := q'\<lparr>dq_signal := the (fst (snd (signal_send (Some (dq_signal q')))))\<rparr>,
                      ds_worker := Gone\<rparr>)"
| Run: "ds_worker s = Busy x \<Longrightarrow> pd_fn (dm_data (ds_m s) x) \<noteq> NULL \<Longrightarrow>
    worker_release (ds_q s) x (ds_m s) = Inr (q', m') \<Longrightarrow>
    dq_step self s (s\<lparr>ds_q := q', ds_m := m', ds_worker := Idle,
                      ds_ran := ds_ran s @ [dm_data (ds_m s) x]\<rparr>)"

inductive_cases dq_stepE: "dq_step self s s'"

section \<open>Invariant\<close>

definition dq_busy :: "dq_sys \<Rightarrow> addr list" where
  "dq_busy s = (case ds_worker s of Busy x \<Rightarrow> [x] | _ \<Rightarrow> [])"

lemma dq_busy_simps [simp]:
  "ds_worker s = Idle \<Longrightarrow> dq_busy s = []" "ds_worker s = Gone \<Longrightarrow> dq_busy s = []"
  "ds_worker s = Busy x \<Longrightarrow> dq_busy s = [x]"
  by (simp_all add: dq_busy_def)

text \<open>The queued posts, without the kill request.\<close>

definition dq_posts :: "addr \<Rightarrow> ts_queue \<Rightarrow> addr list" where
  "dq_posts self tq = filter (\<lambda>x. x \<noteq> self) (ts_contents tq)"

text \<open>Where the kill request is, and how many posts are before it.\<close>

definition dq_phase :: "addr \<Rightarrow> dq_sys \<Rightarrow> ts_queue \<Rightarrow> bool" where
  "dq_phase self s tq \<longleftrightarrow>
     (ds_kill s \<longrightarrow> destroying (ds_q s) \<and> ds_cut s = None) \<and>
     (case ds_cut s of
        None \<Rightarrow> self \<notin> set (ts_contents tq) \<and> ds_worker s \<noteq> Gone \<and> (destroying (ds_q s) \<longleftrightarrow> ds_kill s)
      | Some n \<Rightarrow> destroying (ds_q s) \<and>
          (if ds_worker s = Gone then self \<notin> set (ts_contents tq) \<and> length (ds_ran s) = n
           else \<exists>as bs. ts_contents tq = as @ self # bs \<and> self \<notin> set as \<and> self \<notin> set bs \<and>
                  n = length (ds_ran s) + length (dq_busy s) + length as))"

text \<open>
  Every block of the pool is in exactly one place: free, held by a poster, queued, or being run. The
  posts queued so far are those run, the one being run, and those in the queue.
\<close>

definition dq_rep :: "addr set \<Rightarrow> addr \<Rightarrow> dq_sys \<Rightarrow> pool \<Rightarrow> ts_queue \<Rightarrow> addr list \<Rightarrow> bool" where
  "dq_rep B self s p tq fs \<longleftrightarrow>
     dq_pool (ds_q s) = Some p \<and> dq_queue (ds_q s) = Some tq \<and>
     pl_free_in B (p, dm_blocks (ds_m s)) fs \<and> ts_inv tq \<and> card B \<le> unat (q_size tq) \<and>
     NULL \<notin> B \<and> self \<noteq> NULL \<and> self \<notin> B \<and>
     distinct (fs @ ds_pending s @ dq_posts self tq @ dq_busy s) \<and>
     set (fs @ ds_pending s @ dq_posts self tq @ dq_busy s) = B \<and>
     ds_posted s = ds_ran s @ map (dm_data (ds_m s)) (dq_busy s @ dq_posts self tq) \<and>
     dq_phase self s tq"

definition dq_budget :: "nat \<Rightarrow> dq_sys \<Rightarrow> bool" where
  "dq_budget k s \<longleftrightarrow>
     (\<exists>p tq. dq_pool (ds_q s) = Some p \<and> dq_queue (ds_q s) = Some tq \<and> pool_budget k p \<and>
        unat (q_head tq) + k + unat (q_size tq) < 2 ^ 64)"

section \<open>What the halves of the operations do\<close>

lemma dispatch_enqueue_room:
  assumes "dq_queue q = Some tq" and "ts_inv tq" and "ts_room x tq"
  obtains tq' where "dispatch_enqueue q x now ws = Some (Inr (q\<lparr>dq_queue := Some tq'\<rparr>))" "ts_inv tq'"
    "ts_contents tq' = ts_contents tq @ [x]" "q_size tq' = q_size tq"
    "unat (q_head tq') = unat (q_head tq) + 1"
proof -
  obtain tq' where "pt_ts_queue_enqueue (Some tq) x NO_SLEEP now ws = Some (Inr (True, Some tq', [Cnd]))"
    "ts_inv tq'" "ts_contents tq' = ts_contents tq @ [x]" "q_size tq' = q_size tq"
    "unat (q_head tq') = unat (q_head tq) + 1"
    by (rule pt_enqueue_room [OF assms(2,3)])
  with assms(1) show ?thesis by (intro that [of tq']) (simp_all add: dispatch_enqueue_def)
qed

lemma dispatch_enqueue_full:
  assumes "dq_queue q = Some tq" and "ts_inv tq" and "ts_len tq = unat (q_size tq)" and "x \<noteq> NULL"
  shows "dispatch_enqueue q x now [times_out] = Some (Inl Assert_Failed)"
  using assms pt_enqueue_full [OF assms(2-4)] by (simp add: dispatch_enqueue_def)

lemma worker_take_some:
  assumes "dq_queue q = Some tq" and "ts_inv tq" and "ts_contents tq = x # xs"
  obtains tq' where "worker_take q now ws = Some (Inr (x, q\<lparr>dq_queue := Some tq'\<rparr>))" "ts_inv tq'"
    "ts_contents tq' = xs" "q_size tq' = q_size tq" "q_head tq' = q_head tq"
proof -
  obtain tq' where "pt_ts_queue_dequeue (Some tq) True WAIT_FOREVER now ws =
      Some (Inr (Some x, Some tq', [Full_Cnd]))" "ts_inv tq'" "ts_contents tq' = xs"
    "q_size tq' = q_size tq" "q_head tq' = q_head tq"
    by (rule pt_dequeue_some [OF assms(2,3)])
  with assms(1) show ?thesis by (intro that [of tq']) (simp_all add: worker_take_def)
qed

lemma worker_take_blocked:
  assumes "dq_queue q = Some tq" and "ts_inv tq" and "ts_contents tq = []"
  shows "worker_take q now [] = None"
proof -
  have "ts_empty tq" using ts_empty_iff [OF assms(2)] assms(3) length_ts_contents [of tq] by simp
  then show ?thesis
    using assms(1) by (simp add: worker_take_def pt_ts_queue_dequeue_def ts_dequeue_with_def errno_defs)
qed

lemma dispatch_prepare_some:
  assumes "dq_pool q = Some p" and "pl_free_in B (p, dm_blocks m) (x # fs)" and "NULL \<notin> B"
  obtains p' pm where "dispatch_prepare q d now ws m = Some (Inr (x, q\<lparr>dq_pool := Some p'\<rparr>,
      m\<lparr>dm_blocks := pm, dm_data := (dm_data m)(x := d)\<rparr>))"
    "pl_free_in B (p', pm) fs" "\<And>n. pool_budget n p \<Longrightarrow> pool_budget n p'"
proof -
  obtain p' pm where "pool_alloc (Some p) now ws (dm_blocks m) = Some (Inr (x, Some p', pm))"
    "pl_free_in B (p', pm) fs" "\<And>n. pool_budget n p \<Longrightarrow> pool_budget n p'" "x \<noteq> NULL"
    using pool_alloc_free [OF assms(2)] by metis
  then show ?thesis using assms(1) by (intro that [of p' pm]) (simp_all add: dispatch_prepare_def)
qed

lemma dispatch_prepare_none:
  assumes "dq_pool q = Some p" and "pl_free_in B (p, dm_blocks m) []"
  shows "dispatch_prepare q d now [times_out] m = Some (Inl Assert_Failed)"
  using assms pool_alloc_none by (simp add: dispatch_prepare_def pl_free_in_def)

lemma worker_release_ok:
  assumes "dq_pool q = Some p" and "pl_free_in B (p, dm_blocks m) fs" and "x \<in> B" and "x \<notin> set fs"
    and "pool_budget (Suc k) p"
  obtains p' pm where "worker_release q x m = Inr (q\<lparr>dq_pool := Some p'\<rparr>, m\<lparr>dm_blocks := pm\<rparr>)"
    "pl_free_in B (p', pm) (fs @ [x])" "pool_budget k p'"
proof -
  obtain p' pm cs where "pool_free (Some p) x (dm_blocks m) = Inr (Some p', pm, cs)"
    "pl_free_in B (p', pm) (fs @ [x])" "pool_budget k p'"
    using pool_free_free [OF assms(2-5)] by metis
  then show ?thesis using assms(1) by (intro that [of p' pm]) (simp_all add: worker_release_def)
qed

section \<open>A queue of posts\<close>

text \<open>
  What a client that shares no blocks with others sees: \<open>cap\<close> free blocks and the posts in order; \<open>busy\<close>
  is the block the worker is running. \<open>k\<close> more posts and releases do not wrap the counters.
\<close>

definition dq_fifo ::
  "addr list \<Rightarrow> nat \<Rightarrow> dispatch_queue_post_data list \<Rightarrow> nat \<Rightarrow> dispatch_queue \<times> dq_mem \<Rightarrow> bool" where
  "dq_fifo busy cap posts k s \<longleftrightarrow>
     \<not> destroying (fst s) \<and>
     (\<exists>B p tq fs. dq_pool (fst s) = Some p \<and> dq_queue (fst s) = Some tq \<and>
        pl_free_in B (p, dm_blocks (snd s)) fs \<and> NULL \<notin> B \<and> finite B \<and> ts_inv tq \<and> card B \<le> unat (q_size tq) \<and>
        distinct (fs @ ts_contents tq @ busy) \<and> set (fs @ ts_contents tq @ busy) \<subseteq> B \<and> length fs = cap \<and>
        map (dm_data (snd s)) (ts_contents tq) = posts \<and> pool_budget k p \<and>
        unat (q_head tq) + k + unat (q_size tq) < 2 ^ 64)"

lemma dq_fifo_mono: "dq_fifo busy cap posts (Suc k) s \<Longrightarrow> dq_fifo busy cap posts k s"
  unfolding dq_fifo_def pool_budget_def by (elim conjE exE) (intro conjI exI, assumption+, auto)

lemma dq_fifo_post:
  assumes "dq_fifo busy (Suc cap) posts (Suc k) (q, m)"
  obtains q' m' where "dispatch_async_f (Some q) fn a1 a2 now ws m = Some (Inr (True, Some q', m'))"
    "dq_fifo busy cap (posts @ [\<lparr>pd_fn = fn, pd_arg1 = a1, pd_arg2 = a2\<rparr>]) k (q', m')"
    "\<And>x. x \<in> set busy \<Longrightarrow> dm_data m' x = dm_data m x"
proof -
  let ?d = "\<lparr>pd_fn = fn, pd_arg1 = a1, pd_arg2 = a2\<rparr>"
  obtain B p tq fs where nd: "\<not> destroying q" and r: "dq_pool q = Some p" "dq_queue q = Some tq"
    "pl_free_in B (p, dm_blocks m) fs" "NULL \<notin> B" "finite B" "ts_inv tq" "card B \<le> unat (q_size tq)"
    "distinct (fs @ ts_contents tq @ busy)" "set (fs @ ts_contents tq @ busy) \<subseteq> B" "length fs = Suc cap"
    "map (dm_data m) (ts_contents tq) = posts" "pool_budget (Suc k) p" "unat (q_head tq) + Suc k + unat (q_size tq) < 2 ^ 64"
    using assms by (auto simp: dq_fifo_def)
  obtain x fs' where fs: "fs = x # fs'" "length fs' = cap" using r(10) by (cases fs) auto
  obtain p' pm where a: "dispatch_prepare q ?d now ws m = Some (Inr (x, q\<lparr>dq_pool := Some p'\<rparr>,
      m\<lparr>dm_blocks := pm, dm_data := (dm_data m)(x := ?d)\<rparr>))" "pl_free_in B (p', pm) fs'"
    "\<And>n. pool_budget n p \<Longrightarrow> pool_budget n p'"
    using dispatch_prepare_some [OF r(1) r(3) [unfolded fs(1)] r(4)] by metis
  have x: "x \<in> B" "x \<notin> set (ts_contents tq)" "x \<notin> set busy" using r(8,9) fs(1) by auto
  then have "x \<noteq> NULL" using r(4) by metis
  have "length (x # ts_contents tq) \<le> card B"
    using x r(5,8,9) by (intro card_mono [of B "set (x # ts_contents tq)", THEN order_trans [rotated]])
      (auto simp: distinct_card)
  then have "ts_room x tq"
    using r(7,13) \<open>x \<noteq> NULL\<close> length_ts_contents [of tq] by (simp add: ts_room_def ts_fits_def)
  then obtain tq' where e: "dispatch_enqueue (q\<lparr>dq_pool := Some p'\<rparr>) x now ws =
      Some (Inr (q\<lparr>dq_pool := Some p', dq_queue := Some tq'\<rparr>))" "ts_inv tq'" "ts_contents tq' = ts_contents tq @ [x]"
    "q_size tq' = q_size tq" "unat (q_head tq') = unat (q_head tq) + 1"
    using dispatch_enqueue_room [of "q\<lparr>dq_pool := Some p'\<rparr>" tq x now ws] r(2,6) by auto
  let ?q = "q\<lparr>dq_pool := Some p', dq_queue := Some tq'\<rparr>" and ?m = "m\<lparr>dm_blocks := pm, dm_data := (dm_data m)(x := ?d)\<rparr>"
  have "dispatch_async_f (Some q) fn a1 a2 now ws m = Some (Inr (True, Some ?q, ?m))"
    using nd a(1) e(1) by (simp add: dispatch_async_f_def)
  moreover have "map (dm_data ?m) (ts_contents tq') = posts @ [?d]"
    using e(3) r(11) x(2) by (auto intro!: map_cong)
  moreover have "pool_budget k p'" using a(3) [OF r(12)] by (auto simp: pool_budget_def)
  moreover have "distinct (fs' @ ts_contents tq' @ busy)" "set (fs' @ ts_contents tq' @ busy) \<subseteq> B"
    using r(8,9) fs(1) e(3) by auto
  ultimately have "dq_fifo busy cap (posts @ [?d]) k (?q, ?m)"
    using nd a(2) r(4,5,7,13) e(2,4,5) fs(2) unfolding dq_fifo_def fst_conv snd_conv
    by (intro conjI exI [of _ B] exI [of _ p'] exI [of _ tq'] exI [of _ fs']) simp_all
  then show ?thesis
    using \<open>dispatch_async_f (Some q) fn a1 a2 now ws m = Some (Inr (True, Some ?q, ?m))\<close> x(3)
    by (intro that [of ?q ?m]) auto
qed

lemma dq_fifo_full:
  assumes "dq_fifo busy 0 posts k (q, m)"
  shows "dispatch_async_f (Some q) fn a1 a2 now [times_out] m = Some (Inl Assert_Failed)"
proof -
  obtain B p where "dq_pool q = Some p" "pl_free_in B (p, dm_blocks m) []" "\<not> destroying q"
    using assms by (auto simp: dq_fifo_def)
  from dispatch_prepare_none [OF this(1,2)] this(3) show ?thesis by (simp add: dispatch_async_f_def)
qed

lemma dq_fifo_take:
  assumes "dq_fifo [] cap (d # posts) k (q, m)"
  obtains x q' where "worker_take q now ws = Some (Inr (x, q'))" "dm_data m x = d" "x \<noteq> NULL"
    "dq_fifo [x] cap posts k (q', m)"
proof -
  obtain B p tq fs where nd: "\<not> destroying q" and r: "dq_pool q = Some p" "dq_queue q = Some tq"
    "pl_free_in B (p, dm_blocks m) fs" "NULL \<notin> B" "finite B" "ts_inv tq" "card B \<le> unat (q_size tq)"
    "distinct (fs @ ts_contents tq)" "set (fs @ ts_contents tq) \<subseteq> B" "length fs = cap"
    "map (dm_data m) (ts_contents tq) = d # posts" "pool_budget k p" "unat (q_head tq) + k + unat (q_size tq) < 2 ^ 64"
    using assms by (auto simp: dq_fifo_def)
  obtain x xs where c: "ts_contents tq = x # xs" "dm_data m x = d" "map (dm_data m) xs = posts" using r(11) by auto
  obtain tq' where t: "worker_take q now ws = Some (Inr (x, q\<lparr>dq_queue := Some tq'\<rparr>))" "ts_inv tq'"
    "ts_contents tq' = xs" "q_size tq' = q_size tq" "q_head tq' = q_head tq"
    using worker_take_some [OF r(2,6) c(1)] by metis
  have "x \<in> B" using r(9) c(1) by simp
  then have "x \<noteq> NULL" using r(4) by metis
  moreover have "dq_fifo [x] cap posts k (q\<lparr>dq_queue := Some tq'\<rparr>, m)"
    using nd r c t(2-5) unfolding dq_fifo_def fst_conv snd_conv
    by (intro conjI exI [of _ B] exI [of _ p] exI [of _ tq'] exI [of _ fs]) simp_all
  ultimately show ?thesis using t(1) c(2) by (intro that)
qed

lemma dq_fifo_empty: "dq_fifo [] cap [] k (q, m) \<Longrightarrow> worker_take q now [] = None"
  using worker_take_blocked by (auto simp: dq_fifo_def)

lemma dq_fifo_release:
  assumes "dq_fifo [x] cap posts (Suc k) (q, m)"
  obtains q' m' where "worker_release q x m = Inr (q', m')" "dq_fifo [] (Suc cap) posts k (q', m')"
proof -
  obtain B p tq fs where nd: "\<not> destroying q" and r: "dq_pool q = Some p" "dq_queue q = Some tq"
    "pl_free_in B (p, dm_blocks m) fs" "NULL \<notin> B" "finite B" "ts_inv tq" "card B \<le> unat (q_size tq)"
    "distinct (fs @ ts_contents tq @ [x])" "set (fs @ ts_contents tq @ [x]) \<subseteq> B" "length fs = cap"
    "map (dm_data m) (ts_contents tq) = posts" "pool_budget (Suc k) p" "unat (q_head tq) + Suc k + unat (q_size tq) < 2 ^ 64"
    using assms by (auto simp: dq_fifo_def)
  have "x \<in> B" "x \<notin> set fs" using r(8,9) by auto
  then obtain p' pm where f: "worker_release q x m = Inr (q\<lparr>dq_pool := Some p'\<rparr>, m\<lparr>dm_blocks := pm\<rparr>)"
    "pl_free_in B (p', pm) (fs @ [x])" "pool_budget k p'"
    using worker_release_ok [OF r(1,3) _ _ r(12)] by metis
  have "dq_fifo [] (Suc cap) posts k (q\<lparr>dq_pool := Some p'\<rparr>, m\<lparr>dm_blocks := pm\<rparr>)"
    using nd r f(2,3) unfolding dq_fifo_def fst_conv snd_conv
    by (intro conjI exI [of _ B] exI [of _ p'] exI [of _ tq] exI [of _ "fs @ [x]"]) auto
  with f(1) show ?thesis by (rule that)
qed

section \<open>The steps keep the invariant\<close>

lemma dq_budgetD:
  assumes "dq_rep B self s p tq fs" and "dq_budget (Suc k) s"
  shows "pool_budget (Suc k) p" "pool_budget k p" "unat (q_head tq) + Suc k + unat (q_size tq) < 2 ^ 64"
    "ts_fits tq"
  using assms by (auto simp: dq_rep_def dq_budget_def pool_budget_def ts_fits_def)

lemma dq_repD:
  assumes "dq_rep B self s p tq fs"
  shows "dq_pool (ds_q s) = Some p" "dq_queue (ds_q s) = Some tq"
    "pl_free_in B (p, dm_blocks (ds_m s)) fs" "ts_inv tq" "NULL \<notin> B" "self \<noteq> NULL" "self \<notin> B"
    "set (ds_pending s) \<subseteq> B" "set fs \<subseteq> B" "set (dq_posts self tq) \<subseteq> B" "set (dq_busy s) \<subseteq> B"
    "distinct (fs @ ds_pending s @ dq_posts self tq @ dq_busy s)"
    "set (fs @ ds_pending s @ dq_posts self tq @ dq_busy s) = B"
  using assms unfolding dq_rep_def by auto

lemma dq_phase_cong:
  assumes "ts_contents tq' = ts_contents tq" "ds_kill s' = ds_kill s" "ds_cut s' = ds_cut s"
    "ds_worker s' = ds_worker s" "ds_ran s' = ds_ran s" "destroying (ds_q s') = destroying (ds_q s)"
  shows "dq_phase self s' tq' = dq_phase self s tq"
  unfolding dq_phase_def dq_busy_def assms by (rule refl)

text \<open>What a half of a post that returns has done to the queue and its memory.\<close>

lemma dispatch_prepared:
  assumes rep: "dq_rep B self s p tq fs"
    and step: "dispatch_prepare (ds_q s) d zero_timespec [times_out] (ds_m s) = Some (Inr (x, q', m'))"
  obtains fs' p' pm where "fs = x # fs'" "q' = (ds_q s)\<lparr>dq_pool := Some p'\<rparr>"
    "m' = (ds_m s)\<lparr>dm_blocks := pm, dm_data := (dm_data (ds_m s))(x := d)\<rparr>"
    "pl_free_in B (p', pm) fs'" "\<And>n. pool_budget n p \<Longrightarrow> pool_budget n p'"
proof (cases fs)
  case Nil
  then show ?thesis using dispatch_prepare_none dq_repD(1,3) [OF rep] step by (metis Inl_Inr_False option.inject)
next
  case (Cons y fs')
  note r = dq_repD [OF rep]
  obtain p' pm where "dispatch_prepare (ds_q s) d zero_timespec [times_out] (ds_m s) =
      Some (Inr (y, (ds_q s)\<lparr>dq_pool := Some p'\<rparr>,
        (ds_m s)\<lparr>dm_blocks := pm, dm_data := (dm_data (ds_m s))(y := d)\<rparr>))"
    "pl_free_in B (p', pm) fs'" "\<And>n. pool_budget n p \<Longrightarrow> pool_budget n p'"
    by (rule dispatch_prepare_some [OF r(1) r(3) [unfolded Cons] r(5)]) blast
  with step Cons show ?thesis by (intro that [of fs' p' pm]) auto
qed

lemma dispatch_enqueued:
  assumes rep: "dq_rep B self s p tq fs" and bud: "dq_budget (Suc k) s" and x: "x \<noteq> NULL"
    and step: "dispatch_enqueue (ds_q s) x zero_timespec [times_out] = Some (Inr q')"
  obtains tq' where "q' = (ds_q s)\<lparr>dq_queue := Some tq'\<rparr>" "ts_inv tq'" "ts_contents tq' = ts_contents tq @ [x]"
    "q_size tq' = q_size tq" "unat (q_head tq') = unat (q_head tq) + 1"
proof -
  note r = dq_repD [OF rep] and b = dq_budgetD [OF rep bud]
  have "ts_len tq \<noteq> unat (q_size tq)" using dispatch_enqueue_full [OF r(2,4) _ x] step by auto
  then have "ts_room x tq" using ts_inv_nat(5) [OF r(4)] b(4) x by (simp add: ts_room_def)
  from dispatch_enqueue_room [OF r(2,4) this, of zero_timespec "[times_out]"] step that show ?thesis
    by (metis Inr_inject option.inject)
qed

lemma dq_step_prepare:
  assumes rep: "dq_rep B self s p tq fs" and bud: "dq_budget (Suc k) s" and "\<not> destroying (ds_q s)"
    and step: "dispatch_prepare (ds_q s) d zero_timespec [times_out] (ds_m s) = Some (Inr (x, q', m'))"
  shows "\<exists>p' tq' fs'. dq_rep B self (s\<lparr>ds_q := q', ds_m := m', ds_pending := x # ds_pending s\<rparr>) p' tq' fs' \<and>
    dq_budget k (s\<lparr>ds_q := q', ds_m := m', ds_pending := x # ds_pending s\<rparr>)"
proof -
  note r = dq_repD [OF rep]
  obtain fs' p' pm where e: "fs = x # fs'" "q' = (ds_q s)\<lparr>dq_pool := Some p'\<rparr>"
    "m' = (ds_m s)\<lparr>dm_blocks := pm, dm_data := (dm_data (ds_m s))(x := d)\<rparr>"
    and a: "pl_free_in B (p', pm) fs'" "\<And>n. pool_budget n p \<Longrightarrow> pool_budget n p'"
    by (rule dispatch_prepared [OF rep step]) blast
  let ?s = "s\<lparr>ds_q := q', ds_m := m', ds_pending := x # ds_pending s\<rparr>"
  have b: "dq_busy ?s = dq_busy s" by (simp add: dq_busy_def)
  have "x \<notin> set (dq_busy s @ dq_posts self tq)" using r(12) e(1) by auto
  then have dm: "map (dm_data m') (dq_busy s @ dq_posts self tq) =
      map (dm_data (ds_m s)) (dq_busy s @ dq_posts self tq)"
    unfolding e by (intro map_cong) auto
  have ph: "dq_phase self ?s tq = dq_phase self s tq" by (rule dq_phase_cong) (simp_all add: e)
  have "dq_rep B self ?s p' tq fs'"
    unfolding dq_rep_def b ph
    using rep a(1) dm unfolding dq_rep_def by (auto simp: e)
  moreover have "dq_budget k ?s"
    using dq_budgetD [OF rep bud] a(2) r(2) by (simp add: dq_budget_def e)
  ultimately show ?thesis by blast
qed

lemma dq_phase_append:
  assumes "dq_phase self s tq" and "ts_contents tq' = ts_contents tq @ [x]" and "x \<noteq> self"
    and "ds_kill s' = ds_kill s" "ds_cut s' = ds_cut s" "ds_worker s' = ds_worker s"
      "ds_ran s' = ds_ran s" "destroying (ds_q s') = destroying (ds_q s)"
  shows "dq_phase self s' tq'"
proof -
  have b: "dq_busy s' = dq_busy s" using assms(6) by (simp add: dq_busy_def)
  have "\<exists>as bs'. (as @ self # bs) @ [x] = as @ self # bs' \<and> self \<notin> set bs'" if "self \<notin> set bs" for as bs
    using that assms(3) by auto
  with assms b show ?thesis
    unfolding dq_phase_def by (auto split: option.splits) (metis Cons_eq_appendI append_assoc list.set_intros(1) set_ConsD in_set_conv_decomp rotate1.simps(2) set_rotate1)
qed

lemma dq_step_enqueue:
  assumes rep: "dq_rep B self s p tq fs" and bud: "dq_budget (Suc k) s" and x: "x \<in> set (ds_pending s)"
    and step: "dispatch_enqueue (ds_q s) x zero_timespec [times_out] = Some (Inr q')"
  shows "\<exists>p' tq' fs'. dq_rep B self (s\<lparr>ds_q := q', ds_pending := remove1 x (ds_pending s),
      ds_posted := ds_posted s @ [dm_data (ds_m s) x]\<rparr>) p' tq' fs' \<and>
    dq_budget k (s\<lparr>ds_q := q', ds_pending := remove1 x (ds_pending s),
      ds_posted := ds_posted s @ [dm_data (ds_m s) x]\<rparr>)"
proof -
  note r = dq_repD [OF rep] and b = dq_budgetD [OF rep bud]
  have xB: "x \<in> B" using x r(8) by auto
  then have xn: "x \<noteq> NULL" "x \<noteq> self" using r(5,7) by metis+
  obtain tq' where q: "q' = (ds_q s)\<lparr>dq_queue := Some tq'\<rparr>" "ts_inv tq'"
    "ts_contents tq' = ts_contents tq @ [x]" "q_size tq' = q_size tq"
    "unat (q_head tq') = unat (q_head tq) + 1"
    by (rule dispatch_enqueued [OF rep bud xn(1) step])
  let ?s = "s\<lparr>ds_q := q', ds_pending := remove1 x (ds_pending s),
      ds_posted := ds_posted s @ [dm_data (ds_m s) x]\<rparr>"
  have bu: "dq_busy ?s = dq_busy s" by (simp add: dq_busy_def)
  have po: "dq_posts self tq' = dq_posts self tq @ [x]" using q(3) xn by (simp add: dq_posts_def)
  have ph: "dq_phase self ?s tq'"
    using rep q(1) by (intro dq_phase_append [OF _ q(3) xn(2), of s]) (simp_all add: dq_rep_def)
  have "set (remove1 x (ds_pending s)) = set (ds_pending s) - {x}" using r(12) by simp
  then have "dq_rep B self ?s p tq' fs"
    unfolding dq_rep_def bu po
    using rep q(2,4) ph x unfolding dq_rep_def by (auto simp: q(1) distinct_remove1)
  moreover have "dq_budget k ?s" using b q r(1) by (simp add: dq_budget_def)
  ultimately show ?thesis by blast
qed

lemma dq_step_flag:
  assumes rep: "dq_rep B self s p tq fs" and bud: "dq_budget (Suc k) s" and "\<not> destroying (ds_q s)"
  shows "dq_rep B self (s\<lparr>ds_q := (ds_q s)\<lparr>destroying := True\<rparr>, ds_kill := True\<rparr>) p tq fs \<and>
    dq_budget k (s\<lparr>ds_q := (ds_q s)\<lparr>destroying := True\<rparr>, ds_kill := True\<rparr>)"
proof
  let ?s = "s\<lparr>ds_q := (ds_q s)\<lparr>destroying := True\<rparr>, ds_kill := True\<rparr>"
  have bu: "dq_busy ?s = dq_busy s" by (simp add: dq_busy_def)
  have "dq_phase self s tq" using rep by (simp add: dq_rep_def)
  then have "dq_phase self ?s tq" using assms(3) unfolding dq_phase_def by (auto split: option.splits)
  then show "dq_rep B self ?s p tq fs" using rep unfolding dq_rep_def bu by simp
  show "dq_budget k ?s"
    using dq_budgetD [OF rep bud] dq_repD(1,2) [OF rep] by (simp add: dq_budget_def)
qed

lemma dq_step_kill:
  assumes rep: "dq_rep B self s p tq fs" and bud: "dq_budget (Suc k) s" and kill: "ds_kill s"
    and step: "dispatch_enqueue (ds_q s) self zero_timespec [times_out] = Some (Inr q')"
  shows "\<exists>p' tq' fs'. dq_rep B self (s\<lparr>ds_q := q', ds_kill := False, ds_cut := Some (length (ds_posted s))\<rparr>)
      p' tq' fs' \<and> dq_budget k (s\<lparr>ds_q := q', ds_kill := False, ds_cut := Some (length (ds_posted s))\<rparr>)"
proof -
  note r = dq_repD [OF rep] and b = dq_budgetD [OF rep bud]
  obtain tq' where q: "q' = (ds_q s)\<lparr>dq_queue := Some tq'\<rparr>" "ts_inv tq'"
    "ts_contents tq' = ts_contents tq @ [self]" "q_size tq' = q_size tq"
    "unat (q_head tq') = unat (q_head tq) + 1"
    by (rule dispatch_enqueued [OF rep bud r(6) step])
  let ?s = "s\<lparr>ds_q := q', ds_kill := False, ds_cut := Some (length (ds_posted s))\<rparr>"
  have bu: "dq_busy ?s = dq_busy s" by (simp add: dq_busy_def)
  have po: "dq_posts self tq' = dq_posts self tq" using q(3) by (simp add: dq_posts_def)
  have ph: "dq_phase self s tq" using rep by (simp add: dq_rep_def)
  then have c: "ds_cut s = None" "self \<notin> set (ts_contents tq)" "ds_worker s \<noteq> Gone" "destroying (ds_q s)"
    using kill unfolding dq_phase_def by auto
  then have "dq_posts self tq = ts_contents tq" by (auto simp: dq_posts_def filter_id_conv)
  then have "length (ds_posted s) = length (ds_ran s) + length (dq_busy s) + length (ts_contents tq)"
    using rep by (simp add: dq_rep_def)
  then have "\<exists>as bs. ts_contents tq' = as @ self # bs \<and> self \<notin> set as \<and> self \<notin> set bs \<and>
      length (ds_posted s) = length (ds_ran s) + length (dq_busy s) + length as"
    using c(2) q(3) by (intro exI [of _ "ts_contents tq"] exI [of _ "[]"]) simp
  then have "dq_phase self ?s tq'" using c q(1) unfolding dq_phase_def bu by simp
  then have "dq_rep B self ?s p tq' fs"
    using rep q(2,4) unfolding dq_rep_def bu po by (simp add: q(1))
  moreover have "dq_budget k ?s" using b q r(1) by (simp add: dq_budget_def)
  ultimately show ?thesis by blast
qed

lemma worker_took:
  assumes rep: "dq_rep B self s p tq fs"
    and step: "worker_take (ds_q s) zero_timespec [] = Some (Inr (x, q'))"
  obtains tq' where "q' = (ds_q s)\<lparr>dq_queue := Some tq'\<rparr>" "ts_inv tq'"
    "ts_contents tq = x # ts_contents tq'" "q_size tq' = q_size tq" "q_head tq' = q_head tq"
proof (cases "ts_contents tq")
  case Nil
  then show ?thesis using worker_take_blocked [OF dq_repD(2,4) [OF rep]] step by simp
next
  case (Cons y ys)
  then show ?thesis
    using worker_take_some [OF dq_repD(2,4) [OF rep] Cons, of zero_timespec "[]"] step that
    by (metis Inr_inject option.inject prod.inject)
qed

lemma dq_step_take:
  assumes rep: "dq_rep B self s p tq fs" and bud: "dq_budget (Suc k) s" and w: "ds_worker s = Idle"
    and step: "worker_take (ds_q s) zero_timespec [] = Some (Inr (x, q'))" and x: "x \<noteq> self"
  shows "\<exists>p' tq' fs'. dq_rep B self (s\<lparr>ds_q := q', ds_worker := Busy x\<rparr>) p' tq' fs' \<and>
    dq_budget k (s\<lparr>ds_q := q', ds_worker := Busy x\<rparr>)"
proof -
  note r = dq_repD [OF rep] and b = dq_budgetD [OF rep bud]
  obtain tq' where q: "q' = (ds_q s)\<lparr>dq_queue := Some tq'\<rparr>" "ts_inv tq'"
    "ts_contents tq = x # ts_contents tq'" "q_size tq' = q_size tq" "q_head tq' = q_head tq"
    by (rule worker_took [OF rep step])
  let ?s = "s\<lparr>ds_q := q', ds_worker := Busy x\<rparr>"
  have bu: "dq_busy ?s = [x]" "dq_busy s = []" using w by (simp_all add: dq_busy_def)
  have po: "dq_posts self tq = x # dq_posts self tq'" using q(3) x by (simp add: dq_posts_def)
  have ph: "dq_phase self s tq" using rep by (simp add: dq_rep_def)
  have "dq_phase self ?s tq'"
    using ph w x q(1,3) bu unfolding dq_phase_def
    by (auto split: option.splits simp: Cons_eq_append_conv) blast
  then have "dq_rep B self ?s p tq' fs"
    using rep q(2,4) unfolding dq_rep_def bu po by (auto simp: q(1))
  moreover have "dq_budget k ?s" using b q r(1) by (simp add: dq_budget_def)
  ultimately show ?thesis by blast
qed

lemma dq_step_exit:
  assumes rep: "dq_rep B self s p tq fs" and bud: "dq_budget (Suc k) s" and w: "ds_worker s = Idle"
    and step: "worker_take (ds_q s) zero_timespec [] = Some (Inr (self, q'))"
  shows "\<exists>p' tq' fs'. dq_rep B self (s\<lparr>ds_q := q'\<lparr>dq_signal := sg\<rparr>, ds_worker := Gone\<rparr>) p' tq' fs' \<and>
    dq_budget k (s\<lparr>ds_q := q'\<lparr>dq_signal := sg\<rparr>, ds_worker := Gone\<rparr>)"
proof -
  note r = dq_repD [OF rep] and b = dq_budgetD [OF rep bud]
  obtain tq' where q: "q' = (ds_q s)\<lparr>dq_queue := Some tq'\<rparr>" "ts_inv tq'"
    "ts_contents tq = self # ts_contents tq'" "q_size tq' = q_size tq" "q_head tq' = q_head tq"
    by (rule worker_took [OF rep step])
  let ?s = "s\<lparr>ds_q := q'\<lparr>dq_signal := sg\<rparr>, ds_worker := Gone\<rparr>"
  have bu: "dq_busy ?s = []" "dq_busy s = []" using w by (simp_all add: dq_busy_def)
  have po: "dq_posts self tq = dq_posts self tq'" using q(3) by (simp add: dq_posts_def)
  have ph: "dq_phase self s tq" using rep by (simp add: dq_rep_def)
  have "dq_phase self ?s tq'"
    using ph w q(1,3) bu unfolding dq_phase_def
    by (auto split: option.splits simp: Cons_eq_append_conv)
  then have "dq_rep B self ?s p tq' fs"
    using rep q(2,4) unfolding dq_rep_def bu po by (auto simp: q(1))
  moreover have "dq_budget k ?s" using b q r(1) by (simp add: dq_budget_def)
  ultimately show ?thesis by blast
qed

lemma dq_step_run:
  assumes rep: "dq_rep B self s p tq fs" and bud: "dq_budget (Suc k) s" and w: "ds_worker s = Busy x"
    and step: "worker_release (ds_q s) x (ds_m s) = Inr (q', m')"
  shows "\<exists>p' tq' fs'. dq_rep B self (s\<lparr>ds_q := q', ds_m := m', ds_worker := Idle,
      ds_ran := ds_ran s @ [dm_data (ds_m s) x]\<rparr>) p' tq' fs' \<and>
    dq_budget k (s\<lparr>ds_q := q', ds_m := m', ds_worker := Idle, ds_ran := ds_ran s @ [dm_data (ds_m s) x]\<rparr>)"
proof -
  note r = dq_repD [OF rep] and b = dq_budgetD [OF rep bud]
  have bx: "dq_busy s = [x]" using w by simp
  have x: "x \<in> B" "x \<notin> set fs" using r(11,12) bx by auto
  obtain p' pm where f: "q' = (ds_q s)\<lparr>dq_pool := Some p'\<rparr>" "m' = (ds_m s)\<lparr>dm_blocks := pm\<rparr>"
    "pl_free_in B (p', pm) (fs @ [x])" "pool_budget k p'"
    using worker_release_ok [OF r(1,3) x b(1)] step by (metis Inr_inject prod.inject)
  let ?s = "s\<lparr>ds_q := q', ds_m := m', ds_worker := Idle, ds_ran := ds_ran s @ [dm_data (ds_m s) x]\<rparr>"
  have bu: "dq_busy ?s = []" by simp
  have ph: "dq_phase self s tq" using rep by (simp add: dq_rep_def)
  have "dq_phase self ?s tq"
    using ph w bx f(1) unfolding dq_phase_def by (auto split: option.splits)
  then have "dq_rep B self ?s p' tq (fs @ [x])"
    using rep f(3) unfolding dq_rep_def bu bx by (auto simp: f(1,2))
  moreover have "dq_budget k ?s" using b(3) f(1,4) r(2) by (simp add: dq_budget_def)
  ultimately show ?thesis by blast
qed

lemma dq_step_inv:
  assumes "dq_step self s s'" and "dq_rep B self s p tq fs" and "dq_budget (Suc k) s"
  shows "\<exists>p' tq' fs'. dq_rep B self s' p' tq' fs' \<and> dq_budget k s'"
  using assms(1)
proof cases
  case (Prepare d x q' m')
  then show ?thesis using dq_step_prepare [OF assms(2,3)] by blast
next
  case (Enqueue x q')
  then show ?thesis using dq_step_enqueue [OF assms(2,3)] by blast
next
  case Flag
  then show ?thesis using dq_step_flag [OF assms(2,3)] by blast
next
  case (Kill q')
  then show ?thesis using dq_step_kill [OF assms(2,3)] by blast
next
  case (Take x q')
  then show ?thesis using dq_step_take [OF assms(2,3)] by blast
next
  case (Exit q')
  then show ?thesis using dq_step_exit [OF assms(2,3)] by blast
next
  case (Run x q' m')
  then show ?thesis using dq_step_run [OF assms(2,3)] by blast
qed

text \<open>The invariant with the budget of the counters, for the blocks \<open>B\<close>.\<close>

definition dq_inv :: "addr set \<Rightarrow> addr \<Rightarrow> nat \<Rightarrow> dq_sys \<Rightarrow> bool" where
  "dq_inv B self k s \<longleftrightarrow> (\<exists>p tq fs. dq_rep B self s p tq fs) \<and> dq_budget k s"

interpretation dqs: budgeted_system "dq_step self" "dq_inv B self" for B self
proof
  fix s s' k assume "dq_step self s s'" "dq_inv B self (Suc k) s"
  then show "dq_inv B self k s'" using dq_step_inv unfolding dq_inv_def by blast
qed

lemma dq_steps_inv:
  assumes "(dq_step self ^^ n) s s'" and "dq_rep B self s p tq fs" and "dq_budget (n + k) s"
  shows "\<exists>p' tq' fs'. dq_rep B self s' p' tq' fs' \<and> dq_budget k s'"
  using dqs.steps_inv [OF assms(1), of B k] assms(2,3) unfolding dq_inv_def by blast

section \<open>A created queue\<close>

definition dq_rcs_ok :: "dq_rcs \<Rightarrow> bool" where
  "dq_rcs_ok rcs \<longleftrightarrow>
     dr_signal_mutex rcs = 0 \<and> dr_signal_cond rcs = 0 \<and> dr_mutex_ok rcs \<and> dr_cond rcs = 0 \<and>
     dr_full_cond rcs = 0 \<and> dr_pool_mutex_ok rcs \<and> dr_pool_cond rcs = 0 \<and> dr_pool_full_cond rcs = 0 \<and>
     rc_getstacksize (dr_task rcs) = 0 \<and> rc_setinheritsched (dr_task rcs) = 0 \<and>
     rc_setschedpolicy (dr_task rcs) = 0 \<and> rc_setschedparam (dr_task rcs) = 0 \<and>
     rc_setstack (dr_task rcs) = 0 \<and> rc_create (dr_task rcs) = 0"

text \<open>
  Parameters as \<open>DISPATCH_QUEUE_CREATE_PARAMS_INIT\<close> makes them: a queue store with a power-of-two number
  of slots, and a pool with at most as many blocks; the control block is none of the blocks.
\<close>

definition dq_params_ok :: "addr \<Rightarrow> dispatch_queue_create_params \<Rightarrow> bool" where
  "dq_params_ok self ps \<longleftrightarrow>
     dp_queue ps \<noteq> None \<and> pool_params_ok (dp_pool_params ps) \<and> tc_task (dp_task_params ps) \<noteq> None \<and>
     tc_stack (dp_task_params ps) \<noteq> NULL \<and> tc_stack_size (dp_task_params ps) \<noteq> 0 \<and>
     tc_label (dp_task_params ps) \<noteq> None \<and> tp_queue (dp_queue_params ps) \<noteq> None \<and>
     (case tp_ptr_array (dp_queue_params ps) of
        None \<Rightarrow> False | Some arr \<Rightarrow> length arr = unat (tp_size (dp_queue_params ps))) \<and>
     power_of_2 (tp_size (dp_queue_params ps)) \<and>
     unat (pp_num_of_elements (dp_pool_params ps)) \<le> unat (tp_size (dp_queue_params ps)) \<and>
     unat (tp_size (dp_queue_params ps)) \<le> 2 ^ 32 \<and>
     self \<noteq> NULL \<and> self \<notin> set (pool_blocks (dp_pool_params ps))"

definition dq_start :: "dispatch_queue \<Rightarrow> dq_mem \<Rightarrow> dq_sys" where
  "dq_start q m = \<lparr>ds_q = q, ds_m = m, ds_pending = [], ds_kill = False, ds_worker = Idle, ds_posted = [],
     ds_ran = [], ds_cut = None\<rparr>"

lemma task_created:
  assumes "params_ok ps" and "tc_label ps = Some l" and "dq_rcs_ok rcs"
  shows "\<exists>t cs. pt_task_new_static rt (dr_task rcs) h (Some ps) = Inr (True, t, cs)"
proof -
  have "\<exists>cs. sched_calls rt (dr_task rcs) pr = (0, cs)" for pr
    using assms(3) by (simp add: dq_rcs_ok_def sched_calls_def)
  then obtain cs where "sched_calls rt (dr_task rcs) (sint (tc_priority ps)) = (0, cs)" by blast
  with assms show ?thesis
    by (simp add: pt_task_new_static_def dq_rcs_ok_def zero_task_def strncpy_ok Let_def)
qed

lemma dispatch_queue_create_ok:
  assumes ok: "dq_params_ok self ps" and rcs: "dq_rcs_ok rcs" and w: "worker \<noteq> NULL"
  obtains q m' p tq where "dispatch_queue_create self (Some ps) rcs worker m = Inr (q, m')"
    "dq_rep (set (pool_blocks (dp_pool_params ps))) self (dq_start q m') p tq (pool_blocks (dp_pool_params ps))"
    "\<And>k. k < 2 ^ 63 \<Longrightarrow> dq_budget k (dq_start q m')"
proof -
  let ?pp = "dp_pool_params ps" and ?qp = "dp_queue_params ps"
  obtain tq0 arr where qp: "tp_queue ?qp = Some tq0" "tp_ptr_array ?qp = Some arr"
    "length arr = unat (tp_size ?qp)" "power_of_2 (tp_size ?qp)" "tp_size ?qp \<noteq> 0"
    "unat (tp_size ?qp) \<le> 2 ^ 32" "unat (pp_num_of_elements ?pp) \<le> unat (tp_size ?qp)"
    using ok by (auto simp: dq_params_ok_def power_of_2_def split: option.splits)
  let ?tq = "tq0\<lparr>pp_ptr_array := arr, q_size := tp_size ?qp, q_count := 0, q_tail := 0, q_head := 0\<rparr>"
  have init: "ts_queue_init (Some ?qp) True 0 0 = (Some ?tq, True, False)"
    using qp by (simp add: ts_queue_init_def Let_def)
  have pok: "pool_params_ok ?pp" using ok by (simp add: dq_params_ok_def)
  obtain p pm where p: "pool_create ?pp True 0 0 (dm_blocks m) = Inr (Some p, True, pm)"
    "pl_free_in (set (pool_blocks ?pp)) (p, pm) (pool_blocks ?pp)" "\<And>n. n < 2 ^ 63 \<Longrightarrow> pl_budget n (p, pm)"
    by (rule pool_create_rep [OF pok]) blast
  let ?tp = "(dp_task_params ps)\<lparr>tc_func := worker, tc_ctx := self\<rparr>"
  have "params_ok ?tp" "tc_label ?tp \<noteq> None" using ok w by (simp_all add: params_ok_def dq_params_ok_def)
  then obtain t cs where t: "pt_task_new_static (dr_realtime rcs) (dr_task rcs) (dr_handle rcs) (Some ?tp) =
      Inr (True, t, cs)"
    using task_created [OF _ _ rcs, of ?tp] by blast
  let ?q = "\<lparr>destroying = False, dq_queue = Some ?tq, dq_task = t, dq_pool = Some p,
      dq_label = tc_label (dp_task_params ps), dq_signal = \<lparr>ef_val = 0\<rparr>\<rparr>"
  let ?m = "m\<lparr>dm_blocks := pm\<rparr>"
  have "dispatch_queue_create self (Some ps) rcs worker m = Inr (?q, ?m)"
    using ok rcs qp(5) init p(1) t
    by (simp add: dispatch_queue_create_def dq_params_ok_def dq_rcs_ok_def signal_new_def
        pt_event_flag_new_def Let_def)
  moreover have "ts_inv ?tq" "ts_contents ?tq = []"
    using qp by (simp_all add: ts_inv_def ts_len_def ts_contents_def)
  moreover have "distinct (pool_blocks ?pp)" "NULL \<notin> set (pool_blocks ?pp)"
    using p(2) by (simp_all add: pl_free_in_def pool_rep_def)
  moreover have "card (set (pool_blocks ?pp)) \<le> unat (tp_size ?qp)"
    using card_length [of "pool_blocks ?pp"] qp(7) by simp
  ultimately have "dq_rep (set (pool_blocks ?pp)) self (dq_start ?q ?m) p ?tq (pool_blocks ?pp)"
    using ok p(2) by (simp add: dq_rep_def dq_start_def dq_posts_def dq_busy_def dq_phase_def dq_params_ok_def)
  moreover have "dq_budget k (dq_start ?q ?m)" if "k < 2 ^ 63" for k
    using p(3) [OF that] that qp(6) by (simp add: dq_budget_def dq_start_def pl_budget_def)
  ultimately show ?thesis
    using \<open>dispatch_queue_create self (Some ps) rcs worker m = Inr (?q, ?m)\<close> by (intro that [of ?q ?m])
qed

section \<open>Properties\<close>

lemma dq_rep_ran:
  assumes "dq_rep B self s p tq fs"
  shows "ds_ran s = take (length (ds_ran s)) (ds_posted s)"
    and "ds_worker s = Gone \<Longrightarrow> ds_cut s = Some (length (ds_ran s))"
  using assms by (auto simp: dq_rep_def dq_phase_def split: option.splits)



definition dq_example_params :: dispatch_queue_create_params where
  "dq_example_params = \<lparr>dp_queue = Some \<lparr>destroying = True, dq_queue = None, dq_task = None, dq_pool = None,
     dq_label = None, dq_signal = \<lparr>ef_val = 7\<rparr>\<rparr>, dp_task_params = task_example_params,
     dp_pool_params = pool_example_params,
     dp_queue_params = \<lparr>tp_queue = Some ts_example, tp_ptr_array = Some [0, 0], tp_size = 2\<rparr>\<rparr>"

definition dq_example_rcs :: dq_rcs where
  "dq_example_rcs = \<lparr>dr_signal_mutex = 0, dr_signal_cond = 0, dr_mutex_ok = True, dr_cond = 0,
     dr_full_cond = 0, dr_pool_mutex_ok = True, dr_pool_cond = 0, dr_pool_full_cond = 0,
     dr_realtime = False, dr_task = rcs_example, dr_handle = 9\<rparr>"

definition dq_example_mem :: dq_mem where
  "dq_example_mem = \<lparr>dm_blocks = \<lparr>hdr = (\<lambda>_. fresh_header), trailer = (\<lambda>_. 0)\<rparr>,
     dm_data = (\<lambda>_. \<lparr>pd_fn = 0, pd_arg1 = 0, pd_arg2 = 0\<rparr>)\<rparr>"

lemma dq_example_ok: "dq_params_ok 500 dq_example_params" "dq_rcs_ok dq_example_rcs"
  using pool_example_ok
  by (simp_all add: dq_params_ok_def dq_example_params_def task_example_params_def power_of_2_def
      pool_example_params_def pool_block_def upt_conv_Cons dq_rcs_ok_def dq_example_rcs_def rcs_example_def)

text \<open>One post from the start.\<close>

lemma dq_example_step:
  obtains q m' s where
    "dispatch_queue_create 500 (Some dq_example_params) dq_example_rcs 77 dq_example_mem = Inr (q, m')"
    "(dq_step 500 ^^ 1) (dq_start q m') s" "\<not> destroying (ds_q s)" "ds_pending s = [1032]"
proof -
  let ?d = "\<lparr>pd_fn = 3, pd_arg1 = 4, pd_arg2 = 5\<rparr>"
  have pb: "pool_blocks (dp_pool_params dq_example_params) = [1032, 1080]"
    by (simp add: dq_example_params_def pool_example_params_def pool_block_def upt_conv_Cons)
  obtain q m' p tq where
    c: "dispatch_queue_create 500 (Some dq_example_params) dq_example_rcs 77 dq_example_mem = Inr (q, m')"
    "dq_rep (set [1032, 1080]) 500 (dq_start q m') p tq [1032, 1080]"
    using dispatch_queue_create_ok [OF dq_example_ok, of 77 dq_example_mem] unfolding pb
    by (metis zero_neq_numeral)
  note r = dq_repD [OF c(2)]
  have pl: "dq_pool q = Some p" "pl_free_in (set [1032, 1080]) (p, dm_blocks m') (1032 # [1080])"
    using r(1,3) by (simp_all add: dq_start_def)
  obtain p' pm where a: "dispatch_prepare q ?d zero_timespec [times_out] m' =
      Some (Inr (1032, q\<lparr>dq_pool := Some p'\<rparr>, m'\<lparr>dm_blocks := pm, dm_data := (dm_data m')(1032 := ?d)\<rparr>))"
    using dispatch_prepare_some [OF pl r(5)] by metis
  have nd: "\<not> destroying q" using c(2) by (simp add: dq_rep_def dq_phase_def dq_start_def)
  let ?s = "(dq_start q m')\<lparr>ds_q := q\<lparr>dq_pool := Some p'\<rparr>,
      ds_m := m'\<lparr>dm_blocks := pm, dm_data := (dm_data m')(1032 := ?d)\<rparr>, ds_pending := [1032]\<rparr>"
  have "dq_step 500 (dq_start q m') ?s"
    using Prepare [of "dq_start q m'" ?d 1032] a nd by (simp add: dq_start_def)
  then have "(dq_step 500 ^^ 1) (dq_start q m') ?s" by (simp only: relpowp_1)
  with c(1) nd show ?thesis by (intro that [of q m' ?s]) simp_all
qed



section \<open>The loop of the worker\<close>

text \<open>
  C20: (termination) The worker loop, given a queue that holds posts and then the kill request, and
  functions that do not touch the queue, returns: it has called the posted functions in order, put
  their blocks back, and sent the exit signal.
\<close>

theorem dispatch_queue_worker_drains:
  assumes "dq_queue q = Some tq" and "ts_inv tq" and "ts_contents tq = xs @ self # ys"
    and "dq_pool q = Some p" and "pl_free_in B (p, dm_blocks m) fs" and "pool_budget (length xs) p"
    and "distinct (xs @ fs)" and "set xs \<subseteq> B" and "self \<notin> set xs"
    and "\<forall>x \<in> set xs. pd_fn (dm_data m x) \<noteq> NULL" and "length envs = Suc (length xs)"
  shows "\<exists>q' m' p'. dispatch_queue_worker (\<lambda>_ c. c) self envs q m =
      Some (Inr (map (dm_data m) xs, q', m')) \<and> dq_pool q' = Some p' \<and>
    pl_free_in B (p', dm_blocks m') (fs @ xs) \<and> ef_val (dq_signal q') AND 1 = 1"
  using assms
proof (induction xs arbitrary: q tq p m fs envs)
  case Nil
  then obtain now ws where e: "envs = [(now, ws)]" by (auto simp: length_Suc_conv)
  from Nil have "ts_contents tq = self # ys" by simp
  then obtain tq' where t: "worker_take q now ws = Some (Inr (self, q\<lparr>dq_queue := Some tq'\<rparr>))"
    using worker_take_some [OF Nil(1,2)] by metis
  have "(v OR 1) AND 1 = 1" for v :: u32 by (rule bit_eqI) (auto simp: bit_simps)
  with t e Nil show ?case by (simp add: signal_send_def event_flag_send_def)
next
  case (Cons x xs)
  obtain now ws envs' where e: "envs = (now, ws) # envs'" "length envs' = Suc (length xs)"
    using Cons.prems(11) by (cases envs) auto
  have "ts_contents tq = x # (xs @ self # ys)" using Cons.prems(3) by simp
  then obtain tq' where t: "worker_take q now ws = Some (Inr (x, q\<lparr>dq_queue := Some tq'\<rparr>))" "ts_inv tq'"
    "ts_contents tq' = xs @ self # ys"
    using worker_take_some [OF Cons.prems(1,2)] by metis
  let ?q1 = "q\<lparr>dq_queue := Some tq'\<rparr>"
  have x: "x \<in> B" "x \<notin> set fs" "x \<noteq> self" "pd_fn (dm_data m x) \<noteq> NULL" using Cons.prems(7-10) by auto
  have "dq_pool ?q1 = Some p" "pool_budget (Suc (length xs)) p" using Cons.prems(4,6) by simp_all
  then obtain p' pm where f: "worker_release ?q1 x m = Inr (?q1\<lparr>dq_pool := Some p'\<rparr>, m\<lparr>dm_blocks := pm\<rparr>)"
    "pl_free_in B (p', pm) (fs @ [x])" "pool_budget (length xs) p'"
    using worker_release_ok [OF _ Cons.prems(5) x(1,2)] by metis
  let ?q2 = "?q1\<lparr>dq_pool := Some p'\<rparr>" and ?m2 = "m\<lparr>dm_blocks := pm\<rparr>"
  have "\<exists>q' m' p'. dispatch_queue_worker (\<lambda>_ c. c) self envs' ?q2 ?m2 =
      Some (Inr (map (dm_data ?m2) xs, q', m')) \<and> dq_pool q' = Some p' \<and>
    pl_free_in B (p', dm_blocks m') ((fs @ [x]) @ xs) \<and> ef_val (dq_signal q') AND 1 = 1"
    using Cons.prems(7-10) t f e(2) by (intro Cons.IH [of ?q2 tq' p']) auto
  then show ?case using e(1) t(1) x f(1) by auto
qed

theorem dispatch_queue_worker_drains_witness:
  "\<exists>q' m'. dispatch_queue_worker (\<lambda>_ c. c) 500 [(zero_timespec, []), (zero_timespec, [])]
     \<lparr>destroying = True, dq_queue = Some \<lparr>pp_ptr_array = [1032, 500], q_size = 2, q_count = 2, q_head = 2, q_tail = 0\<rparr>,
      dq_task = None, dq_pool = Some \<lparr>pool_q = Some ts_example, num_of_elements = 1, element_size = 24,
        offset_data_from_header = 32\<rparr>, dq_label = None, dq_signal = \<lparr>ef_val = 0\<rparr>\<rparr>
     \<lparr>dm_blocks = \<lparr>hdr = (\<lambda>_. fresh_header\<lparr>retain_count := 1\<rparr>), trailer = (\<lambda>_. POOL_ELEMENT_TRAILER_SANITY)\<rparr>,
      dm_data = (\<lambda>_. \<lparr>pd_fn = 3, pd_arg1 = 4, pd_arg2 = 5\<rparr>)\<rparr> =
   Some (Inr ([\<lparr>pd_fn = 3, pd_arg1 = 4, pd_arg2 = 5\<rparr>], q', m'))"
proof -
  let ?p = "\<lparr>pool_q = Some ts_example, num_of_elements = 1, element_size = 24, offset_data_from_header = 32\<rparr>"
  let ?m = "\<lparr>dm_blocks = \<lparr>hdr = (\<lambda>_. fresh_header\<lparr>retain_count := 1\<rparr>), trailer = (\<lambda>_. POOL_ELEMENT_TRAILER_SANITY)\<rparr>,
      dm_data = (\<lambda>_. \<lparr>pd_fn = 3, pd_arg1 = 4, pd_arg2 = 5\<rparr>)\<rparr>"
  let ?tq = "\<lparr>pp_ptr_array = [1032, 500], q_size = 2, q_count = 2, q_head = 2, q_tail = 0\<rparr>"
  let ?q = "\<lparr>destroying = True, dq_queue = Some ?tq, dq_task = None, dq_pool = Some ?p, dq_label = None,
      dq_signal = \<lparr>ef_val = 0\<rparr>\<rparr>"
  have "pl_free_in {1032} (?p, dm_blocks ?m) []"
    using ts_example_ok by (simp add: pl_free_in_def pool_rep_def pool_check_def fresh_header_def)
  moreover have "ts_inv ?tq" by (simp add: ts_inv_def ts_len_def power_of_2_def)
  moreover have "ts_contents ?tq = [1032] @ 500 # []"
  proof -
    have "ts_len ?tq = Suc (Suc 0)" by (simp add: ts_len_def)
    then show ?thesis by (simp add: ts_contents_def ring_slice_Cons)
  qed
  moreover have "pool_budget (length [1032 :: addr]) ?p" by (simp add: pool_budget_def ts_example_def)
  ultimately show ?thesis
    using dispatch_queue_worker_drains [of ?q ?tq "[1032]" 500 "[]" ?p "{1032}" ?m "[]"
        "[(zero_timespec, []), (zero_timespec, [])]"] by fastforce
qed

text \<open>
  (error) When the queue is full of posts there is no room for the kill request: a call of
  \<open>dispatch_queue_destroy\<close> fails its assertion instead of waiting for the posts to be run.
\<close>

theorem dispatch_queue_destroy_full:
  assumes "dq_queue q = Some tq" and "ts_inv tq" and "ts_len tq = unat (q_size tq)"
    and "\<not> destroying q" and "self \<noteq> NULL"
  shows "dispatch_queue_destroy self (Some q) now [times_out] others trylock_rc timedlock wakes join_rc =
    Some (Inl Assert_Failed)"
  using dispatch_enqueue_full [of "q\<lparr>destroying := True\<rparr>" tq self now] assms
  by (simp add: dispatch_queue_destroy_def)

theorem dispatch_queue_destroy_full_witness:
  "dispatch_queue_destroy 500 (Some \<lparr>destroying = False,
     dq_queue = Some \<lparr>pp_ptr_array = [1032], q_size = 1, q_count = 1, q_head = 1, q_tail = 0\<rparr>, dq_task = None,
     dq_pool = None, dq_label = None, dq_signal = \<lparr>ef_val = 0\<rparr>\<rparr>) zero_timespec [times_out] id 0 (\<lambda>_. 0) [] 0 =
   Some (Inl Assert_Failed)"
  by (rule dispatch_queue_destroy_full [where tq = "\<lparr>pp_ptr_array = [1032], q_size = 1, q_count = 1,
        q_head = 1, q_tail = 0\<rparr>"])
     (simp_all add: ts_inv_def ts_len_def power_of_2_def)

end
