(* ===== verification/State_Event_Loop.thy ===== *)
theory State_Event_Loop
  imports Dispatch_Queue Notifier State_Machine
begin

text \<open>
  The state event loop of \<open>inc/cutils/state_event_loop.h\<close> and \<open>src/state_event_loop.c\<close>: events are copied
  into a pool and posted to a dispatch queue, whose worker hands each event to the state machines, to
  the listeners of its category, and back to the pool. It composes \<open>Dispatch_Queue\<close>, \<open>Pool\<close>,
  \<open>State_Machine\<close> and \<open>Notifier\<close>.
\<close>

section \<open>State\<close>

record event =
  event_id :: u32
  ev_loop :: addr
  to_string :: addr
  ev_data :: "u8 list"

text \<open>The machines of the loop are an array; \<open>el_p_sm\<close> lists their addresses.\<close>

record state_event_loop =
  el_p_sm :: "addr list"
  num_machines :: u32
  p_exec_queue :: "dispatch_queue option"
  p_pool_of_events :: "pool option"
  el_notifier :: "notifier option"
  event_data_size :: u32
  el_name :: ctext
  event_pre_proc_f :: addr
  el_client_data :: addr
  el_log_enabled :: bool
  el_log_level :: u32

record state_event_loop_create_params =
  lp_event_loop :: addr
  lp_notifier_create_params :: notifier_create_params
  lp_queue_params :: dispatch_queue_create_params
  lp_event_pool_create_params :: pool_create_params
  lp_sm_create_params :: "state_machine_create_params list"
  lp_p_sm :: "addr list"
  lp_num_machines :: u32
  lp_name :: ctext
  lp_exec_queue_priority :: u32
  lp_event_data_size :: u32

text \<open>
  The world: the loop at its address, the machines and the client's data, the memory of the three
  pools, the events at the address of each block, and the loop recorded in each registration.
\<close>

record 'c sel =
  sl_self :: addr
  sl_loop :: state_event_loop
  sl_sm :: "'c sm_world"
  sl_nmem :: notifier_mem
  sl_pmem :: pool_mem
  sl_dmem :: dq_mem
  sl_events :: "addr \<Rightarrow> event"
  sl_reg_loop :: "addr \<Rightarrow> addr"

definition SIZEOF_EVENT :: nat where
  "SIZEOF_EVENT = 24"

section \<open>Creation and destruction\<close>

record sel_rcs =
  sr_dq :: dq_rcs
  sr_worker :: addr
  sr_nt_mutex :: bool
  sr_nt_pool_mutex :: bool
  sr_nt_cond :: int
  sr_nt_full_cond :: int
  sr_ev_mutex :: bool
  sr_ev_cond :: int
  sr_ev_full_cond :: int

fun create_machines :: "state_machine_create_params list \<Rightarrow> 'c sm_world \<Rightarrow> 'c sm_world res" where
  "create_machines [] w = Inr w"
| "create_machines (ps # pss) w =
     bind_res (state_machine_create (Some ps) w) (\<lambda>(_, w'). create_machines pss w')"

text \<open>
  Whether the loop is returned, the locks that were destroyed again, and the world. When the sizes do
  not match, the pool and the notifier are taken down again; the dispatch queue is not.
\<close>

definition state_event_loop_init ::
  "state_event_loop_create_params \<Rightarrow> addr \<Rightarrow> sel_rcs \<Rightarrow> 'c sel \<Rightarrow> (bool \<times> ts_resource list \<times> 'c sel) res" where
  "state_event_loop_init params dq_addr rcs w =
     (if lp_event_loop params = NULL \<or> lp_p_sm params = [] \<or>
         unat (lp_event_data_size params) \<le> SIZEOF_EVENT then Inl Assert_Failed
      else bind_res (dispatch_queue_create dq_addr (Some (lp_queue_params params)) (sr_dq rcs)
                       (sr_worker rcs) (sl_dmem w)) (\<lambda>(dq, dm).
        let el0 = (sl_loop w)\<lparr>event_data_size := lp_event_data_size params, p_exec_queue := Some dq,
                    el_log_enabled := True, el_name := lp_name params, el_log_level := 0,
                    num_machines := lp_num_machines params,
                    el_p_sm := lp_p_sm params\<rparr>
        in if length (lp_sm_create_params params) < unat (num_machines el0) then Inl Out_Of_Bounds
           else bind_res (create_machines (take (unat (num_machines el0)) (lp_sm_create_params params))
                            (sl_sm w)) (\<lambda>sm.
             bind_res (notifier_init (Some (lp_notifier_create_params params)) (sr_nt_mutex rcs)
                         (sr_nt_pool_mutex rcs) (sr_nt_cond rcs) (sr_nt_full_cond rcs) (sl_nmem w))
               (\<lambda>(nt_ok, nt, nm).
                  if \<not> nt_ok then Inl Assert_Failed
                  else bind_res (pool_create (lp_event_pool_create_params params) (sr_ev_mutex rcs)
                                   (sr_ev_cond rcs) (sr_ev_full_cond rcs) (sl_pmem w)) (\<lambda>(pl, pl_ok, pm).
                    case pl of
                      Some p \<Rightarrow>
                        if \<not> pl_ok then Inl Assert_Failed
                        else (let w1 = w\<lparr>sl_self := lp_event_loop params, sl_sm := sm, sl_nmem := nm,
                                       sl_pmem := pm, sl_dmem := dm\<rparr>
                              in if element_size p \<noteq> unat (lp_event_data_size params) \<or>
                                    num_of_elements p \<noteq> unat (tp_size (dp_queue_params (lp_queue_params params)))
                                 then bind_res (notifier_deinit (Some nt)) (\<lambda>(_, rs).
                                   Inr (False, snd (pool_destroy (Some p)) @ rs, w1\<lparr>sl_loop := el0\<lparr>el_notifier := None,
                                                                  p_pool_of_events := None\<rparr>\<rparr>))
                                 else Inr (True, [], w1\<lparr>sl_loop := el0\<lparr>el_notifier := Some nt,
                                                                    p_pool_of_events := Some p\<rparr>\<rparr>))
                    | None \<Rightarrow> Inl Assert_Failed)))))"

text \<open>A call on every machine, in the order of the array.\<close>

fun each_machine :: "(addr \<Rightarrow> 'w \<Rightarrow> 'w res) \<Rightarrow> addr list \<Rightarrow> nat \<Rightarrow> 'w \<Rightarrow> 'w res" where
  "each_machine f ps 0 w = Inr w"
| "each_machine f [] (Suc n) w = Inl Out_Of_Bounds"
| "each_machine f (p # ps) (Suc n) w = bind_res (f p w) (each_machine f ps n)"

abbreviation loop_machines :: "(addr \<Rightarrow> 'c sm_world \<Rightarrow> 'c sm_world res) \<Rightarrow> 'c sel \<Rightarrow> 'c sel res" where
  "loop_machines f w \<equiv>
     bind_res (each_machine f (el_p_sm (sl_loop w)) (unat (num_machines (sl_loop w))) (sl_sm w))
       (\<lambda>sm. Inr (w\<lparr>sl_sm := sm\<rparr>))"

definition state_event_loop_start :: "'c callbacks \<Rightarrow> bool \<Rightarrow> 'c sel \<Rightarrow> 'c sel res" where
  "state_event_loop_start cb nonnull w =
     (if nonnull then loop_machines (state_machine_start cb) w else Inr w)"

definition state_event_loop_stop :: "'c callbacks \<Rightarrow> bool \<Rightarrow> 'c sel \<Rightarrow> 'c sel res" where
  "state_event_loop_stop cb nonnull w =
     (if nonnull then loop_machines (state_machine_stop cb) w else Inr w)"

text \<open>
  The dispatch queue is destroyed first; the list names the locks of the notifier and of the pool
  that are destroyed. \<open>others\<close>, \<open>timedlock\<close> and the rest describe its environment, as
  in \<open>dispatch_queue_destroy\<close>.
\<close>

definition state_event_loop_deinit ::
  "'c callbacks \<Rightarrow> bool \<Rightarrow> addr \<Rightarrow> timespec \<Rightarrow> outcome list \<Rightarrow> (dispatch_queue \<Rightarrow> dispatch_queue) \<Rightarrow> int
    \<Rightarrow> (timespec \<Rightarrow> int) \<Rightarrow> event_flag wake list \<Rightarrow> int \<Rightarrow> 'c sel \<Rightarrow> (ts_resource list \<times> 'c sel) res option" where
  "state_event_loop_deinit cb nonnull dq_addr now ws others trylock_rc timedlock wakes join_rc w =
     (if \<not> nonnull then Some (Inl Assert_Failed)
      else bind_wait (dispatch_queue_destroy dq_addr (p_exec_queue (sl_loop w)) now ws others trylock_rc
                        timedlock wakes join_rc) (\<lambda>(dq, _).
        Some (bind_res (state_event_loop_stop cb True
                          (w\<lparr>sl_loop := (sl_loop w)\<lparr>p_exec_queue := dq\<rparr>\<rparr>)) (\<lambda>w1.
          bind_res (notifier_deinit (el_notifier (sl_loop w1))) (\<lambda>(nt, rs).
            Inr (rs @ snd (pool_destroy (p_pool_of_events (sl_loop w1))),
                 w1\<lparr>sl_loop := (sl_loop w1)\<lparr>el_notifier := Some nt, p_pool_of_events := None\<rparr>\<rparr>))))))"

section \<open>Set-up\<close>

definition state_event_loop_add_state :: "bool \<Rightarrow> addr \<Rightarrow> u32 \<Rightarrow> 'c sel \<Rightarrow> 'c sel res" where
  "state_event_loop_add_state nonnull state state_mac_id w =
     (if \<not> nonnull then Inr w
      else if unat state_mac_id < length (el_p_sm (sl_loop w))
      then bind_res (state_machine_register_state (el_p_sm (sl_loop w) ! unat state_mac_id) state (sl_sm w))
             (\<lambda>sm. Inr (w\<lparr>sl_sm := sm\<rparr>))
      else Inl Out_Of_Bounds)"

text \<open>Only the first machine is looked at; the return value stays false.\<close>

definition state_event_loop_install_event_pre_proc ::
  "addr \<Rightarrow> addr \<Rightarrow> 'c sel \<Rightarrow> (bool \<times> 'c sel) res" where
  "state_event_loop_install_event_pre_proc fn client_data w =
     (case el_p_sm (sl_loop w) of
        [] \<Rightarrow> Inl Null_Deref
      | p # _ \<Rightarrow>
          Inr (False, if \<not> state_machine_started (w_sm (sl_sm w) p)
                      then w\<lparr>sl_loop := (sl_loop w)\<lparr>event_pre_proc_f := fn, el_client_data := client_data\<rparr>\<rparr>
                      else w))"

definition state_event_loop_allocate_registration ::
  "bool \<Rightarrow> timespec \<Rightarrow> outcome list \<Rightarrow> 'c sel \<Rightarrow> (addr \<times> 'c sel) res option" where
  "state_event_loop_allocate_registration nonnull now ws w =
     (if \<not> nonnull then Some (Inr (NULL, w))
      else map_option (\<lambda>r. bind_res r (\<lambda>(b, nt, nm).
             Inr (b, w\<lparr>sl_loop := (sl_loop w)\<lparr>el_notifier := Some nt\<rparr>, sl_nmem := nm\<rparr>)))
             (notifier_allocate_notification_block (el_notifier (sl_loop w)) now ws (sl_nmem w)))"

definition state_event_loop_register_notification ::
  "bool \<Rightarrow> u32 \<Rightarrow> addr \<Rightarrow> 'c sel \<Rightarrow> (bool \<times> 'c sel) res" where
  "state_event_loop_register_notification nonnull event_type p_reg w =
     (if nonnull \<and> p_reg \<noteq> NULL
      then bind_res (notifier_register_notification_block (el_notifier (sl_loop w)) event_type p_reg (sl_nmem w))
             (\<lambda>(ok, nt, nm).
                let w1 = w\<lparr>sl_loop := (sl_loop w)\<lparr>el_notifier := Some nt\<rparr>, sl_nmem := nm\<rparr>
                in if ok then Inr (True, w1\<lparr>sl_reg_loop := (sl_reg_loop w1)(p_reg := sl_self w1)\<rparr>)
                   else Inr (False, w1))
      else Inr (False, w))"

definition state_event_loop_deregister_notification :: "bool \<Rightarrow> addr \<Rightarrow> 'c sel \<Rightarrow> 'c sel res" where
  "state_event_loop_deregister_notification nonnull p_reg w =
     (if nonnull \<and> p_reg \<noteq> NULL
      then bind_res (notifier_deregister_notification_block (el_notifier (sl_loop w)) p_reg (sl_nmem w))
             (\<lambda>(nt, nm, _). Inr (w\<lparr>sl_loop := (sl_loop w)\<lparr>el_notifier := Some nt\<rparr>, sl_nmem := nm\<rparr>))
      else Inr w)"

definition state_event_loop_get_current_state :: "bool \<Rightarrow> u32 \<Rightarrow> 'c sel \<Rightarrow> addr res" where
  "state_event_loop_get_current_state nonnull i w =
     (if nonnull \<and> i < num_machines (sl_loop w)
      then (if unat i < length (el_p_sm (sl_loop w))
            then Inr (current_state (w_sm (sl_sm w) (el_p_sm (sl_loop w) ! unat i)))
            else Inl Out_Of_Bounds)
      else Inl Assert_Failed)"

definition state_event_loop_get_current_state_id :: "bool \<Rightarrow> u32 \<Rightarrow> 'c sel \<Rightarrow> u32 res" where
  "state_event_loop_get_current_state_id nonnull i w =
     (if nonnull \<and> i < num_machines (sl_loop w)
      then (if unat i < length (el_p_sm (sl_loop w))
            then (let st = current_state (w_sm (sl_sm w) (el_p_sm (sl_loop w) ! unat i))
                  in if st = NULL then Inl Assert_Failed else Inr (stateId (w_state (sl_sm w) st)))
            else Inl Out_Of_Bounds)
      else Inl Assert_Failed)"

section \<open>Events\<close>

definition state_event_loop_allocate_event ::
  "bool \<Rightarrow> timespec \<Rightarrow> outcome list \<Rightarrow> 'c sel \<Rightarrow> (addr \<times> 'c sel) res option" where
  "state_event_loop_allocate_event nonnull now ws w =
     (if \<not> nonnull then Some (Inr (NULL, w))
      else map_option (\<lambda>r. bind_res r (\<lambda>(e, pl, pm).
             if e = NULL then Inl Assert_Failed
             else Inr (e, w\<lparr>sl_loop := (sl_loop w)\<lparr>p_pool_of_events := pl\<rparr>, sl_pmem := pm\<rparr>)))
             (pool_alloc (p_pool_of_events (sl_loop w)) now ws (sl_pmem w)))"

definition state_event_loop_retain_event :: "bool \<Rightarrow> addr \<Rightarrow> 'c sel \<Rightarrow> 'c sel res" where
  "state_event_loop_retain_event nonnull e w =
     (if nonnull \<and> e \<noteq> NULL
      then bind_res (pool_retain (p_pool_of_events (sl_loop w)) e (sl_pmem w)) (\<lambda>pm. Inr (w\<lparr>sl_pmem := pm\<rparr>))
      else Inl Assert_Failed)"

definition state_event_loop_release_event :: "bool \<Rightarrow> addr \<Rightarrow> 'c sel \<Rightarrow> 'c sel res" where
  "state_event_loop_release_event nonnull e w =
     (if nonnull \<and> e \<noteq> NULL
      then bind_res (pool_free (p_pool_of_events (sl_loop w)) e (sl_pmem w)) (\<lambda>(pl, pm, _).
             Inr (w\<lparr>sl_loop := (sl_loop w)\<lparr>p_pool_of_events := pl\<rparr>, sl_pmem := pm\<rparr>))
      else Inl Assert_Failed)"

text \<open>
  \<open>exec_f\<close> is the address of \<open>state_event_loop_exec_queue_f\<close>. As many bytes as a block of the pool has are
  copied from \<open>evt\<close>; the result of \<open>dispatch_async_f\<close> is not looked at.
\<close>

definition state_event_loop_post ::
  "addr \<Rightarrow> bool \<Rightarrow> u32 \<Rightarrow> event option \<Rightarrow> timespec \<Rightarrow> outcome list \<Rightarrow> 'c sel \<Rightarrow> (bool \<times> 'c sel) res option" where
  "state_event_loop_post exec_f nonnull category evt now ws w =
     (case (nonnull, evt) of
        (True, Some ev) \<Rightarrow>
          bind_wait (state_event_loop_allocate_event True now ws w) (\<lambda>(e, w1).
            case p_pool_of_events (sl_loop w1) of
              None \<Rightarrow> Some (Inl Null_Deref)
            | Some pl \<Rightarrow>
                bind_wait (Some (read_from (ev_data ev) 0 (element_size pl - SIZEOF_EVENT))) (\<lambda>data.
                  let w2 = w1\<lparr>sl_events := (sl_events w1)(e := ev\<lparr>ev_data := data, ev_loop := sl_self w1,
                                event_id := category, to_string := to_string ev\<rparr>)\<rparr>
                  in bind_wait (dispatch_async_f (p_exec_queue (sl_loop w2)) exec_f e NULL now ws (sl_dmem w2))
                       (\<lambda>(_, dq, dm). Some (Inr (True,
                          w2\<lparr>sl_loop := (sl_loop w2)\<lparr>p_exec_queue := dq\<rparr>, sl_dmem := dm\<rparr>)))))
      | _ \<Rightarrow> Some (Inr (False, w)))"

text \<open>
  The worker's function. The client's pre-processor is \<open>pre\<close>, a function of the pointer, the event and the
  client data; the calls of the listeners are returned.
\<close>

definition state_event_loop_exec_queue_f ::
  "'c callbacks \<Rightarrow> (addr \<Rightarrow> addr \<Rightarrow> addr \<Rightarrow> 'c sm_world \<Rightarrow> 'c sm_world) \<Rightarrow> addr \<Rightarrow> 'c sel
    \<Rightarrow> (nt_call list \<times> 'c sel) res option" where
  "state_event_loop_exec_queue_f cb pre e w =
     (if e = NULL \<or> ev_loop (sl_events w e) = NULL then Some (Inl Null_Deref)
      else let el = sl_loop w;
               sm0 = (if event_pre_proc_f el \<noteq> NULL then pre (event_pre_proc_f el) e (el_client_data el) (sl_sm w)
                      else sl_sm w)
           in (case each_machine (\<lambda>p sm. bind_res (state_machine_handle_event cb p e sm)
                                     (state_machine_transition cb p))
                      (el_p_sm el) (unat (num_machines el)) sm0 of
                 Inl f \<Rightarrow> Some (Inl f)
               | Inr sm \<Rightarrow>
                   bind_wait (notifier_post_notification (el_notifier el) (event_id (sl_events w e)) e (sl_nmem w))
                     (\<lambda>calls. Some (bind_res (state_event_loop_release_event True e (w\<lparr>sl_sm := sm\<rparr>))
                        (\<lambda>w'. Inr (calls, w'))))))"

section \<open>Log prefixes\<close>

text \<open>The text an event renders, through its \<open>to_string\<close> pointer, is a parameter, with its bounds.\<close>

definition state_event_loop_state_prefix ::
  "ctext \<Rightarrow> prefix_f \<Rightarrow> addr \<Rightarrow> prefix_f" where
  "state_event_loop_state_prefix name render to_str p_event buf p string_size =
     bind_res (if unat string_size > length name
               then insert_to_string buf p 0 (name @ [0x3A, 0x20])
               else Inr (0, buf)) (\<lambda>(n, buf1).
       if p_event \<noteq> NULL \<and> to_str \<noteq> NULL
       then bind_res (render p_event buf1 (p + unat n) (string_size - n)) (\<lambda>(k, buf2). Inr (n + k, buf2))
       else Inr (n, buf1))"

fun machine_names :: "'c sm_world \<Rightarrow> addr list \<Rightarrow> nat \<Rightarrow> ctext \<Rightarrow> nat \<Rightarrow> u32 \<Rightarrow> (u32 \<times> ctext) res" where
  "machine_names w (q # qs) (Suc k) buf p n =
     (if current_state (w_sm w q) \<noteq> NULL
      then bind_res (insert_to_string buf p n (0x3A # state_name (w_state w (current_state (w_sm w q)))))
             (\<lambda>(n1, buf1). machine_names w qs k buf1 p n1)
      else machine_names w qs k buf p n)"
| "machine_names w [] (Suc k) buf p n = Inl Out_Of_Bounds"
| "machine_names w qs 0 buf p n = Inr (n, buf)"

definition state_event_loop_logger_prefix ::
  "'c sel \<Rightarrow> prefix_f \<Rightarrow> addr \<Rightarrow> prefix_f" where
  "state_event_loop_logger_prefix w render to_str client_data str p string_size =
     bind_res (insert_to_string str p 0 (el_name (sl_loop w))) (\<lambda>(n, b).
     bind_res (if el_p_sm (sl_loop w) = [] then Inr (n, b)
               else machine_names (sl_sm w) (el_p_sm (sl_loop w)) (unat (num_machines (sl_loop w))) b p n)
       (\<lambda>(n1, b1).
          if client_data \<noteq> NULL \<and> to_str \<noteq> NULL
          then bind_res (insert_to_string b1 p n1 [0x3A]) (\<lambda>(n2, b2).
               bind_res (render client_data b2 (p + unat n2) (string_size - n2)) (\<lambda>(k, b3). Inr (n2 + k, b3)))
          else Inr (n1, b1)))"

section \<open>Several machines\<close>

text \<open>
  A machine of the loop: its address, its states and its current state. The machines share the record
  of entered states and the client's data, and take an event one after the other.
\<close>

type_synonym machine = "addr \<times> addr list \<times> addr"

fun autos_step ::
  "'c pure_client \<Rightarrow> (addr \<Rightarrow> sm_state) \<Rightarrow> addr \<Rightarrow> machine list \<Rightarrow> addr set \<Rightarrow> 'c
    \<Rightarrow> (machine list \<times> addr set \<times> 'c) option" where
  "autos_step P st e [] seen c = Some ([], seen, c)"
| "autos_step P st e ((p, regs, cur) # ts) seen c =
     (case auto_step P p st regs e (cur, seen, c) of
        None \<Rightarrow> None
      | Some (cur', seen', c') \<Rightarrow>
          map_option (\<lambda>(ts', r). ((p, regs, cur') # ts', r)) (autos_step P st e ts seen' c'))"

definition machines_rep ::
  "(addr \<Rightarrow> sm_state) \<Rightarrow> machine list \<Rightarrow> addr set \<Rightarrow> 'c \<Rightarrow> 'c sm_world \<Rightarrow> bool" where
  "machines_rep st ts seen c w \<longleftrightarrow>
     distinct (map fst ts) \<and> (\<forall>(p, regs, cur) \<in> set ts. sm_rep p st regs (cur, seen, c) w)"

lemma sm_rep_frame:
  assumes "sm_rep p st regs (cur, seen, c) w" and "w_sm w1 p = w_sm w p"
    and "sm_rep p1 st regs1 (cur1, seen1, c1) w1"
  shows "sm_rep p st regs (cur, seen1, c1) w1"
  using assms by (simp add: sm_rep_def sm_registered_def)

lemma each_machine_pure:
  assumes "machines_rep st (ds @ ts) seen c w" and "e \<noteq> NULL" and "w_client w = c"
    and "autos_step P st e ts seen c = Some (ts', seen', c')"
  shows "\<exists>w'. each_machine (\<lambda>p. sm_dispatch (pure_callbacks P) p e) (map fst ts) (length ts) w = Inr w' \<and>
    machines_rep st (ds @ ts') seen' c' w' \<and> w_client w' = c' \<and> map fst ts' = map fst ts"
  using assms
proof (induction ts arbitrary: ds seen c w ts')
  case Nil
  then show ?case by auto
next
  case (Cons t ts)
  obtain p regs cur where t: "t = (p, regs, cur)" by (cases t)
  obtain cur1 seen1 c1 ts1 where step: "auto_step P p st regs e (cur, seen, c) = Some (cur1, seen1, c1)"
    and rest: "autos_step P st e ts seen1 c1 = Some (ts1, seen', c')" and ts': "ts' = (p, regs, cur1) # ts1"
    using Cons.prems(4) t by (auto split: option.splits prod.splits)
  have rep: "sm_rep p st regs (cur, seen, c) w" using Cons.prems(1) t by (auto simp: machines_rep_def)
  from sm_dispatch_pure [OF rep Cons.prems(2) step] obtain w1
    where w1: "sm_dispatch (pure_callbacks P) p e w = Inr w1" "sm_rep p st regs (cur1, seen1, c1) w1"
      "\<And>r. r \<noteq> p \<Longrightarrow> w_sm w1 r = w_sm w r" by blast
  have "machines_rep st ((ds @ [(p, regs, cur1)]) @ ts) seen1 c1 w1"
  proof -
    have "sm_rep q st rs (cu, seen1, c1) w1" if "(q, rs, cu) \<in> set ds \<union> set ts" for q rs cu
    proof (rule sm_rep_frame [OF _ _ w1(2)])
      have "(q, rs, cu) \<in> set (ds @ t # ts)" using that by auto
      then show "sm_rep q st rs (cu, seen, c) w" using Cons.prems(1) unfolding machines_rep_def by blast
      have "distinct (map fst (ds @ t # ts))" using Cons.prems(1) by (simp add: machines_rep_def)
      moreover have "q \<in> fst ` set ds \<union> fst ` set ts" using that by force
      ultimately have "q \<noteq> p" using t by auto
      then show "w_sm w1 q = w_sm w q" by (rule w1(3))
    qed
    with Cons.prems(1) w1(2) t show ?thesis by (auto simp: machines_rep_def)
  qed
  moreover have "w_client w1 = c1" using w1(2) by (simp add: sm_rep_def)
  ultimately obtain w' where "each_machine (\<lambda>p. sm_dispatch (pure_callbacks P) p e) (map fst ts) (length ts) w1 = Inr w'"
    "machines_rep st ((ds @ [(p, regs, cur1)]) @ ts1) seen' c' w'" "w_client w' = c'" "map fst ts1 = map fst ts"
    using Cons.IH [OF _ Cons.prems(2) _ rest, of "ds @ [(p, regs, cur1)]" w1] by blast
  then show ?case using w1(1) t ts' by simp
qed

section \<open>One event\<close>

text \<open>
  \<open>sel_wired\<close>: the listeners \<open>ls\<close> of every category and the free listener blocks, and the free event
  blocks of a loop; \<open>sel_rep\<close>: also its machines.
\<close>

definition sel_wired ::
  "addr set \<Rightarrow> addr set \<Rightarrow> addr list list \<Rightarrow> addr list \<Rightarrow> addr list \<Rightarrow> 'c sel \<Rightarrow> bool" where
  "sel_wired NB EB ls nfs fs w \<longleftrightarrow>
     sl_self w \<noteq> NULL \<and>
     (\<exists>n. el_notifier (sl_loop w) = Some n \<and> nt_rep NB n (sl_nmem w) ls nfs \<and> execute_f n \<noteq> NULL) \<and>
     (\<exists>p. p_pool_of_events (sl_loop w) = Some p \<and> pl_free_in EB (p, sl_pmem w) fs)"

definition sel_rep ::
  "(addr \<Rightarrow> sm_state) \<Rightarrow> addr set \<Rightarrow> addr set \<Rightarrow> machine list \<Rightarrow> addr set \<Rightarrow> 'c \<Rightarrow> addr list list \<Rightarrow> addr list
    \<Rightarrow> addr list \<Rightarrow> 'c sel \<Rightarrow> bool" where
  "sel_rep st NB EB ts seen c ls nfs fs w \<longleftrightarrow>
     sel_wired NB EB ls nfs fs w \<and> el_p_sm (sl_loop w) = map fst ts \<and>
     unat (num_machines (sl_loop w)) = length ts \<and> machines_rep st ts seen c (sl_sm w) \<and> w_client (sl_sm w) = c"

definition listener_f :: "'c sel \<Rightarrow> addr" where
  "listener_f w = execute_f (the (el_notifier (sl_loop w)))"

text \<open>The client's data after its pre-processor, if there is one.\<close>

definition pre_processed :: "(addr \<Rightarrow> addr \<Rightarrow> addr \<Rightarrow> 'c \<Rightarrow> 'c) \<Rightarrow> addr \<Rightarrow> 'c sel \<Rightarrow> 'c \<Rightarrow> 'c" where
  "pre_processed pp e w c =
     (if event_pre_proc_f (sl_loop w) \<noteq> NULL
      then pp (event_pre_proc_f (sl_loop w)) e (el_client_data (sl_loop w)) c else c)"

definition pure_pre :: "(addr \<Rightarrow> addr \<Rightarrow> addr \<Rightarrow> 'c \<Rightarrow> 'c) \<Rightarrow> addr \<Rightarrow> addr \<Rightarrow> addr \<Rightarrow> 'c sm_world \<Rightarrow> 'c sm_world" where
  "pure_pre pp f e d sm = sm\<lparr>w_client := pp f e d (w_client sm)\<rparr>"

lemma machines_rep_client:
  "machines_rep st ts seen c w \<Longrightarrow> machines_rep st ts seen c' (w\<lparr>w_client := c'\<rparr>)"
  by (auto simp: machines_rep_def sm_rep_def sm_registered_def)

text \<open>The event a client hands over is as large as a block of the pool.\<close>

definition event_fits :: "event \<Rightarrow> 'c sel \<Rightarrow> bool" where
  "event_fits ev w \<longleftrightarrow>
     (\<exists>p. p_pool_of_events (sl_loop w) = Some p \<and> length (ev_data ev) = element_size p - SIZEOF_EVENT)"

definition sel_event_budget :: "nat \<Rightarrow> 'c sel \<Rightarrow> bool" where
  "sel_event_budget k w \<longleftrightarrow> (\<exists>p. p_pool_of_events (sl_loop w) = Some p \<and> pool_budget k p)"

lemma exec_queue_ok:
  assumes rep: "sel_rep st NB EB ts seen c ls nfs fs w"
    and e: "e \<in> EB" "e \<notin> set fs" "ev_loop (sl_events w e) \<noteq> NULL"
    and cat: "unat (event_id (sl_events w e)) < length ls"
    and step: "autos_step P st e ts seen (pre_processed pp e w c) = Some (ts', seen', c')"
    and bud: "sel_event_budget (Suc k) w"
  obtains w' where "state_event_loop_exec_queue_f (pure_callbacks P) (pure_pre pp) e w =
      Some (Inr (map (\<lambda>b. (listener_f w, b, event_id (sl_events w e), e)) (ls ! unat (event_id (sl_events w e))), w'))"
    "sel_rep st NB EB ts' seen' c' ls nfs (fs @ [e]) w'" "sel_event_budget k w'"
    "\<exists>sm p pm. w' = w\<lparr>sl_sm := sm, sl_loop := (sl_loop w)\<lparr>p_pool_of_events := p\<rparr>, sl_pmem := pm\<rparr>"
proof -
  let ?el = "sl_loop w" and ?id = "event_id (sl_events w e)"
  obtain n where n: "el_notifier ?el = Some n" "nt_rep NB n (sl_nmem w) ls nfs" "execute_f n \<noteq> NULL"
    using rep by (auto simp: sel_rep_def sel_wired_def)
  obtain p where p: "p_pool_of_events ?el = Some p" "pl_free_in EB (p, sl_pmem w) fs"
    using rep by (auto simp: sel_rep_def sel_wired_def)
  have m: "machines_rep st ts seen c (sl_sm w)" "w_client (sl_sm w) = c" "el_p_sm ?el = map fst ts"
    "unat (num_machines ?el) = length ts" using rep by (auto simp: sel_rep_def sel_wired_def)
  have "NULL \<notin> EB" using p(2) by (simp add: pl_free_in_def pool_rep_def)
  then have en: "e \<noteq> NULL" using e(1) by metis
  let ?sm0 = "if event_pre_proc_f ?el \<noteq> NULL then pure_pre pp (event_pre_proc_f ?el) e (el_client_data ?el) (sl_sm w)
      else sl_sm w"
  have m0: "machines_rep st ([] @ ts) seen (pre_processed pp e w c) ?sm0"
    "w_client ?sm0 = pre_processed pp e w c"
    using m machines_rep_client [OF m(1)] by (simp_all add: pre_processed_def pure_pre_def)
  obtain sm' where s: "each_machine (\<lambda>p. sm_dispatch (pure_callbacks P) p e) (map fst ts) (length ts) ?sm0 = Inr sm'"
    "machines_rep st ts' seen' c' sm'" "w_client sm' = c'" "map fst ts' = map fst ts"
    using each_machine_pure [OF m0(1) en m0(2) step] by auto
  have pb: "pool_budget (Suc k) p" using bud p(1) by (simp add: sel_event_budget_def)
  obtain p' pm cs where f: "pool_free (Some p) e (sl_pmem w) = Inr (Some p', pm, cs)"
    "pl_free_in EB (p', pm) (fs @ [e])" "pool_budget k p'"
    by (rule pool_free_free [OF p(2) e(1,2) pb])
  let ?w = "w\<lparr>sl_sm := sm', sl_loop := ?el\<lparr>p_pool_of_events := Some p'\<rparr>, sl_pmem := pm\<rparr>"
  have ev: "each_machine (\<lambda>p sm. bind_res (state_machine_handle_event (pure_callbacks P) p e sm)
      (state_machine_transition (pure_callbacks P) p)) (map fst ts) (length ts) ?sm0 = Inr sm'"
    using s(1) unfolding sm_dispatch_def by simp
  have "state_event_loop_exec_queue_f (pure_callbacks P) (pure_pre pp) e w =
      Some (Inr (map (\<lambda>b. (listener_f w, b, ?id, e)) (ls ! unat ?id), ?w))"
    unfolding state_event_loop_exec_queue_f_def Let_def m(3,4)
    using ev e(3) en n(1) f(1) p(1) notifier_post_ok [OF n(2) cat n(3), of e]
    by (simp add: state_event_loop_release_event_def listener_f_def)
  moreover have "sel_rep st NB EB ts' seen' c' ls nfs (fs @ [e]) ?w"
    using rep s n f(2) map_eq_imp_length_eq [OF s(4)] by (auto simp: sel_rep_def sel_wired_def)
  moreover have "sel_event_budget k ?w" using f(3) by (simp add: sel_event_budget_def)
  ultimately show ?thesis by (rule that) blast
qed

section \<open>Posting\<close>

text \<open>The dispatch queue of a loop: its blocks \<open>DB\<close>, the free ones, and the queued ones.\<close>

definition sel_queue :: "addr set \<Rightarrow> addr list \<Rightarrow> addr list \<Rightarrow> 'c sel \<Rightarrow> bool" where
  "sel_queue DB dfs qs w \<longleftrightarrow>
     (\<exists>q p tq. p_exec_queue (sl_loop w) = Some q \<and> dq_pool q = Some p \<and> dq_queue q = Some tq \<and>
        \<not> destroying q \<and> pl_free_in DB (p, dm_blocks (sl_dmem w)) dfs \<and> NULL \<notin> DB \<and> ts_inv tq \<and> ts_fits tq \<and>
        ts_contents tq = qs \<and> length qs < unat (q_size tq))"

lemma state_event_loop_post_ok:
  assumes rep: "sel_rep st NB EB ts seen c ls nfs (x # fs) w" and q: "sel_queue DB (y # dfs) qs w"
    and bud: "sel_event_budget k w" and fit: "event_fits ev w"
  obtains w' where "state_event_loop_post exec_f True cat (Some ev) now ws w = Some (Inr (True, w'))"
    "sel_rep st NB EB ts seen c ls nfs fs w'" "sel_event_budget k w'"
    "sl_events w' x = ev\<lparr>ev_loop := sl_self w, event_id := cat\<rparr>" "x \<in> EB" "x \<notin> set fs" "sl_self w' = sl_self w"
    "event_pre_proc_f (sl_loop w') = event_pre_proc_f (sl_loop w)"
    "el_client_data (sl_loop w') = el_client_data (sl_loop w)"
    "listener_f w' = listener_f w"
    "\<exists>dq tq p'. p_exec_queue (sl_loop w') = Some dq \<and> dq_queue dq = Some tq \<and> ts_inv tq \<and>
       ts_contents tq = qs @ [y] \<and> dq_pool dq = Some p' \<and> pl_free_in DB (p', dm_blocks (sl_dmem w')) dfs \<and>
       dm_data (sl_dmem w') y = \<lparr>pd_fn = exec_f, pd_arg1 = x, pd_arg2 = NULL\<rparr>"
proof -
  let ?el = "sl_loop w" and ?d = "\<lparr>pd_fn = exec_f, pd_arg1 = x, pd_arg2 = NULL\<rparr>"
  obtain p where p: "p_pool_of_events ?el = Some p" "pl_free_in EB (p, sl_pmem w) (x # fs)"
    using rep by (auto simp: sel_rep_def sel_wired_def)
  obtain p1 pm where a: "pool_alloc (Some p) now ws (sl_pmem w) = Some (Inr (x, Some p1, pm))"
    "pl_free_in EB (p1, pm) fs" "\<And>n. pool_budget n p \<Longrightarrow> pool_budget n p1" "x \<in> EB" "x \<notin> set fs" "x \<noteq> NULL"
    "element_size p1 = element_size p"
    by (rule pool_alloc_free [OF p(2)]) blast
  have data: "read_from (ev_data ev) 0 (element_size p1 - SIZEOF_EVENT) = Inr (ev_data ev)"
    using fit p(1) a(7) by (simp add: event_fits_def read_from_def)
  obtain dq dp tq where d: "p_exec_queue ?el = Some dq" "dq_pool dq = Some dp" "dq_queue dq = Some tq"
    "\<not> destroying dq" "pl_free_in DB (dp, dm_blocks (sl_dmem w)) (y # dfs)" "NULL \<notin> DB" "ts_inv tq" "ts_fits tq"
    "ts_contents tq = qs" "length qs < unat (q_size tq)"
    using q by (auto simp: sel_queue_def)
  obtain dp1 dpm where dd: "dispatch_prepare dq ?d now ws (sl_dmem w) = Some (Inr (y, dq\<lparr>dq_pool := Some dp1\<rparr>,
      (sl_dmem w)\<lparr>dm_blocks := dpm, dm_data := (dm_data (sl_dmem w))(y := ?d)\<rparr>))" "pl_free_in DB (dp1, dpm) dfs"
    using dispatch_prepare_some [OF d(2,5,6)] by metis
  have "y \<in> DB" using d(5) by (simp add: pl_free_in_def pool_rep_def)
  then have "y \<noteq> NULL" using d(6) by metis
  then have "ts_room y tq" using d(7-10) length_ts_contents [of tq] by (simp add: ts_room_def)
  then obtain tq' where e: "dispatch_enqueue (dq\<lparr>dq_pool := Some dp1\<rparr>) y now ws =
      Some (Inr (dq\<lparr>dq_pool := Some dp1, dq_queue := Some tq'\<rparr>))" "ts_inv tq'" "ts_contents tq' = qs @ [y]"
    using dispatch_enqueue_room [of "dq\<lparr>dq_pool := Some dp1\<rparr>" tq y now ws] d(3,7,9) by auto
  let ?dm = "(sl_dmem w)\<lparr>dm_blocks := dpm, dm_data := (dm_data (sl_dmem w))(y := ?d)\<rparr>"
  let ?dq = "dq\<lparr>dq_pool := Some dp1, dq_queue := Some tq'\<rparr>"
  have post: "dispatch_async_f (Some dq) exec_f x NULL now ws (sl_dmem w) = Some (Inr (True, Some ?dq, ?dm))"
    using d(4) dd(1) e(1) by (simp add: dispatch_async_f_def)
  let ?w = "w\<lparr>sl_loop := ?el\<lparr>p_pool_of_events := Some p1, p_exec_queue := Some ?dq\<rparr>, sl_pmem := pm, sl_dmem := ?dm,
      sl_events := (sl_events w)(x := ev\<lparr>ev_loop := sl_self w, event_id := cat\<rparr>)\<rparr>"
  have "state_event_loop_post exec_f True cat (Some ev) now ws w = Some (Inr (True, ?w))"
    using a(1,6) p(1) d(1) post data
    by (simp add: state_event_loop_post_def state_event_loop_allocate_event_def Let_def)
  moreover have "sel_rep st NB EB ts seen c ls nfs fs ?w" using rep a(2) by (auto simp: sel_rep_def sel_wired_def)
  moreover have "sel_event_budget k ?w" using bud a(3) p(1) by (simp add: sel_event_budget_def)
  ultimately show ?thesis
    using a(4,5) e(2,3) dd(2) by (intro that [of ?w]) (simp_all add: listener_f_def)
qed

section \<open>Creation\<close>

text \<open>
  Parameters as \<open>STATE_EVENT_LOOP_CREATE_PARAMS_INIT\<close> makes them, with storage for every part: the blocks of
  the event pool are as large as the events, and there are as many as the queue takes.
\<close>

definition sel_params_ok :: "addr \<Rightarrow> state_event_loop_create_params \<Rightarrow> bool" where
  "sel_params_ok dq_addr ps \<longleftrightarrow>
     lp_event_loop ps \<noteq> NULL \<and> lp_p_sm ps \<noteq> [] \<and> SIZEOF_EVENT < unat (lp_event_data_size ps) \<and>
     dq_params_ok dq_addr (lp_queue_params ps) \<and>
     np_notifier (lp_notifier_create_params ps) \<noteq> None \<and>
     (case np_notif_array (lp_notifier_create_params ps) of
        None \<Rightarrow> False
      | Some arr \<Rightarrow> length arr = unat (np_total_categories (lp_notifier_create_params ps))) \<and>
     pool_params_ok (np_pool_params (lp_notifier_create_params ps)) \<and>
     np_execute_f (lp_notifier_create_params ps) \<noteq> NULL \<and>
     pool_params_ok (lp_event_pool_create_params ps) \<and>
     unat (lp_num_machines ps) \<le> length (lp_sm_create_params ps) \<and>
     (\<forall>sp \<in> set (lp_sm_create_params ps). sc_state_mac sp \<noteq> NULL)"

definition sel_sizes_ok :: "state_event_loop_create_params \<Rightarrow> bool" where
  "sel_sizes_ok ps \<longleftrightarrow>
     unat (pp_element_size_requested (lp_event_pool_create_params ps)) = unat (lp_event_data_size ps) \<and>
     unat (pp_num_of_elements (lp_event_pool_create_params ps)) = unat (tp_size (dp_queue_params (lp_queue_params ps)))"

definition sel_rcs_ok :: "sel_rcs \<Rightarrow> bool" where
  "sel_rcs_ok r \<longleftrightarrow>
     dq_rcs_ok (sr_dq r) \<and> sr_worker r \<noteq> NULL \<and> sr_nt_mutex r \<and> sr_nt_pool_mutex r \<and> sr_nt_cond r = 0 \<and>
     sr_nt_full_cond r = 0 \<and> sr_ev_mutex r \<and> sr_ev_cond r = 0 \<and> sr_ev_full_cond r = 0"

lemma create_machines_ok:
  "\<forall>sp \<in> set sps. sc_state_mac sp \<noteq> NULL \<Longrightarrow> \<exists>w'. create_machines sps w = Inr w'"
  by (induction sps arbitrary: w)
     (auto simp: state_machine_create_def state_machine_set_private_data_def)

lemma pool_create_sizes:
  assumes "pool_create p True 0 0 m = Inr (Some pl, True, m')"
  shows "element_size pl = unat (pp_element_size_requested p)"
    and "num_of_elements pl = unat (pp_num_of_elements p)"
  using assms by (auto simp: pool_create_def Let_def bind_res_def split: option.splits prod.splits bool.splits sum.splits)

lemma sel_parts_ok:
  assumes ok: "sel_params_ok dq_addr ps" and rc: "sel_rcs_ok rcs"
  obtains dq dm sm n nm p pm where
    "dispatch_queue_create dq_addr (Some (lp_queue_params ps)) (sr_dq rcs) (sr_worker rcs) (sl_dmem w) = Inr (dq, dm)"
    "create_machines (take (unat (lp_num_machines ps)) (lp_sm_create_params ps)) (sl_sm w) = Inr sm"
    "notifier_init (Some (lp_notifier_create_params ps)) True True 0 0 (sl_nmem w) = Inr (True, n, nm)"
    "pool_create (lp_event_pool_create_params ps) True 0 0 (sl_pmem w) = Inr (Some p, True, pm)"
    "nt_rep (set (pool_blocks (np_pool_params (lp_notifier_create_params ps)))) n nm
       (replicate (unat (np_total_categories (lp_notifier_create_params ps))) [])
       (pool_blocks (np_pool_params (lp_notifier_create_params ps)))"
    "execute_f n \<noteq> NULL"
    "pl_free_in (set (pool_blocks (lp_event_pool_create_params ps))) (p, pm) (pool_blocks (lp_event_pool_create_params ps))"
    "\<And>k. k < 2 ^ 63 \<Longrightarrow> pool_budget k p"
    "\<exists>dp tq. dq_rep (set (pool_blocks (dp_pool_params (lp_queue_params ps)))) dq_addr (dq_start dq dm) dp tq
       (pool_blocks (dp_pool_params (lp_queue_params ps)))"
    "\<And>k. k < 2 ^ 63 \<Longrightarrow> dq_budget k (dq_start dq dm)"
proof -
  let ?qp = "lp_queue_params ps" and ?np = "lp_notifier_create_params ps" and ?ep = "lp_event_pool_create_params ps"
  obtain dq dm dp tq where d: "dispatch_queue_create dq_addr (Some ?qp) (sr_dq rcs) (sr_worker rcs) (sl_dmem w) = Inr (dq, dm)"
    "dq_rep (set (pool_blocks (dp_pool_params ?qp))) dq_addr (dq_start dq dm) dp tq (pool_blocks (dp_pool_params ?qp))"
    "\<And>k. k < 2 ^ 63 \<Longrightarrow> dq_budget k (dq_start dq dm)"
    using dispatch_queue_create_ok [of dq_addr ?qp "sr_dq rcs" "sr_worker rcs" "sl_dmem w"] ok rc
    by (metis sel_params_ok_def sel_rcs_ok_def)
  have "\<forall>sp \<in> set (take (unat (lp_num_machines ps)) (lp_sm_create_params ps)). sc_state_mac sp \<noteq> NULL"
    using ok set_take_subset unfolding sel_params_ok_def by fast
  then obtain sm where m: "create_machines (take (unat (lp_num_machines ps)) (lp_sm_create_params ps)) (sl_sm w) = Inr sm"
    using create_machines_ok by blast
  obtain arr where a: "np_notif_array ?np = Some arr" "length arr = unat (np_total_categories ?np)"
    using ok by (auto simp: sel_params_ok_def split: option.splits)
  have nok: "np_notifier ?np \<noteq> None" "pool_params_ok (np_pool_params ?np)" "np_execute_f ?np \<noteq> NULL"
    using ok by (simp_all add: sel_params_ok_def)
  obtain n nm where n: "notifier_init (Some ?np) True True 0 0 (sl_nmem w) = Inr (True, n, nm)"
    "nt_rep (set (pool_blocks (np_pool_params ?np))) n nm (replicate (unat (np_total_categories ?np)) [])
       (pool_blocks (np_pool_params ?np))" "execute_f n \<noteq> NULL"
    using notifier_init_ok [OF nok(1) a nok(2), of "sl_nmem w"] nok(3) a(2) by metis
  have "pool_params_ok ?ep" using ok by (simp add: sel_params_ok_def)
  from pool_create_rep [OF this, of "sl_pmem w"] obtain p pm
    where p: "pool_create ?ep True 0 0 (sl_pmem w) = Inr (Some p, True, pm)"
      "pl_free_in (set (pool_blocks ?ep)) (p, pm) (pool_blocks ?ep)" "\<And>k. k < 2 ^ 63 \<Longrightarrow> pl_budget k (p, pm)"
    by blast
  from d m n p show ?thesis by (intro that) (auto simp: pl_budget_def)
qed

lemma dq_rep_sel_queue:
  assumes "dq_rep B a (dq_start q m) p tq fs" and "dq_budget 1 (dq_start q m)"
    and "p_exec_queue (sl_loop w) = Some q" and "sl_dmem w = m"
  shows "sel_queue B fs [] w"
proof -
  note r = dq_repD [OF assms(1)]
  have "\<forall>x \<in> set (ts_contents tq). x = a" "a \<notin> set (ts_contents tq)"
    using assms(1) by (simp_all add: dq_rep_def dq_start_def dq_posts_def dq_phase_def filter_empty_conv)
  then have c: "ts_contents tq = []" by (metis list.set_intros(1) neq_Nil_conv)
  have "ts_fits tq" using assms(2) r(1,2) by (auto simp: dq_budget_def ts_fits_def)
  moreover have "q_size tq \<noteq> 0" using r(4) by (auto simp: ts_inv_def power_of_2_def)
  then have "0 < unat (q_size tq)" by (simp add: unat_gt_0)
  moreover have "\<not> destroying q" using assms(1) by (simp add: dq_rep_def dq_phase_def dq_start_def)
  ultimately show ?thesis
    using c r assms(3,4) by (simp add: sel_queue_def dq_start_def)
qed

section \<open>Properties\<close>

text \<open>What \<open>state_event_loop_init\<close> returns.\<close>

lemma sel_created:
  assumes "sel_params_ok dq_addr ps" and "sel_rcs_ok rcs" and "sel_sizes_ok ps"
  obtains w' dq where "state_event_loop_init ps dq_addr rcs w = Inr (True, [], w')"
    "sel_wired (set (pool_blocks (np_pool_params (lp_notifier_create_params ps))))
       (set (pool_blocks (lp_event_pool_create_params ps)))
       (replicate (unat (np_total_categories (lp_notifier_create_params ps))) [])
       (pool_blocks (np_pool_params (lp_notifier_create_params ps))) (pool_blocks (lp_event_pool_create_params ps)) w'"
    "p_exec_queue (sl_loop w') = Some dq"
    "\<And>k. k < 2 ^ 63 \<Longrightarrow> dq_inv (set (pool_blocks (dp_pool_params (lp_queue_params ps)))) dq_addr k (dq_start dq (sl_dmem w'))"
    "sel_queue (set (pool_blocks (dp_pool_params (lp_queue_params ps)))) (pool_blocks (dp_pool_params (lp_queue_params ps)))
       [] w'"
    "\<And>k. k < 2 ^ 63 \<Longrightarrow> sel_event_budget k w'"
    "\<exists>p. p_pool_of_events (sl_loop w') = Some p \<and> element_size p = unat (lp_event_data_size ps)"
    "el_p_sm (sl_loop w') = lp_p_sm ps" "num_machines (sl_loop w') = lp_num_machines ps"
    "event_pre_proc_f (sl_loop w') = event_pre_proc_f (sl_loop w)" "el_client_data (sl_loop w') = el_client_data (sl_loop w)"
    "create_machines (take (unat (lp_num_machines ps)) (lp_sm_create_params ps)) (sl_sm w) = Inr (sl_sm w')"
proof -
  obtain dq dm sm n nm p pm dp tq where c:
    "dispatch_queue_create dq_addr (Some (lp_queue_params ps)) (sr_dq rcs) (sr_worker rcs) (sl_dmem w) = Inr (dq, dm)"
    "create_machines (take (unat (lp_num_machines ps)) (lp_sm_create_params ps)) (sl_sm w) = Inr sm"
    "notifier_init (Some (lp_notifier_create_params ps)) True True 0 0 (sl_nmem w) = Inr (True, n, nm)"
    "pool_create (lp_event_pool_create_params ps) True 0 0 (sl_pmem w) = Inr (Some p, True, pm)"
    "nt_rep (set (pool_blocks (np_pool_params (lp_notifier_create_params ps)))) n nm
       (replicate (unat (np_total_categories (lp_notifier_create_params ps))) [])
       (pool_blocks (np_pool_params (lp_notifier_create_params ps)))" "execute_f n \<noteq> NULL"
    "pl_free_in (set (pool_blocks (lp_event_pool_create_params ps))) (p, pm) (pool_blocks (lp_event_pool_create_params ps))"
    "\<And>k. k < 2 ^ 63 \<Longrightarrow> pool_budget k p"
    "dq_rep (set (pool_blocks (dp_pool_params (lp_queue_params ps)))) dq_addr (dq_start dq dm) dp tq
       (pool_blocks (dp_pool_params (lp_queue_params ps)))" "\<And>k. k < 2 ^ 63 \<Longrightarrow> dq_budget k (dq_start dq dm)"
    using sel_parts_ok [OF assms(1,2), of w] by metis
  let ?el = "(sl_loop w)\<lparr>event_data_size := lp_event_data_size ps, p_exec_queue := Some dq, el_log_enabled := True,
      el_name := lp_name ps, el_log_level := 0, num_machines := lp_num_machines ps, el_p_sm := lp_p_sm ps,
      el_notifier := Some n, p_pool_of_events := Some p\<rparr>"
  let ?w = "w\<lparr>sl_self := lp_event_loop ps, sl_sm := sm, sl_nmem := nm, sl_pmem := pm, sl_dmem := dm, sl_loop := ?el\<rparr>"
  have "state_event_loop_init ps dq_addr rcs w = Inr (True, [], ?w)"
    using assms(1-3) c(1-4) pool_create_sizes [OF c(4)]
    by (simp add: state_event_loop_init_def sel_params_ok_def sel_rcs_ok_def sel_sizes_ok_def Let_def)
  moreover have "lp_event_loop ps \<noteq> NULL" using assms(1) by (simp add: sel_params_ok_def)
  moreover have "sel_queue (set (pool_blocks (dp_pool_params (lp_queue_params ps))))
      (pool_blocks (dp_pool_params (lp_queue_params ps))) [] ?w"
    by (rule dq_rep_sel_queue [OF c(9) c(10)]) simp_all
  moreover have "dq_inv (set (pool_blocks (dp_pool_params (lp_queue_params ps)))) dq_addr k (dq_start dq (sl_dmem ?w))"
    if "k < 2 ^ 63" for k
    using c(9) c(10) [OF that] by (auto simp: dq_inv_def)
  ultimately show ?thesis
    using c(2,5-8) pool_create_sizes [OF c(4)] assms(3)
    by (intro that [of ?w dq]) (simp_all add: sel_wired_def sel_event_budget_def sel_sizes_ok_def)
qed


text \<open>
  C21: (invariant) With storage for every part, \<open>state_event_loop_init\<close> returns the loop with an empty queue,
  all blocks of the three pools free, no listener in any category, and its machines created.
\<close>

theorem state_event_loop_init_ok:
  assumes "sel_params_ok dq_addr ps" and "sel_rcs_ok rcs" and "sel_sizes_ok ps" and "k < 2 ^ 63"
  shows "\<exists>w'. state_event_loop_init ps dq_addr rcs w = Inr (True, [], w') \<and>
    sel_wired (set (pool_blocks (np_pool_params (lp_notifier_create_params ps))))
      (set (pool_blocks (lp_event_pool_create_params ps)))
      (replicate (unat (np_total_categories (lp_notifier_create_params ps))) [])
      (pool_blocks (np_pool_params (lp_notifier_create_params ps))) (pool_blocks (lp_event_pool_create_params ps)) w' \<and>
    sel_queue (set (pool_blocks (dp_pool_params (lp_queue_params ps)))) (pool_blocks (dp_pool_params (lp_queue_params ps)))
      [] w' \<and>
    sel_event_budget k w' \<and>
    (\<exists>p. p_pool_of_events (sl_loop w') = Some p \<and> element_size p = unat (lp_event_data_size ps)) \<and> el_p_sm (sl_loop w') = lp_p_sm ps \<and> num_machines (sl_loop w') = lp_num_machines ps \<and>
    event_pre_proc_f (sl_loop w') = event_pre_proc_f (sl_loop w) \<and>
    create_machines (take (unat (lp_num_machines ps)) (lp_sm_create_params ps)) (sl_sm w) = Inr (sl_sm w')"
proof -
  obtain w' where "state_event_loop_init ps dq_addr rcs w = Inr (True, [], w')"
    "sel_wired (set (pool_blocks (np_pool_params (lp_notifier_create_params ps))))
      (set (pool_blocks (lp_event_pool_create_params ps)))
      (replicate (unat (np_total_categories (lp_notifier_create_params ps))) [])
      (pool_blocks (np_pool_params (lp_notifier_create_params ps))) (pool_blocks (lp_event_pool_create_params ps)) w'"
    "sel_queue (set (pool_blocks (dp_pool_params (lp_queue_params ps)))) (pool_blocks (dp_pool_params (lp_queue_params ps)))
      [] w'"
    "sel_event_budget k w'"
    "\<exists>p. p_pool_of_events (sl_loop w') = Some p \<and> element_size p = unat (lp_event_data_size ps)"
    "el_p_sm (sl_loop w') = lp_p_sm ps" "num_machines (sl_loop w') = lp_num_machines ps"
    "event_pre_proc_f (sl_loop w') = event_pre_proc_f (sl_loop w)"
    "create_machines (take (unat (lp_num_machines ps)) (lp_sm_create_params ps)) (sl_sm w) = Inr (sl_sm w')"
    by (rule sel_created [OF assms(1-3), of w]) (use assms(4) in blast)
  then show ?thesis by blast
qed

text \<open>
  (error) When the blocks of the event pool do not have the size of the events, or are not as many as
  the queue takes, \<open>state_event_loop_init\<close> returns null and takes the pool and the notifier down, but
  leaves the dispatch queue it has created with its worker running.
\<close>

theorem state_event_loop_init_mismatch:
  assumes "sel_params_ok dq_addr ps" and "sel_rcs_ok rcs" and "\<not> sel_sizes_ok ps"
  shows "\<exists>w' rs q. state_event_loop_init ps dq_addr rcs w = Inr (False, rs, w') \<and>
    p_pool_of_events (sl_loop w') = None \<and> el_notifier (sl_loop w') = None \<and>
    p_exec_queue (sl_loop w') = Some q \<and> \<not> destroying q"
proof -
  obtain dq dm sm n nm p pm dp tq where c:
    "dispatch_queue_create dq_addr (Some (lp_queue_params ps)) (sr_dq rcs) (sr_worker rcs) (sl_dmem w) = Inr (dq, dm)"
    "create_machines (take (unat (lp_num_machines ps)) (lp_sm_create_params ps)) (sl_sm w) = Inr sm"
    "notifier_init (Some (lp_notifier_create_params ps)) True True 0 0 (sl_nmem w) = Inr (True, n, nm)"
    "pool_create (lp_event_pool_create_params ps) True 0 0 (sl_pmem w) = Inr (Some p, True, pm)"
    "dq_rep (set (pool_blocks (dp_pool_params (lp_queue_params ps)))) dq_addr (dq_start dq dm) dp tq
       (pool_blocks (dp_pool_params (lp_queue_params ps)))"
    using sel_parts_ok [OF assms(1,2), of w] by metis
  have "\<not> destroying dq" using c(5) by (simp add: dq_rep_def dq_phase_def dq_start_def)
  with assms c(1-4) pool_create_sizes [OF c(4)] show ?thesis
    by (simp add: state_event_loop_init_def sel_params_ok_def sel_rcs_ok_def sel_sizes_ok_def notifier_deinit_def
        Let_def)
qed

text \<open>
  C5: (functional) An event that is posted to an idle loop reaches everybody once: the call accepts it, the
  worker finds it at the head of the queue, and its function runs the client's pre-processor, hands
  the event to every state machine in order, each going through its automaton step, then calls
  exactly the listeners of the event's category, newest first, and puts the block of the event back
  into the pool.
\<close>

theorem state_event_loop_delivers:
  assumes rep: "sel_rep st NB EB ts seen c ls nfs (x # fs) w" and q: "sel_queue DB (y # dfs) [] w"
    and bud: "sel_event_budget 1 w" and fit: "event_fits ev w" and cat: "unat cat < length ls"
    and step: "autos_step P st x ts seen (pre_processed pp x w c) = Some (ts', seen', c')"
  shows "\<exists>w1 dq dq' w2. state_event_loop_post exec_f True cat (Some ev) now ws w = Some (Inr (True, w1)) \<and>
    p_exec_queue (sl_loop w1) = Some dq \<and> worker_take dq now' ws' = Some (Inr (y, dq')) \<and>
    dm_data (sl_dmem w1) y = \<lparr>pd_fn = exec_f, pd_arg1 = x, pd_arg2 = NULL\<rparr> \<and>
    state_event_loop_exec_queue_f (pure_callbacks P) (pure_pre pp) x w1 =
      Some (Inr (map (\<lambda>b. (listener_f w, b, cat, x)) (ls ! unat cat), w2)) \<and>
    sel_rep st NB EB ts' seen' c' ls nfs (fs @ [x]) w2"
proof -
  obtain w1 where p: "state_event_loop_post exec_f True cat (Some ev) now ws w = Some (Inr (True, w1))"
    "sel_rep st NB EB ts seen c ls nfs fs w1" "sel_event_budget 1 w1"
    "sl_events w1 x = ev\<lparr>ev_loop := sl_self w, event_id := cat\<rparr>" "x \<in> EB" "x \<notin> set fs"
    "event_pre_proc_f (sl_loop w1) = event_pre_proc_f (sl_loop w)"
    "el_client_data (sl_loop w1) = el_client_data (sl_loop w)" "listener_f w1 = listener_f w"
    "\<exists>dq tq p'. p_exec_queue (sl_loop w1) = Some dq \<and> dq_queue dq = Some tq \<and> ts_inv tq \<and>
       ts_contents tq = [] @ [y] \<and> dq_pool dq = Some p' \<and> pl_free_in DB (p', dm_blocks (sl_dmem w1)) dfs \<and>
       dm_data (sl_dmem w1) y = \<lparr>pd_fn = exec_f, pd_arg1 = x, pd_arg2 = NULL\<rparr>"
    by (rule state_event_loop_post_ok [OF rep q bud fit]) blast
  obtain dq tq where d: "p_exec_queue (sl_loop w1) = Some dq" "dq_queue dq = Some tq" "ts_inv tq"
    "ts_contents tq = [y]" "dm_data (sl_dmem w1) y = \<lparr>pd_fn = exec_f, pd_arg1 = x, pd_arg2 = NULL\<rparr>"
    using p(10) by auto
  obtain dq' where t: "worker_take dq now' ws' = Some (Inr (y, dq'))"
    using worker_take_some [OF d(2-4)] by metis
  have "sl_self w \<noteq> NULL" using rep by (simp add: sel_rep_def sel_wired_def)
  then have ev: "ev_loop (sl_events w1 x) \<noteq> NULL" "event_id (sl_events w1 x) = cat" using p(4) by simp_all
  have "pre_processed pp x w1 c = pre_processed pp x w c" unfolding pre_processed_def p(7,8) by (rule refl)
  then have "autos_step P st x ts seen (pre_processed pp x w1 c) = Some (ts', seen', c')" using step by simp
  moreover have "sel_event_budget (Suc 0) w1" using p(3) by simp
  ultimately obtain w2 where "state_event_loop_exec_queue_f (pure_callbacks P) (pure_pre pp) x w1 =
      Some (Inr (map (\<lambda>b. (listener_f w, b, cat, x)) (ls ! unat cat), w2))"
    "sel_rep st NB EB ts' seen' c' ls nfs (fs @ [x]) w2"
    using exec_queue_ok [OF p(2,5,6) ev(1), of P pp ts' seen' c' 0] cat unfolding ev(2) p(9) by metis
  with p(1) d(1,5) t show ?thesis by blast
qed

text \<open>An example: one machine, two categories of events, and pools of two blocks.\<close>

definition sel_example_params :: state_event_loop_create_params where
  "sel_example_params = \<lparr>lp_event_loop = 600, lp_notifier_create_params = notifier_example_params,
     lp_queue_params = dq_example_params,
     lp_event_pool_create_params = pool_example_params\<lparr>pp_element_size_requested := 32\<rparr>,
     lp_sm_create_params = [example_params], lp_p_sm = [1], lp_num_machines = 1, lp_name = [],
     lp_exec_queue_priority = 0, lp_event_data_size = 32\<rparr>"

definition sel_example_rcs :: sel_rcs where
  "sel_example_rcs = \<lparr>sr_dq = dq_example_rcs, sr_worker = 77, sr_nt_mutex = True, sr_nt_pool_mutex = True,
     sr_nt_cond = 0, sr_nt_full_cond = 0, sr_ev_mutex = True, sr_ev_cond = 0, sr_ev_full_cond = 0\<rparr>"

definition sel_example :: "addr list sel" where
  "sel_example = \<lparr>sl_self = 600, sl_loop = \<lparr>el_p_sm = [], num_machines = 0, p_exec_queue = None,
       p_pool_of_events = None, el_notifier = None, event_data_size = 0, el_name = [], event_pre_proc_f = 0,
       el_client_data = 0, el_log_enabled = False, el_log_level = 0\<rparr>,
     sl_sm = example_world, sl_nmem = \<lparr>links = \<lparr>prev_of = (\<lambda>_. 9), next_of = (\<lambda>_. 9)\<rparr>, category_of = (\<lambda>_. 0),
       blocks = \<lparr>hdr = (\<lambda>_. fresh_header), trailer = (\<lambda>_. 0)\<rparr>\<rparr>,
     sl_pmem = \<lparr>hdr = (\<lambda>_. fresh_header), trailer = (\<lambda>_. 0)\<rparr>, sl_dmem = dq_example_mem,
     sl_events = (\<lambda>_. \<lparr>event_id = 0, ev_loop = 0, to_string = 0, ev_data = []\<rparr>), sl_reg_loop = (\<lambda>_. 0)\<rparr>"

lemma sel_example_ok: "sel_params_ok 500 sel_example_params" "sel_rcs_ok sel_example_rcs" "sel_sizes_ok sel_example_params"
  using dq_example_ok pool_example_ok
  by (simp_all add: sel_params_ok_def sel_example_params_def SIZEOF_EVENT_def notifier_example_params_def
      example_params_def sel_rcs_ok_def sel_example_rcs_def sel_sizes_ok_def dq_example_params_def
      pool_example_params_def pool_params_ok_def)

lemma two_replicas: "replicate 2 x = [x, x]"
  by (simp add: numeral_2_eq_2)

lemma sel_example_blocks:
  "pool_blocks (lp_event_pool_create_params sel_example_params) = [1032, 1080]"
  "pool_blocks (np_pool_params (lp_notifier_create_params sel_example_params)) = [1032, 1080]"
  "pool_blocks (dp_pool_params (lp_queue_params sel_example_params)) = [1032, 1080]"
  "replicate (unat (np_total_categories (lp_notifier_create_params sel_example_params))) [] = [[], []]"
  "unat (lp_event_data_size sel_example_params) = 32" "lp_p_sm sel_example_params = [1]"
  "lp_num_machines sel_example_params = 1" "event_pre_proc_f (sl_loop sel_example) = 0"
  "set [1032, 1080 :: addr] = {1032, 1080}"
  by (simp_all add: sel_example_def sel_example_params_def dq_example_params_def notifier_example_params_def pool_example_params_def
      pool_block_def upt_conv_Cons two_replicas)

lemma sel_example_init:
  assumes "state_event_loop_init sel_example_params 500 sel_example_rcs sel_example = Inr (True, [], w)"
    and "sel_wired {1032, 1080} {1032, 1080} [[], []] [1032, 1080] [1032, 1080] w"
    and "el_p_sm (sl_loop w) = [1]" and "num_machines (sl_loop w) = 1"
  shows "sel_rep example_states {1032, 1080} {1032, 1080} [(1, [10, 11], 10)] {} [] [[], []] [1032, 1080] [1032, 1080]
    (w\<lparr>sl_sm := example_running\<rparr>)"
  using assms example_running_rep
  by (simp add: sel_rep_def sel_wired_def machines_rep_def) (simp add: sm_rep_def)

lemma sel_example_created:
  obtains w0 dq where "state_event_loop_init sel_example_params 500 sel_example_rcs sel_example = Inr (True, [], w0)"
    "sel_wired {1032, 1080} {1032, 1080} [[], []] [1032, 1080] [1032, 1080] w0" "sel_queue {1032, 1080} [1032, 1080] [] w0"
    "\<And>k. k < 2 ^ 63 \<Longrightarrow> sel_event_budget k w0" "el_p_sm (sl_loop w0) = [1]" "num_machines (sl_loop w0) = 1"
    "event_pre_proc_f (sl_loop w0) = 0" "el_client_data (sl_loop w0) = 0"
    "\<exists>p. p_pool_of_events (sl_loop w0) = Some p \<and> element_size p = 32"
    "p_exec_queue (sl_loop w0) = Some dq" "\<And>k. k < 2 ^ 63 \<Longrightarrow> dq_inv {1032, 1080} 500 k (dq_start dq (sl_dmem w0))"
proof -
  note c = sel_created [OF sel_example_ok, of sel_example, unfolded sel_example_blocks]
  show ?thesis by (rule c) (intro that, assumption+, simp_all add: sel_example_def)
qed

theorem state_event_loop_init_ok_witness:
  "\<exists>w. state_event_loop_init sel_example_params 500 sel_example_rcs sel_example = Inr (True, [], w) \<and>
    sel_wired {1032, 1080} {1032, 1080} [[], []] [1032, 1080] [1032, 1080] w \<and> sel_queue {1032, 1080} [1032, 1080] [] w"
proof -
  have "(1 :: nat) < 2 ^ 63" by simp
  from state_event_loop_init_ok [OF sel_example_ok this, of sel_example] show ?thesis
    unfolding sel_example_blocks by blast
qed

theorem state_event_loop_init_mismatch_witness:
  "\<exists>w' rs q. state_event_loop_init (sel_example_params\<lparr>lp_event_data_size := 40\<rparr>) 500 sel_example_rcs sel_example =
      Inr (False, rs, w') \<and> p_exec_queue (sl_loop w') = Some q \<and> \<not> destroying q"
proof -
  have "sel_params_ok 500 (sel_example_params\<lparr>lp_event_data_size := 40\<rparr>)"
    "\<not> sel_sizes_ok (sel_example_params\<lparr>lp_event_data_size := 40\<rparr>)"
    using sel_example_ok
    by (simp_all add: sel_params_ok_def sel_sizes_ok_def sel_example_params_def SIZEOF_EVENT_def
        notifier_example_params_def)
  from state_event_loop_init_mismatch [OF this(1) sel_example_ok(2) this(2)] show ?thesis by blast
qed

theorem state_event_loop_delivers_witness:
  "\<exists>w0 w1 dq dq' w2. state_event_loop_init sel_example_params 500 sel_example_rcs sel_example = Inr (True, [], w0) \<and>
    state_event_loop_post 99 True 1 (Some \<lparr>event_id = 7, ev_loop = 7, to_string = 0, ev_data = replicate 8 5\<rparr>) zero_timespec []
      (w0\<lparr>sl_sm := example_running\<rparr>) = Some (Inr (True, w1)) \<and>
    p_exec_queue (sl_loop w1) = Some dq \<and> worker_take dq zero_timespec [] = Some (Inr (1032, dq')) \<and>
    state_event_loop_exec_queue_f (pure_callbacks (fst example_client, fst (snd example_client), \<lambda>f p q e c. (1, c @ [f])))
      (pure_pre (\<lambda>f e d c. c)) 1032 w1 = Some (Inr ([], w2)) \<and>
    w_client (sl_sm w2) = [105, 103, 111, 112]"
proof -
  let ?P = "(fst example_client, fst (snd example_client), \<lambda>f p q e c. (1, c @ [f]))"
  obtain w0 where i: "state_event_loop_init sel_example_params 500 sel_example_rcs sel_example = Inr (True, [], w0)"
      "sel_wired {1032, 1080} {1032, 1080} [[], []] [1032, 1080] [1032, 1080] w0" "sel_queue {1032, 1080} [1032, 1080] [] w0"
      "sel_event_budget 1 w0" "el_p_sm (sl_loop w0) = [1]" "num_machines (sl_loop w0) = 1"
      "event_pre_proc_f (sl_loop w0) = 0"
      "\<exists>p. p_pool_of_events (sl_loop w0) = Some p \<and> element_size p = 32"
    by (rule sel_example_created) simp
  let ?w = "w0\<lparr>sl_sm := example_running\<rparr>"
  have r: "sel_rep example_states {1032, 1080} {1032, 1080} [(1, [10, 11], 10)] {} [] [[], []] [1032, 1080] (1032 # [1080]) ?w"
    using sel_example_init [OF i(1,2,5,6)] .
  have q: "sel_queue {1032, 1080} (1032 # [1080]) [] ?w" "sel_event_budget 1 ?w"
    using i(3,4) by (simp_all add: sel_queue_def sel_event_budget_def)
  have "pre_processed (\<lambda>f e d c. c) 1032 ?w [] = []" using i(7) by (simp add: pre_processed_def)
  then have "autos_step ?P example_states 1032 [(1, [10, 11], 10)] {} (pre_processed (\<lambda>f e d c. c) 1032 ?w []) =
      Some ([(1, [10, 11], 11)], {11}, [105, 103, 111, 112])"
    by (simp add: auto_step_def auto_enter_def example_client_def example_states_def)
  moreover have "event_fits \<lparr>event_id = 7, ev_loop = 7, to_string = 0, ev_data = replicate 8 5\<rparr> ?w"
    using i(8) by (auto simp: event_fits_def SIZEOF_EVENT_def)
  moreover have "unat (1 :: u32) < length [[], [] :: addr list]" by simp
  ultimately have "\<exists>w1 dq dq' w2. state_event_loop_post 99 True 1
        (Some \<lparr>event_id = 7, ev_loop = 7, to_string = 0, ev_data = replicate 8 5\<rparr>) zero_timespec [] ?w =
        Some (Inr (True, w1)) \<and>
      p_exec_queue (sl_loop w1) = Some dq \<and> worker_take dq zero_timespec [] = Some (Inr (1032, dq')) \<and>
      state_event_loop_exec_queue_f (pure_callbacks ?P) (pure_pre (\<lambda>f e d c. c)) 1032 w1 = Some (Inr ([], w2)) \<and>
      w_client (sl_sm w2) = [105, 103, 111, 112]"
    using state_event_loop_delivers [OF r q(1,2), of _ 1 ?P _ _ _ _ 99] by (fastforce simp: sel_rep_def)
  with i(1) show ?thesis by blast
qed

text \<open>
  (error) The result of \<open>dispatch_async_f\<close> is ignored: once the queue of the loop is being destroyed,
  a post still returns true, although nothing is queued, and the block of the event is lost; and
  \<open>state_event_loop_install_event_pre_proc\<close> returns false even when it installs the function.
\<close>

theorem state_event_loop_post_lost:
  assumes rep: "sel_rep st NB EB ts seen c ls nfs (x # fs) w" and "p_exec_queue (sl_loop w) = Some q"
    and "destroying q" and fit: "event_fits ev w" and ts: "ts \<noteq> []"
  shows "(\<exists>w'. state_event_loop_post exec_f True cat (Some ev) now ws w = Some (Inr (True, w')) \<and>
      p_exec_queue (sl_loop w') = Some q \<and> sel_rep st NB EB ts seen c ls nfs fs w') \<and>
    (\<exists>w'. state_event_loop_install_event_pre_proc fn d w = Inr (False, w'))"
proof
  let ?el = "sl_loop w"
  obtain p where p: "p_pool_of_events ?el = Some p" "pl_free_in EB (p, sl_pmem w) (x # fs)"
    using rep by (auto simp: sel_rep_def sel_wired_def)
  obtain p1 pm where a: "pool_alloc (Some p) now ws (sl_pmem w) = Some (Inr (x, Some p1, pm))"
    "pl_free_in EB (p1, pm) fs" "x \<noteq> NULL" "element_size p1 = element_size p"
    using pool_alloc_free [OF p(2)] by metis
  have data: "read_from (ev_data ev) 0 (element_size p1 - SIZEOF_EVENT) = Inr (ev_data ev)"
    using fit p(1) a(4) by (simp add: event_fits_def read_from_def)
  let ?w = "w\<lparr>sl_loop := ?el\<lparr>p_pool_of_events := Some p1, p_exec_queue := Some q\<rparr>, sl_pmem := pm, sl_dmem := sl_dmem w,
      sl_events := (sl_events w)(x := ev\<lparr>ev_loop := sl_self w, event_id := cat\<rparr>)\<rparr>"
  have "state_event_loop_post exec_f True cat (Some ev) now ws w = Some (Inr (True, ?w))"
    using a p(1) assms(2,3) data
    by (simp add: state_event_loop_post_def state_event_loop_allocate_event_def dispatch_async_f_def Let_def)
  moreover have "sel_rep st NB EB ts seen c ls nfs fs ?w" using rep a(2) by (auto simp: sel_rep_def sel_wired_def)
  ultimately show "\<exists>w'. state_event_loop_post exec_f True cat (Some ev) now ws w = Some (Inr (True, w')) \<and>
      p_exec_queue (sl_loop w') = Some q \<and> sel_rep st NB EB ts seen c ls nfs fs w'"
    by (intro exI [of _ ?w]) simp
  have "el_p_sm ?el \<noteq> []" using rep ts by (auto simp: sel_rep_def sel_wired_def)
  then show "\<exists>w'. state_event_loop_install_event_pre_proc fn d w = Inr (False, w')"
    by (cases "el_p_sm ?el") (simp_all add: state_event_loop_install_event_pre_proc_def)
qed

theorem state_event_loop_post_lost_witness:
  "\<exists>w0 q w'. state_event_loop_init sel_example_params 500 sel_example_rcs sel_example = Inr (True, [], w0) \<and>
    p_exec_queue (sl_loop w0) = Some q \<and>
    state_event_loop_post 99 True 1 (Some \<lparr>event_id = 7, ev_loop = 7, to_string = 0, ev_data = replicate 8 5\<rparr>) zero_timespec []
      (w0\<lparr>sl_sm := example_running, sl_loop := (sl_loop w0)\<lparr>p_exec_queue := Some (q\<lparr>destroying := True\<rparr>)\<rparr>\<rparr>) =
      Some (Inr (True, w')) \<and>
    p_exec_queue (sl_loop w') = Some (q\<lparr>destroying := True\<rparr>)"
proof -
  obtain w0 where i: "state_event_loop_init sel_example_params 500 sel_example_rcs sel_example = Inr (True, [], w0)"
      "sel_wired {1032, 1080} {1032, 1080} [[], []] [1032, 1080] [1032, 1080] w0" "sel_queue {1032, 1080} [1032, 1080] [] w0"
      "el_p_sm (sl_loop w0) = [1]" "num_machines (sl_loop w0) = 1"
      "\<exists>p. p_pool_of_events (sl_loop w0) = Some p \<and> element_size p = 32"
    by (rule sel_example_created) simp
  obtain q where q: "p_exec_queue (sl_loop w0) = Some q" using i(3) by (auto simp: sel_queue_def)
  let ?w = "w0\<lparr>sl_sm := example_running, sl_loop := (sl_loop w0)\<lparr>p_exec_queue := Some (q\<lparr>destroying := True\<rparr>)\<rparr>\<rparr>"
  have "sel_rep example_states {1032, 1080} {1032, 1080} [(1, [10, 11], 10)] {} [] [[], []] [1032, 1080] (1032 # [1080]) ?w"
    using sel_example_init [OF i(1,2,4,5)] by (simp add: sel_rep_def sel_wired_def)
  moreover have "event_fits \<lparr>event_id = 7, ev_loop = 7, to_string = 0, ev_data = replicate 8 5\<rparr> ?w"
    using i(6) by (auto simp: event_fits_def SIZEOF_EVENT_def)
  ultimately have "\<exists>w'. state_event_loop_post 99 True 1
        (Some \<lparr>event_id = 7, ev_loop = 7, to_string = 0, ev_data = replicate 8 5\<rparr>) zero_timespec [] ?w =
        Some (Inr (True, w')) \<and> p_exec_queue (sl_loop w') = Some (q\<lparr>destroying := True\<rparr>)"
    using state_event_loop_post_lost [of _ _ _ _ _ _ _ _ _ _ ?w "q\<lparr>destroying := True\<rparr>"] by fastforce
  with i(1) q show ?thesis by blast
qed

end
