(* ===== verification/Event_Loop_Threads.thy ===== *)
theory Event_Loop_Threads
  imports State_Event_Loop "HOL-Library.Multiset"
begin

text \<open>
  The threads of a state event loop: any number of posters, each stepping through
  \<open>state_event_loop_post\<close>, and the worker of the dispatch queue, which runs \<open>state_event_loop_exec_queue_f\<close>.
  A step is one access to a shared structure (a pool or the queue, each under its own lock). The theorems:
  in every interleaving the machines and the listeners get the events in the order in which they were
  queued, each once and with the contents the poster gave it, and the worker is never stuck.
\<close>

section \<open>The system\<close>

text \<open>The worker waits, has taken a block of the dispatch queue, or has called its function.\<close>

datatype el_worker = Waiting | Has addr | Called addr

text \<open>
  \<open>es_filled\<close> are event blocks that posters have filled and not yet handed to the queue, \<open>es_pending\<close>
  blocks of the dispatch queue that they have filled and not yet queued. The last three record the
  history: the events queued, those handled (with the address of their block), and the calls of listeners.
\<close>

record 'c el_sys =
  es_w :: "'c sel"
  es_filled :: "addr list"
  es_pending :: "addr list"
  es_worker :: el_worker
  es_posted :: "(addr \<times> event) list"
  es_ran :: "(addr \<times> event) list"
  es_calls :: "nt_call list"

definition el_start :: "'c sel \<Rightarrow> 'c el_sys" where
  "el_start w = \<lparr>es_w = w, es_filled = [], es_pending = [], es_worker = Waiting, es_posted = [], es_ran = [],
     es_calls = []\<rparr>"

text \<open>The first part of \<open>state_event_loop_post\<close>: a block for the event, and its contents.\<close>

definition post_fill :: "u32 \<Rightarrow> event \<Rightarrow> 'c sel \<Rightarrow> (addr \<times> 'c sel) res option" where
  "post_fill category ev w =
     bind_wait (state_event_loop_allocate_event True zero_timespec [times_out] w) (\<lambda>(e, w1).
       case p_pool_of_events (sl_loop w1) of
         None \<Rightarrow> Some (Inl Null_Deref)
       | Some pl \<Rightarrow>
           bind_wait (Some (read_from (ev_data ev) 0 (element_size pl - SIZEOF_EVENT))) (\<lambda>data.
             Some (Inr (e, w1\<lparr>sl_events := (sl_events w1)(e := ev\<lparr>ev_data := data, ev_loop := sl_self w1,
                          event_id := category, to_string := to_string ev\<rparr>)\<rparr>))))"

abbreviation exec_post :: "addr \<Rightarrow> addr \<Rightarrow> dispatch_queue_post_data" where
  "exec_post F x \<equiv> \<lparr>pd_fn = F, pd_arg1 = x, pd_arg2 = NULL\<rparr>"

abbreviation set_queue :: "dispatch_queue \<Rightarrow> dq_mem \<Rightarrow> 'c sel \<Rightarrow> 'c sel" where
  "set_queue q m w \<equiv> w\<lparr>sl_loop := (sl_loop w)\<lparr>p_exec_queue := Some q\<rparr>, sl_dmem := m\<rparr>"

text \<open>The event of a block of the dispatch queue.\<close>

abbreviation event_of :: "'c sel \<Rightarrow> addr \<Rightarrow> addr" where
  "event_of w y \<equiv> pd_arg1 (dm_data (sl_dmem w) y)"

text \<open>
  \<open>F\<close> is the address of \<open>state_event_loop_exec_queue_f\<close>, \<open>ncat\<close> the number of categories. What the client's
  functions do may depend on the contents of the event: \<open>P\<close> and \<open>pp\<close> take them.
\<close>

inductive el_step ::
  "addr \<Rightarrow> nat \<Rightarrow> (event \<Rightarrow> 'c pure_client) \<Rightarrow> (event \<Rightarrow> addr \<Rightarrow> addr \<Rightarrow> addr \<Rightarrow> 'c \<Rightarrow> 'c) \<Rightarrow> 'c el_sys \<Rightarrow> 'c el_sys \<Rightarrow> bool"
  for F ncat P pp where
  Fill: "unat cat < ncat \<Longrightarrow> post_fill cat ev (es_w s) = Some (Inr (x, w')) \<Longrightarrow>
    el_step F ncat P pp s (s\<lparr>es_w := w', es_filled := x # es_filled s\<rparr>)"
| Prepare: "x \<in> set (es_filled s) \<Longrightarrow> p_exec_queue (sl_loop (es_w s)) = Some q \<Longrightarrow> \<not> destroying q \<Longrightarrow>
    dispatch_prepare q (exec_post F x) zero_timespec [times_out] (sl_dmem (es_w s)) = Some (Inr (y, q', m')) \<Longrightarrow>
    el_step F ncat P pp s (s\<lparr>es_w := set_queue q' m' (es_w s), es_filled := remove1 x (es_filled s),
                             es_pending := y # es_pending s\<rparr>)"
| Enqueue: "y \<in> set (es_pending s) \<Longrightarrow> p_exec_queue (sl_loop (es_w s)) = Some q \<Longrightarrow>
    dispatch_enqueue q y zero_timespec [times_out] = Some (Inr q') \<Longrightarrow>
    el_step F ncat P pp s (s\<lparr>es_w := set_queue q' (sl_dmem (es_w s)) (es_w s), es_pending := remove1 y (es_pending s),
      es_posted := es_posted s @ [(event_of (es_w s) y, sl_events (es_w s) (event_of (es_w s) y))]\<rparr>)"
| Take: "es_worker s = Waiting \<Longrightarrow> p_exec_queue (sl_loop (es_w s)) = Some q \<Longrightarrow>
    worker_take q zero_timespec [] = Some (Inr (y, q')) \<Longrightarrow>
    el_step F ncat P pp s (s\<lparr>es_w := set_queue q' (sl_dmem (es_w s)) (es_w s), es_worker := Has y\<rparr>)"
| Exec: "es_worker s = Has y \<Longrightarrow> pd_fn (dm_data (sl_dmem (es_w s)) y) = F \<Longrightarrow> x = event_of (es_w s) y \<Longrightarrow>
    ev = sl_events (es_w s) x \<Longrightarrow>
    state_event_loop_exec_queue_f (pure_callbacks (P ev)) (pure_pre (pp ev)) x (es_w s) = Some (Inr (calls, w')) \<Longrightarrow>
    el_step F ncat P pp s (s\<lparr>es_w := w', es_worker := Called y, es_ran := es_ran s @ [(x, ev)],
                             es_calls := es_calls s @ calls\<rparr>)"
| Release: "es_worker s = Called y \<Longrightarrow> p_exec_queue (sl_loop (es_w s)) = Some q \<Longrightarrow>
    worker_release q y (sl_dmem (es_w s)) = Inr (q', m') \<Longrightarrow>
    el_step F ncat P pp s (s\<lparr>es_w := set_queue q' m' (es_w s), es_worker := Waiting\<rparr>)"

text \<open>What the events \<open>es\<close> do to the machines, by their automata, with the loop's pre-processor \<open>f\<close> and its data.\<close>

fun autos_run ::
  "(event \<Rightarrow> 'c pure_client) \<Rightarrow> (event \<Rightarrow> addr \<Rightarrow> addr \<Rightarrow> addr \<Rightarrow> 'c \<Rightarrow> 'c) \<Rightarrow> addr \<Rightarrow> addr \<Rightarrow> (addr \<Rightarrow> sm_state)
    \<Rightarrow> (addr \<times> event) list \<Rightarrow> machine list \<times> addr set \<times> 'c \<Rightarrow> (machine list \<times> addr set \<times> 'c) option" where
  "autos_run P pp f d st [] a = Some a"
| "autos_run P pp f d st ((x, ev) # es) (ts, seen, c) =
     (case autos_step (P ev) st x ts seen (if f \<noteq> NULL then pp ev f x d c else c) of
        None \<Rightarrow> None
      | Some a \<Rightarrow> autos_run P pp f d st es a)"

lemma autos_run_append:
  "autos_run P pp f d st (es @ es') a = Option.bind (autos_run P pp f d st es a) (autos_run P pp f d st es')"
  by (induction P pp f d st es a rule: autos_run.induct) (auto split: option.splits)

text \<open>The calls of the listeners \<open>ls\<close> for the events handled.\<close>

definition listener_calls :: "addr \<Rightarrow> addr list list \<Rightarrow> (addr \<times> event) list \<Rightarrow> nt_call list" where
  "listener_calls f ls es = concat (map (\<lambda>(x, ev). map (\<lambda>b. (f, b, event_id ev, x)) (ls ! unat (event_id ev))) es)"

section \<open>Invariant\<close>

text \<open>The dispatch queue seen in the system; its worker is busy until the block is released.\<close>

fun released :: "el_worker \<Rightarrow> 'a list \<Rightarrow> 'a list" where
  "released (Called y) es = butlast es"
| "released Waiting es = es"
| "released (Has y) es = es"

definition el_dq :: "addr \<Rightarrow> 'c el_sys \<Rightarrow> dq_sys" where
  "el_dq F s = \<lparr>ds_q = the (p_exec_queue (sl_loop (es_w s))), ds_m = sl_dmem (es_w s), ds_pending = es_pending s,
     ds_kill = False,
     ds_worker = (case es_worker s of Waiting \<Rightarrow> Idle | Has y \<Rightarrow> Busy y | Called y \<Rightarrow> Busy y),
     ds_posted = map (exec_post F \<circ> fst) (es_posted s),
     ds_ran = map (exec_post F \<circ> fst) (released (es_worker s) (es_ran s)),
     ds_cut = None\<rparr>"

text \<open>The blocks of the dispatch queue whose event is still to be handled, the oldest first.\<close>

definition el_queued :: "'c el_sys \<Rightarrow> addr list" where
  "el_queued s = (case es_worker s of Has y \<Rightarrow> [y] | _ \<Rightarrow> []) @
     (case p_exec_queue (sl_loop (es_w s)) of
        Some q \<Rightarrow> (case dq_queue q of Some tq \<Rightarrow> ts_contents tq | None \<Rightarrow> [])
      | None \<Rightarrow> [])"

text \<open>The event blocks in use.\<close>

definition el_events :: "'c el_sys \<Rightarrow> addr list" where
  "el_events s = es_filled s @ map (event_of (es_w s)) (es_pending s @ el_queued s)"

text \<open>
  What stays fixed in a run: the functions of the client, the states, the blocks of the three pools, the
  listeners of every category, the pre-processor, and the machines at the start.
\<close>

record 'c el_env =
  en_F :: addr
  en_client :: "event \<Rightarrow> 'c pure_client"
  en_pre :: "event \<Rightarrow> addr \<Rightarrow> addr \<Rightarrow> addr \<Rightarrow> 'c \<Rightarrow> 'c"
  en_states :: "addr \<Rightarrow> sm_state"
  en_NB :: "addr set"
  en_EB :: "addr set"
  en_DB :: "addr set"
  en_self :: addr
  en_ls :: "addr list list"
  en_nfs :: "addr list"
  en_pre_f :: addr
  en_pre_data :: addr
  en_listener :: addr
  en_init :: "machine list \<times> addr set \<times> 'c"

abbreviation env_step :: "'c el_env \<Rightarrow> 'c el_sys \<Rightarrow> 'c el_sys \<Rightarrow> bool" where
  "env_step E \<equiv> el_step (en_F E) (length (en_ls E)) (en_client E) (en_pre E)"

abbreviation env_run :: "'c el_env \<Rightarrow> (addr \<times> event) list \<Rightarrow> (machine list \<times> addr set \<times> 'c) option" where
  "env_run E es \<equiv> autos_run (en_client E) (en_pre E) (en_pre_f E) (en_pre_data E) (en_states E) es (en_init E)"

abbreviation env_rep :: "'c el_env \<Rightarrow> machine list \<times> addr set \<times> 'c \<Rightarrow> addr list \<Rightarrow> 'c sel \<Rightarrow> bool" where
  "env_rep E a fs w \<equiv> sel_rep (en_states E) (en_NB E) (en_EB E) (fst a) (fst (snd a)) (snd (snd a)) (en_ls E) (en_nfs E) fs w"

text \<open>
  The machines are where the events handled have brought them, and every event block is free, filled, or
  belongs to one block of the dispatch queue.
\<close>

definition el_machines :: "'c el_env \<Rightarrow> addr list \<Rightarrow> 'c el_sys \<Rightarrow> bool" where
  "el_machines E fs s \<longleftrightarrow>
     (\<exists>a. env_run E (es_ran s) = Some a \<and> env_rep E a fs (es_w s)) \<and>
     distinct (fs @ el_events s) \<and> set (fs @ el_events s) = en_EB E \<and>
     es_calls s = listener_calls (en_listener E) (en_ls E) (es_ran s) \<and> listener_f (es_w s) = en_listener E \<and>
     event_pre_proc_f (sl_loop (es_w s)) = en_pre_f E \<and> el_client_data (sl_loop (es_w s)) = en_pre_data E"

text \<open>Every block of the dispatch queue carries an event, and the events queued are those handled and those to come.\<close>

definition el_posts :: "'c el_env \<Rightarrow> 'c el_sys \<Rightarrow> bool" where
  "el_posts E s \<longleftrightarrow>
     p_exec_queue (sl_loop (es_w s)) \<noteq> None \<and>
     (\<forall>y \<in> set (es_pending s @ el_queued s). dm_data (sl_dmem (es_w s)) y = exec_post (en_F E) (event_of (es_w s) y)) \<and>
     (\<forall>x \<in> set (el_events s). ev_loop (sl_events (es_w s) x) \<noteq> NULL \<and>
        unat (event_id (sl_events (es_w s) x)) < length (en_ls E)) \<and>
     es_posted s = es_ran s @ map (\<lambda>y. (event_of (es_w s) y, sl_events (es_w s) (event_of (es_w s) y))) (el_queued s) \<and>
     (\<forall>y. es_worker s = Called y \<longrightarrow>
        es_ran s \<noteq> [] \<and> dm_data (sl_dmem (es_w s)) y = exec_post (en_F E) (fst (last (es_ran s))))"

definition el_inv :: "'c el_env \<Rightarrow> nat \<Rightarrow> 'c el_sys \<Rightarrow> bool" where
  "el_inv E k s \<longleftrightarrow>
     (\<exists>fs. el_machines E fs s) \<and> el_posts E s \<and> dq_inv (en_DB E) (en_self E) k (el_dq (en_F E) s) \<and>
     sel_event_budget k (es_w s)"

section \<open>The dispatch queue of the loop\<close>

abbreviation el_busy :: "'c el_sys \<Rightarrow> addr list" where
  "el_busy s \<equiv> (case es_worker s of Waiting \<Rightarrow> [] | Has y \<Rightarrow> [y] | Called y \<Rightarrow> [y])"

lemma el_dq_simps [simp]:
  "ds_q (el_dq F s) = the (p_exec_queue (sl_loop (es_w s)))" "ds_m (el_dq F s) = sl_dmem (es_w s)"
  "ds_pending (el_dq F s) = es_pending s" "\<not> ds_kill (el_dq F s)" "ds_cut (el_dq F s) = None"
  "dq_busy (el_dq F s) = el_busy s"
  by (simp_all add: el_dq_def dq_busy_def split: el_worker.splits)

lemma el_dqD:
  assumes "dq_inv B self k (el_dq F s)" and q: "p_exec_queue (sl_loop (es_w s)) = Some q"
  obtains p tq fs where "dq_pool q = Some p" "dq_queue q = Some tq"
    "\<not> destroying q" "pl_free_in B (p, dm_blocks (sl_dmem (es_w s))) fs" "NULL \<notin> B" "ts_inv tq"
    "el_queued s = (case es_worker s of Has y \<Rightarrow> [y] | _ \<Rightarrow> []) @ ts_contents tq"
    "distinct (fs @ es_pending s @ ts_contents tq @ el_busy s)" "set (fs @ es_pending s @ ts_contents tq @ el_busy s) = B"
    "self \<notin> set (ts_contents tq)" "dq_rep B self (el_dq F s) p tq fs" "dq_budget k (el_dq F s)"
proof -
  obtain p tq fs where r: "dq_rep B self (el_dq F s) p tq fs" and b: "dq_budget k (el_dq F s)"
    using assms(1) by (auto simp: dq_inv_def)
  note d = dq_repD [OF r, simplified, unfolded q option.sel]
  have ph: "self \<notin> set (ts_contents tq)" "\<not> destroying q"
    using r q by (simp_all add: dq_rep_def dq_phase_def)
  then have "dq_posts self tq = ts_contents tq" by (auto simp: dq_posts_def filter_id_conv)
  moreover have "el_queued s = (case es_worker s of Has y \<Rightarrow> [y] | _ \<Rightarrow> []) @ ts_contents tq"
    using q d(2) by (simp add: el_queued_def)
  ultimately show ?thesis using q d ph r b by (intro that [of p tq fs]) auto
qed

lemma dq_inv_mono: "dq_inv B self (Suc k) s \<Longrightarrow> dq_inv B self k s"
  unfolding dq_inv_def dq_budget_def pool_budget_def by (elim conjE exE) (intro conjI exI, assumption+, auto)

lemma sel_event_budget_mono: "sel_event_budget (Suc k) w \<Longrightarrow> sel_event_budget k w"
  by (auto simp: sel_event_budget_def pool_budget_def)

section \<open>The posters\<close>

lemma post_fill_none:
  assumes "sel_rep st NB EB ts seen c ls nfs [] w"
  shows "post_fill cat ev w = Some (Inl Assert_Failed)"
proof -
  obtain p where "p_pool_of_events (sl_loop w) = Some p" "pl_free_in EB (p, sl_pmem w) []"
    using assms by (auto simp: sel_rep_def sel_wired_def)
  then show ?thesis
    using pool_alloc_none by (simp add: post_fill_def state_event_loop_allocate_event_def pl_free_in_def)
qed

lemma post_fill_some:
  assumes rep: "sel_rep st NB EB ts seen c ls nfs fs w" and fill: "post_fill cat ev w = Some (Inr (x, w'))"
  obtains fs' p pm ev' where "fs = x # fs'" "ev_loop ev' = sl_self w" "event_id ev' = cat" "sl_self w \<noteq> NULL"
    "w' = w\<lparr>sl_loop := (sl_loop w)\<lparr>p_pool_of_events := Some p\<rparr>, sl_pmem := pm, sl_events := (sl_events w)(x := ev')\<rparr>"
    "sel_rep st NB EB ts seen c ls nfs fs' w'" "\<And>k. sel_event_budget k w \<Longrightarrow> sel_event_budget k w'"
proof -
  obtain p where p: "p_pool_of_events (sl_loop w) = Some p" "pl_free_in EB (p, sl_pmem w) fs"
    using rep by (auto simp: sel_rep_def sel_wired_def)
  show ?thesis
  proof (cases fs)
    case Nil
    then show ?thesis using fill post_fill_none rep by (metis Inl_Inr_False option.inject)
  next
    case (Cons z fs')
    obtain p1 pm where a: "pool_alloc (Some p) zero_timespec [times_out] (sl_pmem w) = Some (Inr (z, Some p1, pm))"
      "pl_free_in EB (p1, pm) fs'" "\<And>n. pool_budget n p \<Longrightarrow> pool_budget n p1" "z \<noteq> NULL"
      using pool_alloc_free [OF p(2) [unfolded Cons]] by metis
    obtain data where data: "read_from (ev_data ev) 0 (element_size p1 - SIZEOF_EVENT) = Inr data"
      using fill a(1,4) p(1) by (cases "read_from (ev_data ev) 0 (element_size p1 - SIZEOF_EVENT)")
        (simp_all add: post_fill_def state_event_loop_allocate_event_def)
    let ?ev = "ev\<lparr>ev_data := data, ev_loop := sl_self w, event_id := cat\<rparr>"
    let ?w = "w\<lparr>sl_loop := (sl_loop w)\<lparr>p_pool_of_events := Some p1\<rparr>, sl_pmem := pm, sl_events := (sl_events w)(z := ?ev)\<rparr>"
    have "z = x \<and> ?w = w'"
      using fill a(1,4) p(1) data by (auto simp: post_fill_def state_event_loop_allocate_event_def)
    then have e: "x = z" "w' = ?w" by auto
    have "sel_rep st NB EB ts seen c ls nfs fs' ?w" using rep a(2) by (auto simp: sel_rep_def sel_wired_def)
    moreover have "\<And>k. sel_event_budget k w \<Longrightarrow> sel_event_budget k ?w"
      using a(3) p(1) by (simp add: sel_event_budget_def)
    moreover have "sl_self w \<noteq> NULL" using rep by (simp add: sel_rep_def sel_wired_def)
    ultimately show ?thesis using Cons e by (intro that [of fs' ?ev pm p1]) auto
  qed
qed

lemma el_inv_fill:
  assumes inv: "el_inv E (Suc k) s" and cat: "unat cat < length (en_ls E)"
    and fill: "post_fill cat ev (es_w s) = Some (Inr (x, w'))"
  shows "el_inv E k (s\<lparr>es_w := w', es_filled := x # es_filled s\<rparr>)" (is "el_inv E k ?s")
proof -
  obtain fs a where m: "el_machines E fs s" "env_run E (es_ran s) = Some a" "env_rep E a fs (es_w s)"
    using inv by (auto simp: el_inv_def el_machines_def)
  obtain fs' p pm ev' where f: "fs = x # fs'" "ev_loop ev' = sl_self (es_w s)" "event_id ev' = cat" "sl_self (es_w s) \<noteq> NULL"
    "w' = es_w s\<lparr>sl_loop := (sl_loop (es_w s))\<lparr>p_pool_of_events := Some p\<rparr>, sl_pmem := pm,
       sl_events := (sl_events (es_w s))(x := ev')\<rparr>"
    "env_rep E a fs' w'" "\<And>k. sel_event_budget k (es_w s) \<Longrightarrow> sel_event_budget k w'"
    by (rule post_fill_some [OF m(3) fill]) blast
  have q: "el_queued ?s = el_queued s" "el_events ?s = x # el_events s" "el_dq (en_F E) ?s = el_dq (en_F E) s"
    by (simp_all add: el_queued_def el_events_def el_dq_def f(5))
  have x: "x \<notin> set (el_events s)" using m(1) f(1) by (auto simp: el_machines_def)
  have "el_machines E fs' ?s"
    using m f(1,6) unfolding el_machines_def q by (auto simp: f(5) listener_f_def)
  moreover have "el_posts E ?s"
  proof -
    have "event_of (es_w s) y \<noteq> x" if "y \<in> set (el_queued s)" for y using x that by (auto simp: el_events_def)
    then show ?thesis using inv x cat f(2-4) unfolding el_inv_def el_posts_def q by (auto simp: f(5))
  qed
  ultimately show ?thesis
    using inv f(7) q(3) dq_inv_mono sel_event_budget_mono unfolding el_inv_def by fastforce
qed

lemma el_inv_prepare:
  assumes inv: "el_inv E (Suc k) s" and x: "x \<in> set (es_filled s)" and q: "p_exec_queue (sl_loop (es_w s)) = Some q"
    and nd: "\<not> destroying q"
    and prep: "dispatch_prepare q (exec_post (en_F E) x) zero_timespec [times_out] (sl_dmem (es_w s)) = Some (Inr (y, q', m'))"
  shows "el_inv E k (s\<lparr>es_w := set_queue q' m' (es_w s), es_filled := remove1 x (es_filled s), es_pending := y # es_pending s\<rparr>)"
    (is "el_inv E k ?s")
proof -
  let ?w = "es_w s" and ?B = "en_DB E"
  have i: "el_posts E s" "dq_inv ?B (en_self E) (Suc k) (el_dq (en_F E) s)" "sel_event_budget (Suc k) ?w"
    using inv by (simp_all add: el_inv_def)
  obtain fs a where m: "el_machines E fs s" "env_run E (es_ran s) = Some a" "env_rep E a fs ?w"
    using inv by (auto simp: el_inv_def el_machines_def)
  obtain p tq dfs where d: "dq_pool q = Some p" "dq_queue q = Some tq"
    "el_queued s = (case es_worker s of Has y \<Rightarrow> [y] | _ \<Rightarrow> []) @ ts_contents tq"
    "distinct (dfs @ es_pending s @ ts_contents tq @ el_busy s)" "dq_rep ?B (en_self E) (el_dq (en_F E) s) p tq dfs"
    by (rule el_dqD [OF i(2) q]) blast
  obtain dfs' p' pm where a: "dfs = y # dfs'" "q' = q\<lparr>dq_pool := Some p'\<rparr>"
    "m' = (sl_dmem ?w)\<lparr>dm_blocks := pm, dm_data := (dm_data (sl_dmem ?w))(y := exec_post (en_F E) x)\<rparr>"
    by (rule dispatch_prepared [OF d(5)]) (use prep q in auto)
  have y: "y \<notin> set (es_pending s)" "y \<notin> set (el_queued s)" "es_worker s \<noteq> Called y"
    using d(3,4) a(1) by (auto split: el_worker.splits)
  have qd: "el_queued ?s = el_queued s" by (simp add: el_queued_def a(2) q)
  have others: "event_of (es_w ?s) z = event_of ?w z" if "z \<in> set (es_pending s @ el_queued s)" for z
    using that y by (auto simp: a(3))
  have ev: "el_events ?s = remove1 x (es_filled s) @ x # map (event_of ?w) (es_pending s @ el_queued s)"
    unfolding el_events_def qd using others by (auto simp: a(3))
  have ds: "distinct (fs @ el_events s)" using m(1) by (simp add: el_machines_def)
  then have "distinct (es_filled s)" by (simp add: el_events_def)
  then have evs: "distinct (fs @ el_events ?s)" "set (el_events ?s) = set (el_events s)"
    unfolding ev using x ds by (auto simp: el_events_def)
  have "el_machines E fs ?s"
    using m evs unfolding el_machines_def by (auto simp: listener_f_def sel_rep_def sel_wired_def)
  moreover have "el_posts E ?s"
    using i(1) y others unfolding el_posts_def evs(2) qd by (auto simp: a(3) cong: map_cong)
  moreover have "el_dq (en_F E) ?s = (el_dq (en_F E) s)\<lparr>ds_q := q', ds_m := m', ds_pending := y # ds_pending (el_dq (en_F E) s)\<rparr>"
    by (simp add: el_dq_def)
  moreover have "dq_step (en_self E) (el_dq (en_F E) s) \<dots>"
    using dq_step.Prepare [of "el_dq (en_F E) s"] nd prep q by simp
  then have "dq_inv ?B (en_self E) k \<dots>" using i(2) by (rule dqs.step_inv)
  ultimately show ?thesis using i(3) sel_event_budget_mono unfolding el_inv_def by (fastforce simp: sel_event_budget_def)
qed

text \<open>An element that moves to the end.\<close>

lemma moved_last:
  assumes "y \<in> set ps"
  shows "distinct (as @ map f (remove1 y ps @ qs @ [y])) = distinct (as @ map f (ps @ qs))"
    and "set (as @ map f (remove1 y ps @ qs @ [y])) = set (as @ map f (ps @ qs))"
proof -
  have "mset (remove1 y ps @ qs @ [y]) = mset (ps @ qs)" using assms by simp
  then have "mset (as @ map f (remove1 y ps @ qs @ [y])) = mset (as @ map f (ps @ qs))"
    unfolding mset_append [of as] mset_map by (rule arg_cong)
  then show "distinct (as @ map f (remove1 y ps @ qs @ [y])) = distinct (as @ map f (ps @ qs))"
    "set (as @ map f (remove1 y ps @ qs @ [y])) = set (as @ map f (ps @ qs))"
    by (rule mset_eq_imp_distinct_iff, rule mset_eq_setD)
qed

lemma el_inv_enqueue:
  assumes inv: "el_inv E (Suc k) s" and y: "y \<in> set (es_pending s)" and q: "p_exec_queue (sl_loop (es_w s)) = Some q"
    and enq: "dispatch_enqueue q y zero_timespec [times_out] = Some (Inr q')"
  shows "el_inv E k (s\<lparr>es_w := set_queue q' (sl_dmem (es_w s)) (es_w s), es_pending := remove1 y (es_pending s),
      es_posted := es_posted s @ [(event_of (es_w s) y, sl_events (es_w s) (event_of (es_w s) y))]\<rparr>)"
    (is "el_inv E k ?s")
proof -
  let ?w = "es_w s" and ?B = "en_DB E"
  have i: "el_posts E s" "dq_inv ?B (en_self E) (Suc k) (el_dq (en_F E) s)" "sel_event_budget (Suc k) ?w"
    using inv by (simp_all add: el_inv_def)
  obtain fs where m: "el_machines E fs s" using inv by (auto simp: el_inv_def)
  obtain p tq dfs where d: "dq_queue q = Some tq" "el_queued s = (case es_worker s of Has y \<Rightarrow> [y] | _ \<Rightarrow> []) @ ts_contents tq"
    "distinct (dfs @ es_pending s @ ts_contents tq @ el_busy s)" "set (dfs @ es_pending s @ ts_contents tq @ el_busy s) = ?B"
    "NULL \<notin> ?B" "dq_rep ?B (en_self E) (el_dq (en_F E) s) p tq dfs" "dq_budget (Suc k) (el_dq (en_F E) s)"
    by (rule el_dqD [OF i(2) q]) blast
  have "y \<in> ?B" using y d(4) by auto
  then have yn: "y \<noteq> NULL" using d(5) by metis
  obtain tq' where t: "q' = q\<lparr>dq_queue := Some tq'\<rparr>" "ts_contents tq' = ts_contents tq @ [y]"
    by (rule dispatch_enqueued [OF d(6,7) yn]) (use enq q in auto)
  have qd: "el_queued ?s = el_queued s @ [y]" using t d(2) by (simp add: el_queued_def)
  have ev: "el_events ?s = es_filled s @ map (event_of ?w) (remove1 y (es_pending s) @ el_queued s @ [y])"
    unfolding el_events_def qd by simp
  have ds: "distinct (fs @ el_events s)" using m by (simp add: el_machines_def)
  have evs: "distinct (fs @ el_events ?s)" "set (el_events ?s) = set (el_events s)"
    using moved_last(1) [OF y, of "fs @ es_filled s" "event_of ?w" "el_queued s"] ds
      moved_last(2) [OF y, of "es_filled s" "event_of ?w" "el_queued s"]
    unfolding ev el_events_def [of s] append_assoc by (simp_all only:)
  have "el_machines E fs ?s"
    using m evs unfolding el_machines_def by (auto simp: listener_f_def sel_rep_def sel_wired_def)
  moreover have "el_posts E ?s"
    using i(1) y set_remove1_subset [of y "es_pending s"] unfolding el_posts_def evs(2) qd by auto
  moreover have "el_dq (en_F E) ?s = (el_dq (en_F E) s)\<lparr>ds_q := q', ds_pending := remove1 y (ds_pending (el_dq (en_F E) s)),
      ds_posted := ds_posted (el_dq (en_F E) s) @ [dm_data (ds_m (el_dq (en_F E) s)) y]\<rparr>"
    using i(1) y by (simp add: el_dq_def el_posts_def)
  moreover have "dq_step (en_self E) (el_dq (en_F E) s) \<dots>"
    using dq_step.Enqueue [of y "el_dq (en_F E) s"] y enq q by simp
  then have "dq_inv ?B (en_self E) k \<dots>" using i(2) by (rule dqs.step_inv)
  ultimately show ?thesis using i(3) sel_event_budget_mono unfolding el_inv_def by (fastforce simp: sel_event_budget_def)
qed

section \<open>The worker\<close>

lemma el_inv_take:
  assumes inv: "el_inv E (Suc k) s" and idle: "es_worker s = Waiting" and q: "p_exec_queue (sl_loop (es_w s)) = Some q"
    and take: "worker_take q zero_timespec [] = Some (Inr (y, q'))"
  shows "el_inv E k (s\<lparr>es_w := set_queue q' (sl_dmem (es_w s)) (es_w s), es_worker := Has y\<rparr>)" (is "el_inv E k ?s")
proof -
  let ?w = "es_w s" and ?B = "en_DB E"
  have i: "el_posts E s" "dq_inv ?B (en_self E) (Suc k) (el_dq (en_F E) s)" "sel_event_budget (Suc k) ?w"
    using inv by (simp_all add: el_inv_def)
  obtain fs where m: "el_machines E fs s" using inv by (auto simp: el_inv_def)
  obtain p tq dfs where d: "el_queued s = ts_contents tq" "en_self E \<notin> set (ts_contents tq)"
    "dq_rep ?B (en_self E) (el_dq (en_F E) s) p tq dfs"
    by (rule el_dqD [OF i(2) q]) (use idle in auto)
  obtain tq' where t: "q' = q\<lparr>dq_queue := Some tq'\<rparr>" "ts_contents tq = y # ts_contents tq'"
    by (rule worker_took [OF d(3)]) (use take q in auto)
  have qd: "el_queued ?s = el_queued s" using t d(1) by (simp add: el_queued_def)
  have ev: "el_events ?s = el_events s" unfolding el_events_def qd by simp
  have "el_machines E fs ?s"
    using m unfolding el_machines_def ev by (auto simp: listener_f_def sel_rep_def sel_wired_def)
  moreover have "el_posts E ?s" using i(1) unfolding el_posts_def ev qd by auto
  moreover have "el_dq (en_F E) ?s = (el_dq (en_F E) s)\<lparr>ds_q := q', ds_worker := Busy y\<rparr>"
    using idle by (simp add: el_dq_def)
  moreover have "y \<noteq> en_self E" using d(2) t(2) by auto
  then have "dq_step (en_self E) (el_dq (en_F E) s) ((el_dq (en_F E) s)\<lparr>ds_q := q', ds_worker := Busy y\<rparr>)"
    using dq_step.Take [of "el_dq (en_F E) s"] idle take q by (simp add: el_dq_def)
  then have "dq_inv ?B (en_self E) k ((el_dq (en_F E) s)\<lparr>ds_q := q', ds_worker := Busy y\<rparr>)" using i(2) by (rule dqs.step_inv)
  ultimately show ?thesis using i(3) sel_event_budget_mono unfolding el_inv_def by (fastforce simp: sel_event_budget_def)
qed

lemma el_inv_release:
  assumes inv: "el_inv E (Suc k) s" and called: "es_worker s = Called y" and q: "p_exec_queue (sl_loop (es_w s)) = Some q"
    and rel: "worker_release q y (sl_dmem (es_w s)) = Inr (q', m')" and F: "en_F E \<noteq> NULL"
  shows "el_inv E k (s\<lparr>es_w := set_queue q' m' (es_w s), es_worker := Waiting\<rparr>)" (is "el_inv E k ?s")
proof -
  let ?w = "es_w s" and ?B = "en_DB E"
  have i: "el_posts E s" "dq_inv ?B (en_self E) (Suc k) (el_dq (en_F E) s)" "sel_event_budget (Suc k) ?w"
    using inv by (simp_all add: el_inv_def)
  obtain fs where m: "el_machines E fs s" using inv by (auto simp: el_inv_def)
  have r: "dq_queue q' = dq_queue q" "dm_data m' = dm_data (sl_dmem ?w)"
    using rel by (auto simp: worker_release_def bind_res_def split: sum.splits)
  have qd: "el_queued ?s = el_queued s" using called r(1) q by (simp add: el_queued_def)
  have ev: "el_events ?s = el_events s" unfolding el_events_def qd by (simp add: r(2))
  have "el_machines E fs ?s"
    using m unfolding el_machines_def ev by (auto simp: listener_f_def sel_rep_def sel_wired_def)
  moreover have "el_posts E ?s" using i(1) r(2) unfolding el_posts_def ev qd by auto
  moreover have c: "es_ran s \<noteq> []" "dm_data (sl_dmem ?w) y = exec_post (en_F E) (fst (last (es_ran s)))"
    using i(1) called by (simp_all add: el_posts_def)
  obtain rs r where ran: "es_ran s = rs @ [r]" using c(1) by (metis append_butlast_last_id)
  have "el_dq (en_F E) ?s = (el_dq (en_F E) s)\<lparr>ds_q := q', ds_m := m', ds_worker := Idle,
      ds_ran := ds_ran (el_dq (en_F E) s) @ [dm_data (ds_m (el_dq (en_F E) s)) y]\<rparr>"
    using called c(2) ran by (simp add: el_dq_def)
  moreover have "dq_step (en_self E) (el_dq (en_F E) s) \<dots>"
    using dq_step.Run [of "el_dq (en_F E) s" y q' m'] called rel q c(2) F by (simp add: el_dq_def)
  then have "dq_inv ?B (en_self E) k \<dots>" using i(2) by (rule dqs.step_inv)
  ultimately show ?thesis using i(3) sel_event_budget_mono unfolding el_inv_def by (fastforce simp: sel_event_budget_def)
qed

text \<open>The call of the worker returns, as long as the machines request only states they have.\<close>

lemma el_exec_ok:
  assumes inv: "el_inv E (Suc k) s" and has: "es_worker s = Has y" and x: "x = event_of (es_w s) y"
    and ev: "ev = sl_events (es_w s) x" and safe: "env_run E (es_ran s @ [(x, ev)]) \<noteq> None"
  obtains calls w' where
    "state_event_loop_exec_queue_f (pure_callbacks (en_client E ev)) (pure_pre (en_pre E ev)) x (es_w s) = Some (Inr (calls, w'))"
    "el_inv E k (s\<lparr>es_w := w', es_worker := Called y, es_ran := es_ran s @ [(x, ev)], es_calls := es_calls s @ calls\<rparr>)"
proof -
  let ?w = "es_w s" and ?B = "en_DB E"
  have i: "el_posts E s" "dq_inv ?B (en_self E) (Suc k) (el_dq (en_F E) s)" "sel_event_budget (Suc k) ?w"
    using inv by (simp_all add: el_inv_def)
  obtain fs ts seen c where m: "el_machines E fs s" "env_run E (es_ran s) = Some (ts, seen, c)" "env_rep E (ts, seen, c) fs ?w"
    using inv by (force simp: el_inv_def el_machines_def)
  obtain qs where qs: "el_queued s = y # qs" using has by (simp add: el_queued_def)
  have evs: "el_events s = es_filled s @ map (event_of ?w) (es_pending s) @ x # map (event_of ?w) qs"
    by (simp add: el_events_def qs x)
  have ds: "distinct (fs @ el_events s)" "set (fs @ el_events s) = en_EB E" using m(1) by (simp_all add: el_machines_def)
  have xs: "x \<in> en_EB E" "x \<notin> set fs" "x \<in> set (el_events s)" using ds by (auto simp: evs)
  then have e: "ev_loop (sl_events ?w x) \<noteq> NULL" "unat (event_id (sl_events ?w x)) < length (en_ls E)"
    using i(1) by (simp_all add: el_posts_def)
  have k: "event_pre_proc_f (sl_loop ?w) = en_pre_f E" "el_client_data (sl_loop ?w) = en_pre_data E"
    "listener_f ?w = en_listener E" "es_calls s = listener_calls (en_listener E) (en_ls E) (es_ran s)"
    using m(1) by (simp_all add: el_machines_def)
  have pre: "pre_processed (en_pre E ev) x ?w c =
      (if en_pre_f E \<noteq> NULL then en_pre E ev (en_pre_f E) x (en_pre_data E) c else c)"
    unfolding pre_processed_def k by (rule refl)
  obtain ts' seen' c' where step: "autos_step (en_client E ev) (en_states E) x ts seen (pre_processed (en_pre E ev) x ?w c) =
      Some (ts', seen', c')"
    using safe m(2) unfolding pre by (auto simp: autos_run_append split: option.splits)
  obtain w' where w': "state_event_loop_exec_queue_f (pure_callbacks (en_client E ev)) (pure_pre (en_pre E ev)) x ?w =
      Some (Inr (map (\<lambda>b. (en_listener E, b, event_id ev, x)) (en_ls E ! unat (event_id ev)), w'))"
    "env_rep E (ts', seen', c') (fs @ [x]) w'" "sel_event_budget k w'"
    "\<exists>sm p pm. w' = ?w\<lparr>sl_sm := sm, sl_loop := (sl_loop ?w)\<lparr>p_pool_of_events := p\<rparr>, sl_pmem := pm\<rparr>"
    using exec_queue_ok [OF m(3) [simplified] xs(1,2) e(1,2) step i(3)] unfolding k(3) ev by (metis fst_conv snd_conv)
  then obtain sm p pm where f: "w' = ?w\<lparr>sl_sm := sm, sl_loop := (sl_loop ?w)\<lparr>p_pool_of_events := p\<rparr>, sl_pmem := pm\<rparr>"
    by blast
  let ?c = "map (\<lambda>b. (en_listener E, b, event_id ev, x)) (en_ls E ! unat (event_id ev))"
  let ?s = "s\<lparr>es_w := w', es_worker := Called y, es_ran := es_ran s @ [(x, ev)], es_calls := es_calls s @ ?c\<rparr>"
  have qd: "el_queued ?s = qs" using qs has by (simp add: el_queued_def f)
  have evs': "el_events ?s = es_filled s @ map (event_of ?w) (es_pending s) @ map (event_of ?w) qs"
    unfolding el_events_def qd by (simp add: f)
  have "env_run E (es_ran ?s) = Some (ts', seen', c')"
    using m(2) step unfolding pre by (simp add: autos_run_append)
  then have "el_machines E (fs @ [x]) ?s"
    using w'(2) ds k unfolding el_machines_def evs' evs
    by (auto simp: f listener_f_def listener_calls_def)
  moreover have "el_posts E ?s"
    using i(1) qs unfolding el_posts_def qd evs evs' by (auto simp: f x ev)
  moreover have "el_dq (en_F E) ?s = el_dq (en_F E) s" using has by (simp add: el_dq_def f)
  ultimately have "el_inv E k ?s" using i(2) w'(3) dq_inv_mono unfolding el_inv_def by fastforce
  with w'(1) show ?thesis by (rule that)
qed

section \<open>All interleavings\<close>

lemma el_step_inv:
  assumes "env_step E s s'" and "el_inv E (Suc k) s" and F: "en_F E \<noteq> NULL" and safe: "\<And>es. env_run E es \<noteq> None"
  shows "el_inv E k s'"
  using assms(1)
proof cases
  case (Fill cat ev x w')
  then show ?thesis using el_inv_fill [OF assms(2)] by simp
next
  case (Prepare x q y q' m')
  then show ?thesis using el_inv_prepare [OF assms(2)] by simp
next
  case (Enqueue y q q')
  then show ?thesis using el_inv_enqueue [OF assms(2)] by simp
next
  case (Take q y q')
  then show ?thesis using el_inv_take [OF assms(2)] by simp
next
  case (Exec y x ev calls w')
  from el_exec_ok [OF assms(2) this(2,4,5) safe] this(1,6) show ?thesis by (metis Inr_inject option.inject prod.inject)
next
  case (Release y q q' m')
  then show ?thesis using el_inv_release [OF assms(2) _ _ _ F] by simp
qed

text \<open>The machines request only states they have, whatever events come.\<close>

definition el_ok :: "'c el_env \<Rightarrow> bool" where
  "el_ok E \<longleftrightarrow> en_F E \<noteq> NULL \<and> (\<forall>es. env_run E es \<noteq> None)"

interpretation els: budgeted_system "env_step E" "\<lambda>k s. el_ok E \<and> el_inv E k s" for E
proof
  fix s s' k assume "env_step E s s'" "el_ok E \<and> el_inv E (Suc k) s"
  then show "el_ok E \<and> el_inv E k s'" using el_step_inv by (fastforce simp: el_ok_def)
qed

text \<open>A loop with started machines, an empty queue and all event blocks free, whose counters take \<open>k\<close> more steps.\<close>

definition el_ready :: "'c el_env \<Rightarrow> nat \<Rightarrow> 'c sel \<Rightarrow> bool" where
  "el_ready E k w \<longleftrightarrow>
     (\<exists>fs. env_rep E (en_init E) fs w \<and> set fs = en_EB E) \<and> listener_f w = en_listener E \<and>
     event_pre_proc_f (sl_loop w) = en_pre_f E \<and> el_client_data (sl_loop w) = en_pre_data E \<and>
     (\<exists>q. p_exec_queue (sl_loop w) = Some q \<and> dq_inv (en_DB E) (en_self E) k (dq_start q (sl_dmem w))) \<and>
     sel_event_budget k w"

lemma dq_start_empty:
  assumes "dq_inv B self k (dq_start q m)"
  shows "\<exists>tq. dq_queue q = Some tq \<and> ts_contents tq = []"
proof -
  obtain p tq fs where r: "dq_rep B self (dq_start q m) p tq fs" using assms by (auto simp: dq_inv_def)
  then have "\<forall>x \<in> set (ts_contents tq). x = self" "self \<notin> set (ts_contents tq)"
    by (simp_all add: dq_rep_def dq_start_def dq_posts_def dq_phase_def filter_empty_conv)
  then have "ts_contents tq = []" by (metis list.set_intros(1) neq_Nil_conv)
  with r show ?thesis by (auto simp: dq_rep_def dq_start_def)
qed

lemma el_start_inv:
  assumes "el_ready E k w"
  shows "el_inv E k (el_start w)"
proof -
  obtain q fs where q: "p_exec_queue (sl_loop w) = Some q" "dq_inv (en_DB E) (en_self E) k (dq_start q (sl_dmem w))"
    and fs: "env_rep E (en_init E) fs w" "set fs = en_EB E"
    using assms by (auto simp: el_ready_def)
  have n: "el_queued (el_start w) = []" "el_events (el_start w) = []"
    using dq_start_empty [OF q(2)] q(1) by (auto simp: el_events_def el_queued_def el_start_def)
  have "el_dq (en_F E) (el_start w) = dq_start q (sl_dmem w)" using q(1) by (simp add: el_dq_def el_start_def dq_start_def)
  moreover have "distinct fs" using fs(1) by (auto simp: sel_rep_def sel_wired_def pl_free_in_def pool_rep_def)
  then have "el_machines E fs (el_start w)"
    using assms fs unfolding el_machines_def n by (simp add: el_start_def el_ready_def listener_calls_def)
  moreover have "el_posts E (el_start w)" using q(1) unfolding el_posts_def n by (simp add: el_start_def)
  ultimately show ?thesis using q(2) assms by (auto simp: el_inv_def el_ready_def el_start_def)
qed

lemma el_runs:
  assumes "el_ok E" and "el_ready E (n + k) w" and "(env_step E ^^ n) (el_start w) s"
  shows "el_inv E k s"
  using els.steps_inv [OF assms(3), of k] assms(1) el_start_inv [OF assms(2)] by blast

section \<open>A post is its steps\<close>

lemma state_event_loop_post_fill:
  "state_event_loop_post F True cat (Some ev) zero_timespec [times_out] w =
     bind_wait (post_fill cat ev w) (\<lambda>(e, w2).
       bind_wait (dispatch_async_f (p_exec_queue (sl_loop w2)) F e NULL zero_timespec [times_out] (sl_dmem w2))
         (\<lambda>(_, dq, dm). Some (Inr (True, w2\<lparr>sl_loop := (sl_loop w2)\<lparr>p_exec_queue := dq\<rparr>, sl_dmem := dm\<rparr>))))"
  by (simp add: state_event_loop_post_def post_fill_def Let_def bind_wait_def split: option.splits sum.splits prod.splits)

lemma post_fill_queue:
  assumes "post_fill cat ev w = Some (Inr (x, w'))"
  shows "p_exec_queue (sl_loop w') = p_exec_queue (sl_loop w)"
proof -
  have "p_exec_queue (sl_loop w1) = p_exec_queue (sl_loop w)"
    if "state_event_loop_allocate_event True zero_timespec [times_out] w = Some (Inr (e, w1))" for e w1
    using that by (auto simp: state_event_loop_allocate_event_def bind_res_eq_Inr split: if_split_asm)
  then show ?thesis using assms by (auto simp: post_fill_def bind_wait_eq_Inr split: option.split_asm)
qed

lemma state_event_loop_post_steps:
  assumes post: "state_event_loop_post (en_F E) True cat (Some ev) zero_timespec [times_out] (es_w s) = Some (Inr (True, w'))"
    and q: "p_exec_queue (sl_loop (es_w s)) = Some q" "\<not> destroying q" and cat: "unat cat < length (en_ls E)"
  shows "\<exists>x w2. post_fill cat ev (es_w s) = Some (Inr (x, w2)) \<and> sl_events w' = sl_events w2 \<and>
    (env_step E ^^ 3) s (s\<lparr>es_w := w', es_posted := es_posted s @ [(x, sl_events w' x)]\<rparr>)"
proof -
  obtain x w2 where f: "post_fill cat ev (es_w s) = Some (Inr (x, w2))"
    and a: "bind_wait (dispatch_async_f (p_exec_queue (sl_loop w2)) (en_F E) x NULL zero_timespec [times_out] (sl_dmem w2))
       (\<lambda>(_, dq, dm). Some (Inr (True, w2\<lparr>sl_loop := (sl_loop w2)\<lparr>p_exec_queue := dq\<rparr>, sl_dmem := dm\<rparr>))) = Some (Inr (True, w'))"
    using post by (auto simp: state_event_loop_post_fill bind_wait_eq_Inr)
  have q2: "p_exec_queue (sl_loop w2) = Some q"
    using post_fill_queue [OF f] q(1) by simp
  obtain y q3 m3 q4 where p: "dispatch_prepare q (exec_post (en_F E) x) zero_timespec [times_out] (sl_dmem w2) = Some (Inr (y, q3, m3))"
    and e: "dispatch_enqueue q3 y zero_timespec [times_out] = Some (Inr q4)" "w' = set_queue q4 m3 w2"
    using a q(2) unfolding q2
    by (auto simp: dispatch_async_f_def bind_wait_eq_Inr bind_res_def split: option.splits sum.splits)
  have m3: "dm_data m3 y = exec_post (en_F E) x"
    using p by (auto simp: dispatch_prepare_def bind_res_eq_Inr split: if_split_asm)
  let ?s1 = "s\<lparr>es_w := w2, es_filled := x # es_filled s\<rparr>"
  let ?s2 = "?s1\<lparr>es_w := set_queue q3 m3 w2, es_filled := es_filled s, es_pending := y # es_pending s\<rparr>"
  let ?s3 = "?s2\<lparr>es_w := w', es_pending := es_pending s, es_posted := es_posted s @ [(x, sl_events w' x)]\<rparr>"
  have "env_step E s ?s1" using f cat by (rule el_step.Fill [rotated])
  moreover have "env_step E ?s1 ?s2" using el_step.Prepare [of x ?s1 q] q(2) q2 p by simp
  moreover have "env_step E ?s2 ?s3" using el_step.Enqueue [of y ?s2 q3 q4] e m3 by simp
  ultimately have "(env_step E ^^ 3) s ?s3" by (auto simp: eval_nat_numeral intro!: relcomppI)
  then show ?thesis using f e(2) by (intro exI [of _ x] exI [of _ w2]) simp
qed

text \<open>Whether a post returns depends on the free blocks alone.\<close>

lemma post_fill_ok:
  assumes rep: "sel_rep st NB EB ts seen c ls nfs (x # fs) w" and fit: "event_fits ev w"
  shows "\<exists>w'. post_fill cat ev w = Some (Inr (x, w')) \<and> p_exec_queue (sl_loop w') = p_exec_queue (sl_loop w) \<and>
    sl_dmem w' = sl_dmem w \<and> sl_events w' x = ev\<lparr>ev_loop := sl_self w, event_id := cat\<rparr>"
proof -
  obtain p where p: "p_pool_of_events (sl_loop w) = Some p" "pl_free_in EB (p, sl_pmem w) (x # fs)"
    using rep by (auto simp: sel_rep_def sel_wired_def)
  obtain p1 pm where a: "pool_alloc (Some p) zero_timespec [times_out] (sl_pmem w) = Some (Inr (x, Some p1, pm))"
    "x \<noteq> NULL" "element_size p1 = element_size p"
    using pool_alloc_free [OF p(2)] by metis
  have "read_from (ev_data ev) 0 (element_size p1 - SIZEOF_EVENT) = Inr (ev_data ev)"
    using fit p(1) a(3) by (simp add: event_fits_def read_from_def)
  then show ?thesis using a p(1) by (simp add: post_fill_def state_event_loop_allocate_event_def)
qed

text \<open>The blocks of the dispatch queue in use; the worker keeps its block until it has freed the event.\<close>

definition el_used :: "'c el_sys \<Rightarrow> nat" where
  "el_used s = length (es_pending s) + length (el_queued s) + (case es_worker s of Called _ \<Rightarrow> 1 | _ \<Rightarrow> 0)"

lemma dispatch_async_blocks:
  assumes inv: "el_inv E (Suc k) s" and q: "p_exec_queue (sl_loop (es_w s)) = Some q"
  shows "if el_used s < card (en_DB E)
    then \<exists>q' m'. dispatch_async_f (Some q) f a b zero_timespec [times_out] (sl_dmem (es_w s)) = Some (Inr (True, Some q', m'))
    else dispatch_async_f (Some q) f a b zero_timespec [times_out] (sl_dmem (es_w s)) = Some (Inl Assert_Failed)"
proof -
  let ?B = "en_DB E" and ?m = "sl_dmem (es_w s)" and ?d = "\<lparr>pd_fn = f, pd_arg1 = a, pd_arg2 = b\<rparr>"
  have d: "dq_inv ?B (en_self E) (Suc k) (el_dq (en_F E) s)" using inv by (simp add: el_inv_def)
  obtain p tq fs where t: "dq_pool q = Some p" "dq_queue q = Some tq" "\<not> destroying q" "pl_free_in ?B (p, dm_blocks ?m) fs"
    "NULL \<notin> ?B" "ts_inv tq" "el_queued s = (case es_worker s of Has y \<Rightarrow> [y] | _ \<Rightarrow> []) @ ts_contents tq"
    "distinct (fs @ es_pending s @ ts_contents tq @ el_busy s)" "set (fs @ es_pending s @ ts_contents tq @ el_busy s) = ?B"
    "dq_rep ?B (en_self E) (el_dq (en_F E) s) p tq fs" "dq_budget (Suc k) (el_dq (en_F E) s)"
    by (rule el_dqD [OF d q]) blast
  have "card ?B = length (fs @ es_pending s @ ts_contents tq @ el_busy s)" using distinct_card [OF t(8)] t(9) by simp
  then have c: "card ?B = length fs + el_used s" using t(7) by (simp add: el_used_def split: el_worker.splits)
  show ?thesis
  proof (cases fs)
    case Nil
    then show ?thesis using c dispatch_prepare_none [OF t(1) t(4) [unfolded Nil]] t(3) by (simp add: dispatch_async_f_def)
  next
    case (Cons y fs')
    obtain p' pm where a: "dispatch_prepare q ?d zero_timespec [times_out] ?m = Some (Inr (y, q\<lparr>dq_pool := Some p'\<rparr>,
        ?m\<lparr>dm_blocks := pm, dm_data := (dm_data ?m)(y := ?d)\<rparr>))"
      by (rule dispatch_prepare_some [OF t(1) t(4) [unfolded Cons] t(5)]) blast
    have "y \<in> ?B" using t(9) Cons by auto
    then have "y \<noteq> NULL" using t(5) by metis
    moreover have "length (ts_contents tq) < card ?B" using c Cons t(7) by (auto simp: el_used_def)
    then have "ts_len tq < unat (q_size tq)" using t(10) length_ts_contents [of tq] by (simp add: dq_rep_def)
    ultimately have "ts_room y tq" using dq_budgetD(4) [OF t(10,11)] by (simp add: ts_room_def)
    then obtain tq' where "dispatch_enqueue (q\<lparr>dq_pool := Some p'\<rparr>) y zero_timespec [times_out] =
        Some (Inr (q\<lparr>dq_pool := Some p', dq_queue := Some tq'\<rparr>))"
      using dispatch_enqueue_room [of "q\<lparr>dq_pool := Some p'\<rparr>" tq y zero_timespec "[times_out]"] t(2,6) by auto
    with a t(3) Cons c show ?thesis by (simp add: dispatch_async_f_def)
  qed
qed

section \<open>The worker gets on\<close>

text \<open>How many steps the worker has to take until it waits for a new event.\<close>

definition el_todo :: "'c el_sys \<Rightarrow> nat" where
  "el_todo s = (3 * length (el_queued s) + (case es_worker s of Called _ \<Rightarrow> 1 | _ \<Rightarrow> 0)) -
     (case es_worker s of Has _ \<Rightarrow> 1 | _ \<Rightarrow> 0)"

lemma el_todo_0: "el_todo s = 0 \<Longrightarrow> el_queued s = [] \<and> es_worker s = Waiting"
  by (auto simp: el_todo_def el_queued_def split: el_worker.splits)

lemma el_take_ok:
  assumes inv: "el_inv E (Suc k) s" and idle: "es_worker s = Waiting" and ne: "el_queued s \<noteq> []"
  shows "\<exists>s'. env_step E s s' \<and> es_posted s' = es_posted s \<and> es_pending s' = es_pending s \<and> es_filled s' = es_filled s \<and>
    Suc (el_todo s') = el_todo s"
proof -
  obtain q where q: "p_exec_queue (sl_loop (es_w s)) = Some q" using inv by (auto simp: el_inv_def el_posts_def)
  have d: "dq_inv (en_DB E) (en_self E) (Suc k) (el_dq (en_F E) s)" using inv by (simp add: el_inv_def)
  obtain tq where t: "dq_queue q = Some tq" "ts_inv tq" "el_queued s = ts_contents tq"
    by (rule el_dqD [OF d q]) (use idle in auto)
  obtain y ys where c: "ts_contents tq = y # ys" using ne t(3) by (cases "ts_contents tq") auto
  obtain tq' where w: "worker_take q zero_timespec [] = Some (Inr (y, q\<lparr>dq_queue := Some tq'\<rparr>))" "ts_contents tq' = ys"
    by (rule worker_take_some [OF t(1,2) c])
  let ?s = "s\<lparr>es_w := set_queue (q\<lparr>dq_queue := Some tq'\<rparr>) (sl_dmem (es_w s)) (es_w s), es_worker := Has y\<rparr>"
  have "env_step E s ?s" by (rule el_step.Take [OF idle q w(1)])
  moreover have "el_queued ?s = y # ys" using w(2) by (simp add: el_queued_def)
  then have "Suc (el_todo ?s) = el_todo s" using c t(3) idle by (simp add: el_todo_def)
  ultimately show ?thesis by (intro exI [of _ ?s]) simp
qed

lemma el_posts_fn:
  assumes "el_posts E s" and "y \<in> set (es_pending s @ el_queued s)"
  shows "pd_fn (dm_data (sl_dmem (es_w s)) y) = en_F E"
proof -
  have "dm_data (sl_dmem (es_w s)) y = exec_post (en_F E) (event_of (es_w s) y)"
    using assms unfolding el_posts_def by blast
  from arg_cong [OF this, of pd_fn] show ?thesis by simp
qed

lemma el_inv_length: "el_inv E k s \<Longrightarrow> length (es_posted s) = length (es_ran s) + length (el_queued s)"
  by (simp add: el_inv_def el_posts_def)

lemma el_call_ok:
  assumes inv: "el_inv E (Suc k) s" and has: "es_worker s = Has y" and safe: "\<And>es. env_run E es \<noteq> None"
  shows "\<exists>s'. env_step E s s' \<and> es_posted s' = es_posted s \<and> es_pending s' = es_pending s \<and> es_filled s' = es_filled s \<and>
    Suc (el_todo s') = el_todo s"
proof -
  let ?x = "event_of (es_w s) y" and ?q = "el_queued s"
  let ?ev = "sl_events (es_w s) ?x"
  obtain calls w' where c: "state_event_loop_exec_queue_f (pure_callbacks (en_client E ?ev)) (pure_pre (en_pre E ?ev)) ?x
      (es_w s) = Some (Inr (calls, w'))"
    and i: "el_inv E k (s\<lparr>es_w := w', es_worker := Called y, es_ran := es_ran s @ [(?x, ?ev)], es_calls := es_calls s @ calls\<rparr>)"
      (is "el_inv E k ?s")
    by (rule el_exec_ok [OF inv has refl refl safe])
  have "y \<in> set ?q" using has by (simp add: el_queued_def)
  then have "pd_fn (dm_data (sl_dmem (es_w s)) y) = en_F E" using inv el_posts_fn by (fastforce simp: el_inv_def)
  then have "env_step E s ?s" using el_step.Exec [where P = "en_client E" and pp = "en_pre E", OF has _ refl refl c] by blast
  moreover have "length (es_posted s) = length (es_ran s) + length ?q" "length (es_posted s) = Suc (length (es_ran s)) + length (el_queued ?s)"
    using el_inv_length [OF inv] el_inv_length [OF i] by simp_all
  then have "Suc (el_todo ?s) = el_todo s" using has by (simp add: el_todo_def)
  ultimately show ?thesis by (intro exI [of _ ?s]) simp
qed

lemma el_release_ok:
  assumes inv: "el_inv E (Suc k) s" and called: "es_worker s = Called y"
  shows "\<exists>s'. env_step E s s' \<and> es_posted s' = es_posted s \<and> es_pending s' = es_pending s \<and> es_filled s' = es_filled s \<and>
    Suc (el_todo s') = el_todo s"
proof -
  obtain q where q: "p_exec_queue (sl_loop (es_w s)) = Some q" using inv by (auto simp: el_inv_def el_posts_def)
  have d: "dq_inv (en_DB E) (en_self E) (Suc k) (el_dq (en_F E) s)" using inv by (simp add: el_inv_def)
  obtain p fs where t: "dq_pool q = Some p" "pl_free_in (en_DB E) (p, dm_blocks (sl_dmem (es_w s))) fs" "y \<in> en_DB E"
    "y \<notin> set fs" "dq_budget (Suc k) (el_dq (en_F E) s)"
    by (rule el_dqD [OF d q]) (use called in auto)
  have "pool_budget (Suc k) p" using t(1,5) q by (auto simp: dq_budget_def)
  then obtain p' pm where w: "worker_release q y (sl_dmem (es_w s)) =
      Inr (q\<lparr>dq_pool := Some p'\<rparr>, (sl_dmem (es_w s))\<lparr>dm_blocks := pm\<rparr>)"
    by (rule worker_release_ok [OF t(1-4)])
  let ?s = "s\<lparr>es_w := set_queue (q\<lparr>dq_pool := Some p'\<rparr>) ((sl_dmem (es_w s))\<lparr>dm_blocks := pm\<rparr>) (es_w s), es_worker := Waiting\<rparr>"
  have "env_step E s ?s" by (rule el_step.Release [OF called q w])
  moreover have "el_queued ?s = el_queued s" using q called by (simp add: el_queued_def)
  then have "Suc (el_todo ?s) = el_todo s" using called by (simp add: el_todo_def)
  ultimately show ?thesis by (intro exI [of _ ?s]) simp
qed

lemma el_worker_step_ok:
  assumes "el_ok E" and "el_inv E (Suc k) s" and "el_todo s \<noteq> 0"
  shows "\<exists>s'. env_step E s s' \<and> es_posted s' = es_posted s \<and> es_pending s' = es_pending s \<and> es_filled s' = es_filled s \<and>
    Suc (el_todo s') = el_todo s"
proof (cases "es_worker s")
  case Waiting
  then have "el_queued s \<noteq> []" using assms(3) by (auto simp: el_todo_def)
  with el_take_ok [OF assms(2) Waiting] show ?thesis .
next
  case (Has y)
  with el_call_ok [OF assms(2)] assms(1) show ?thesis by (simp add: el_ok_def)
next
  case (Called y)
  with el_release_ok [OF assms(2)] show ?thesis .
qed

lemma el_drains:
  assumes "el_ok E" and "el_inv E (el_todo s) s"
  shows "\<exists>s'. (env_step E ^^ el_todo s) s s' \<and> es_posted s' = es_posted s \<and> es_ran s' = es_posted s \<and> es_worker s' = Waiting"
  using assms
proof (induction "el_todo s" arbitrary: s)
  case 0
  then have "es_ran s = es_posted s" using el_todo_0 [of s] by (simp add: el_inv_def el_posts_def)
  then show ?case using 0 el_todo_0 [of s] by (intro exI [of _ s]) simp
next
  case (Suc j)
  have inv: "el_inv E (Suc j) s" using Suc.prems(2) Suc.hyps(2) by simp
  obtain s1 where s1: "env_step E s s1" "es_posted s1 = es_posted s" "el_todo s1 = j"
    using el_worker_step_ok [OF Suc.prems(1) inv] Suc.hyps(2) by auto
  have "el_inv E j s1" using els.step_inv [OF s1(1)] Suc.prems(1) inv by blast
  then obtain s' where "(env_step E ^^ j) s1 s'" "es_posted s' = es_posted s1" "es_ran s' = es_posted s1" "es_worker s' = Waiting"
    using Suc.hyps(1) [of s1] Suc.prems(1) s1(3) by auto
  with relpowp_Suc_I2 [of "env_step E" s s1 j s'] s1(1,2) show ?case unfolding Suc.hyps(2) [symmetric] by auto
qed

lemma el_post_outcome:
  assumes inv: "el_inv E (Suc 0) s" and fit: "event_fits ev (es_w s)" and cat: "unat cat < length (en_ls E)"
  shows "if length (el_events s) < card (en_EB E) \<and> el_used s < card (en_DB E)
    then \<exists>w' x. state_event_loop_post (en_F E) True cat (Some ev) zero_timespec [times_out] (es_w s) = Some (Inr (True, w')) \<and>
      sl_events w' x = ev\<lparr>ev_loop := sl_self (es_w s), event_id := cat\<rparr> \<and>
      (env_step E ^^ 3) s (s\<lparr>es_w := w', es_posted := es_posted s @ [(x, sl_events w' x)]\<rparr>)
    else state_event_loop_post (en_F E) True cat (Some ev) zero_timespec [times_out] (es_w s) = Some (Inl Assert_Failed)"
proof -
  obtain q where q: "p_exec_queue (sl_loop (es_w s)) = Some q" using inv by (auto simp: el_inv_def el_posts_def)
  have "dq_inv (en_DB E) (en_self E) (Suc 0) (el_dq (en_F E) s)" using inv by (simp add: el_inv_def)
  then have nd: "\<not> destroying q" by (rule el_dqD [OF _ q])
  obtain a fs where m: "env_rep E a fs (es_w s)" "distinct (fs @ el_events s)" "set (fs @ el_events s) = en_EB E"
    using inv by (auto simp: el_inv_def el_machines_def)
  have c: "card (en_EB E) = length fs + length (el_events s)" using distinct_card [OF m(2)] m(3) by simp
  show ?thesis
  proof (cases fs)
    case Nil
    then have "post_fill cat ev (es_w s) = Some (Inl Assert_Failed)" using m(1) by (simp add: post_fill_none)
    then show ?thesis using c Nil by (simp add: state_event_loop_post_fill)
  next
    case (Cons x fs')
    obtain w2 where w2: "post_fill cat ev (es_w s) = Some (Inr (x, w2))" "p_exec_queue (sl_loop w2) = Some q"
      "sl_dmem w2 = sl_dmem (es_w s)" "sl_events w2 x = ev\<lparr>ev_loop := sl_self (es_w s), event_id := cat\<rparr>"
      using post_fill_ok [OF m(1) [unfolded Cons] fit] q by auto
    note p = state_event_loop_post_fill [of "en_F E" cat ev "es_w s", unfolded w2(1-3) bind_wait_simps prod.case]
    show ?thesis
    proof (cases "el_used s < card (en_DB E)")
      case True
      then obtain w' where w': "state_event_loop_post (en_F E) True cat (Some ev) zero_timespec [times_out] (es_w s) = Some (Inr (True, w'))"
        using dispatch_async_blocks [OF inv q, of "en_F E" x NULL] p by auto
      from state_event_loop_post_steps [OF w' q nd cat] w' w2(1,4) True c Cons show ?thesis by auto
    next
      case False
      then show ?thesis using dispatch_async_blocks [OF inv q, of "en_F E" x NULL] p by simp
    qed
  qed
qed

section \<open>Properties\<close>


lemma el_inv_le: "el_inv E (k + j) s \<Longrightarrow> el_inv E k s"
proof (induction j)
  case (Suc j)
  then have "el_inv E (k + j) s"
    using dq_inv_mono sel_event_budget_mono by (fastforce simp: el_inv_def)
  then show ?case by (rule Suc.IH)
qed simp


text \<open>
  C38: (error) What decides about a post in a state of such a run. It returns true, and is then the three
  steps of a poster, if a block of the event pool and a block of the dispatch queue are free; otherwise an
  assertion fails. The two pools have the same size, but the worker returns the block of the event before
  that of the dispatch queue: a post between the two fails although a block for its event is free.
\<close>

theorem state_event_loop_post_outcome:
  assumes ok: "el_ok E" and ready: "el_ready E (n + 1) w" and run: "(env_step E ^^ n) (el_start w) s"
    and fit: "event_fits ev (es_w s)" and cat: "unat cat < length (en_ls E)"
  shows "if length (el_events s) < card (en_EB E) \<and> el_used s < card (en_DB E)
    then \<exists>w' x. state_event_loop_post (en_F E) True cat (Some ev) zero_timespec [times_out] (es_w s) = Some (Inr (True, w')) \<and>
      sl_events w' x = ev\<lparr>ev_loop := sl_self (es_w s), event_id := cat\<rparr> \<and>
      (env_step E ^^ 3) s (s\<lparr>es_w := w', es_posted := es_posted s @ [(x, sl_events w' x)]\<rparr>)
    else state_event_loop_post (en_F E) True cat (Some ev) zero_timespec [times_out] (es_w s) = Some (Inl Assert_Failed)"
  using el_post_outcome [OF _ fit cat] el_runs [OF ok ready run] by simp

section \<open>An example\<close>

text \<open>No step changes the size of the events, so what fits at the start fits always.\<close>

definition event_room :: "'c sel \<Rightarrow> nat option" where
  "event_room w = map_option element_size (p_pool_of_events (sl_loop w))"

lemma pool_alloc_size:
  "pool_alloc p now ws m = Some (Inr (x, p', m')) \<Longrightarrow> map_option element_size p' = map_option element_size p"
  by (auto simp: pool_alloc_def pool_alloc_blocking_def Let_def bind_res_eq_Inr split: option.split_asm)

lemma pool_free_size:
  "pool_free p x m = Inr (p', m', cs) \<Longrightarrow> map_option element_size p' = map_option element_size p"
  by (auto simp: pool_free_def Let_def bind_res_eq_Inr split: option.split_asm if_split_asm sum.split_asm)

lemma post_fill_room:
  assumes "post_fill cat ev w = Some (Inr (x, w'))"
  shows "event_room w' = event_room w"
proof -
  have "event_room w1 = event_room w"
    if "state_event_loop_allocate_event True zero_timespec [times_out] w = Some (Inr (e, w1))" for e w1
    using that pool_alloc_size
    by (fastforce simp: state_event_loop_allocate_event_def bind_res_eq_Inr event_room_def split: if_split_asm)
  then show ?thesis using assms by (auto simp: post_fill_def bind_wait_eq_Inr event_room_def split: option.split_asm)
qed

lemma exec_queue_room:
  assumes "state_event_loop_exec_queue_f cb pre x w = Some (Inr (calls, w'))"
  shows "event_room w' = event_room w"
  using assms pool_free_size
  by (fastforce simp: state_event_loop_exec_queue_f_def Let_def bind_wait_eq_Inr bind_res_eq_Inr event_room_def
      state_event_loop_release_event_def split: if_split_asm sum.split_asm)

lemma el_step_room: "env_step E s s' \<Longrightarrow> event_room (es_w s') = event_room (es_w s)"
  by (induction rule: el_step.induct) (auto simp: post_fill_room exec_queue_room, auto simp: event_room_def)

lemma el_steps_room: "(env_step E ^^ n) s s' \<Longrightarrow> event_room (es_w s') = event_room (es_w s)"
  by (induction n arbitrary: s') (auto simp: el_step_room)

lemma event_fits_room: "event_fits ev w \<longleftrightarrow> (\<exists>n. event_room w = Some n \<and> length (ev_data ev) = n - SIZEOF_EVENT)"
  by (auto simp: event_fits_def event_room_def)

text \<open>
  The loop of \<open>sel_example\<close> with its machine running, and a client whose handler asks for the state that the
  category of the event names.
\<close>

definition el_example_env :: "addr \<Rightarrow> addr list el_env" where
  "el_example_env f = \<lparr>en_F = 99,
     en_client = (\<lambda>ev. (fst example_client, fst (snd example_client),
                    \<lambda>f p q e c. (if event_id ev = 0 then 0 else 1, c @ [f]))),
     en_pre = (\<lambda>ev f e d c. c), en_states = example_states, en_NB = {1032, 1080}, en_EB = {1032, 1080},
     en_DB = {1032, 1080}, en_self = 500, en_ls = [[], []], en_nfs = [1032, 1080], en_pre_f = 0, en_pre_data = 0,
     en_listener = f, en_init = ([(1, [10, 11], 10)], {}, [])\<rparr>"

lemma el_example_ok: "el_ok (el_example_env f)"
proof -
  have "\<exists>q seen' c'. auto_step (en_client (el_example_env f) ev) 1 example_states [10, 11] x (cur, seen, c) = Some (q, seen', c')"
    for ev x cur seen c
    by (auto simp: auto_step_def auto_enter_def el_example_env_def example_client_def example_states_def Let_def split: bool.split)
  then have "autos_run (en_client (el_example_env f)) pp g d example_states es ([(1, [10, 11], cur)], seen, c) \<noteq> None"
    for pp g d es cur seen c
  proof (induction es arbitrary: cur seen c)
    case (Cons e es)
    obtain x ev where e: "e = (x, ev)" by (cases e)
    obtain q seen' c' where "auto_step (en_client (el_example_env f) ev) 1 example_states [10, 11] x
        (cur, seen, if g \<noteq> NULL then pp ev g x d c else c) = Some (q, seen', c')"
      using Cons.prems by blast
    then show ?case using Cons.IH [OF Cons.prems, of q seen' c'] e by simp
  qed simp
  then show ?thesis by (simp add: el_ok_def el_example_env_def)
qed

abbreviation el_example_event :: event where
  "el_example_event \<equiv> \<lparr>event_id = 7, ev_loop = 7, to_string = 0, ev_data = replicate 8 5\<rparr>"

lemma el_example_env_simps [simp]:
  "en_F (el_example_env f) = 99" "en_ls (el_example_env f) = [[], []]" "en_EB (el_example_env f) = {1032, 1080}"
  "en_DB (el_example_env f) = {1032, 1080}" "en_listener (el_example_env f) = f"
  by (simp_all add: el_example_env_def)

lemma el_example_start:
  obtains w0 f where "state_event_loop_init sel_example_params 500 sel_example_rcs sel_example = Inr (True, [], w0)"
    "\<And>k. k < 2 ^ 63 \<Longrightarrow> el_ready (el_example_env f) k (w0\<lparr>sl_sm := example_running\<rparr>)"
    "event_fits el_example_event (w0\<lparr>sl_sm := example_running\<rparr>)"
proof -
  obtain w0 dq where i: "state_event_loop_init sel_example_params 500 sel_example_rcs sel_example = Inr (True, [], w0)"
    "sel_wired {1032, 1080} {1032, 1080} [[], []] [1032, 1080] [1032, 1080] w0"
    "\<And>k. k < 2 ^ 63 \<Longrightarrow> sel_event_budget k w0" "el_p_sm (sl_loop w0) = [1]" "num_machines (sl_loop w0) = 1"
    "event_pre_proc_f (sl_loop w0) = 0" "el_client_data (sl_loop w0) = 0"
    "\<exists>p. p_pool_of_events (sl_loop w0) = Some p \<and> element_size p = 32"
    "p_exec_queue (sl_loop w0) = Some dq" "\<And>k. k < 2 ^ 63 \<Longrightarrow> dq_inv {1032, 1080} 500 k (dq_start dq (sl_dmem w0))"
    by (rule sel_example_created) blast
  let ?w = "w0\<lparr>sl_sm := example_running\<rparr>"
  note r = sel_example_init [OF i(1,2,4,5)]
  have "el_ready (el_example_env (listener_f w0)) k ?w" if "k < 2 ^ 63" for k
    using r i(3) [OF that] i(10) [OF that] i(6,7,9) unfolding el_ready_def
    by (intro conjI exI [of _ "[1032, 1080]"] exI [of _ dq])
      (simp_all add: el_example_env_def listener_f_def sel_event_budget_def)
  moreover have "event_fits el_example_event ?w" using i(8) by (auto simp: event_fits_def SIZEOF_EVENT_def)
  ultimately show ?thesis using i(1) by (intro that)
qed

text \<open>One more post in a run of the example.\<close>

lemma el_example_post:
  assumes run: "(env_step (el_example_env f) ^^ n) (el_start w) s" and rd: "el_ready (el_example_env f) (n + 1) w"
    and fit: "event_fits el_example_event w" and room: "length (el_events s) < 2" "el_used s < 2" and c: "unat c < 2"
  obtains s' x where "(env_step (el_example_env f) ^^ (n + 3)) (el_start w) s'" "es_pending s' = es_pending s"
    "es_filled s' = es_filled s" "es_worker s' = es_worker s" "es_ran s' = es_ran s"
    "es_posted s' = es_posted s @ [(x, el_example_event\<lparr>ev_loop := sl_self (es_w s), event_id := c\<rparr>)]"
proof -
  have "el_inv (el_example_env f) (Suc 0) s" using el_runs [OF el_example_ok rd run] by simp
  moreover have "event_fits el_example_event (es_w s)"
    using fit el_steps_room [OF run] by (simp add: event_fits_room el_start_def)
  ultimately obtain w' x where "sl_events w' x = el_example_event\<lparr>ev_loop := sl_self (es_w s), event_id := c\<rparr>"
    "(env_step (el_example_env f) ^^ 3) s (s\<lparr>es_w := w', es_posted := es_posted s @ [(x, sl_events w' x)]\<rparr>)"
    using el_post_outcome [of "el_example_env f" s el_example_event c] room c by auto
  then show ?thesis
    using run relpowp_trans [of n "env_step (el_example_env f)" "el_start w" s 3]
    by (intro that [of "s\<lparr>es_w := w', es_posted := es_posted s @ [(x, sl_events w' x)]\<rparr>" x]) auto
qed

lemma el_counts:
  assumes "el_inv E k s" and "es_filled s = []" and "es_pending s = []"
  shows "length (el_events s) = length (es_posted s) - length (es_ran s)"
    and "el_used s = length (es_posted s) - length (es_ran s) + (case es_worker s of Called _ \<Rightarrow> 1 | _ \<Rightarrow> 0)"
    and "es_worker s = Waiting \<Longrightarrow> el_todo s = 3 * (length (es_posted s) - length (es_ran s))"
  using assms el_inv_length [OF assms(1)] by (simp_all add: el_events_def el_used_def el_todo_def)

text \<open>One event in the queue of the example, and a second one.\<close>

lemma el_example_one:
  assumes rd: "\<And>k. k < 2 ^ 63 \<Longrightarrow> el_ready (el_example_env f) k w" and fit: "event_fits el_example_event w"
  obtains s x ev where "(env_step (el_example_env f) ^^ 3) (el_start w) s" "es_pending s = []" "es_filled s = []"
    "es_worker s = Waiting" "es_ran s = []" "es_posted s = [(x, ev)]" "event_id ev = 1"
proof -
  have s0: "(env_step (el_example_env f) ^^ 0) (el_start w) (el_start w)" by simp
  have r0: "el_ready (el_example_env f) (0 + 1) w" by (rule rd) simp
  have "el_inv (el_example_env f) 1 (el_start w)" using el_start_inv r0 by simp
  from el_counts [OF this] have c: "length (el_events (el_start w)) < 2" "el_used (el_start w) < 2" by (simp_all add: el_start_def)
  have "unat (1 :: u32) < 2" by simp
  then show ?thesis by (rule el_example_post [OF s0 r0 fit c]) (rule that, (simp add: el_start_def)+)
qed

lemma el_example_two:
  assumes rd: "\<And>k. k < 2 ^ 63 \<Longrightarrow> el_ready (el_example_env f) k w" and fit: "event_fits el_example_event w"
  obtains s where "(env_step (el_example_env f) ^^ 6) (el_start w) s" "es_pending s = []" "es_filled s = []"
    "es_worker s = Waiting" "es_ran s = []" "length (es_posted s) = 2"
proof -
  obtain s x ev where s: "(env_step (el_example_env f) ^^ 3) (el_start w) s" "es_pending s = []" "es_filled s = []"
    "es_worker s = Waiting" "es_ran s = []" "es_posted s = [(x, ev)]"
    by (rule el_example_one [OF rd fit])
  have r: "el_ready (el_example_env f) (3 + 1) w" by (rule rd) simp
  from el_counts [OF el_runs [OF el_example_ok r s(1)] s(3,2)] s(4-6)
  have c: "length (el_events s) < 2" "el_used s < 2" by simp_all
  have "unat (1 :: u32) < 2" by simp
  then show ?thesis by (rule el_example_post [OF s(1) r fit c]) (rule that, (simp add: s(2-6))+)
qed



theorem state_event_loop_post_outcome_witness:
  "\<exists>w0 f s x w2. state_event_loop_init sel_example_params 500 sel_example_rcs sel_example = Inr (True, [], w0) \<and>
    (env_step (el_example_env f) ^^ 8) (el_start (w0\<lparr>sl_sm := example_running\<rparr>)) s \<and>
    post_fill 1 el_example_event (es_w s) = Some (Inr (x, w2)) \<and>
    state_event_loop_post 99 True 1 (Some el_example_event) zero_timespec [times_out] (es_w s) = Some (Inl Assert_Failed)"
proof -
  obtain w0 f where w: "state_event_loop_init sel_example_params 500 sel_example_rcs sel_example = Inr (True, [], w0)"
    "\<And>k. k < 2 ^ 63 \<Longrightarrow> el_ready (el_example_env f) k (w0\<lparr>sl_sm := example_running\<rparr>)"
    "event_fits el_example_event (w0\<lparr>sl_sm := example_running\<rparr>)" by (rule el_example_start) blast
  let ?E = "el_example_env f" and ?w = "w0\<lparr>sl_sm := example_running\<rparr>"
  obtain s where s: "(env_step ?E ^^ 6) (el_start ?w) s" "es_pending s = []" "es_filled s = []" "es_worker s = Waiting"
    "es_ran s = []" "length (es_posted s) = 2"
    by (rule el_example_two [OF w(2,3)])
  have r: "el_ready ?E (6 + 2) ?w" "el_ready ?E (7 + 1) ?w" "el_ready ?E (8 + 1) ?w" by (rule w(2), simp)+
  have i: "el_inv ?E (Suc 1) s" using el_runs [OF el_example_ok r(1) s(1)] by (simp add: numeral_2_eq_2)
  have t: "el_todo s = 6" using el_counts(3) [OF i s(3,2,4)] s(5,6) by simp
  obtain s1 where s1: "env_step ?E s s1" "es_posted s1 = es_posted s" "es_pending s1 = []" "es_filled s1 = []" "el_todo s1 = 5"
    using el_worker_step_ok [OF el_example_ok i] t s(2,3) by auto
  have run1: "(env_step ?E ^^ 7) (el_start ?w) s1" using relpowp_Suc_I [OF s(1) s1(1)] by (simp add: eval_nat_numeral)
  have i1: "el_inv ?E (Suc 0) s1" using el_runs [OF el_example_ok r(2) run1] by simp
  obtain s2 where s2: "env_step ?E s1 s2" "es_posted s2 = es_posted s" "es_pending s2 = []" "es_filled s2 = []" "el_todo s2 = 4"
    using el_worker_step_ok [OF el_example_ok i1] s1(2-5) by auto
  have run2: "(env_step ?E ^^ 8) (el_start ?w) s2" using relpowp_Suc_I [OF run1 s2(1)] by (simp add: eval_nat_numeral)
  have i2: "el_inv ?E 1 s2" by (rule el_runs [OF el_example_ok r(3) run2])
  have "length (el_queued s2) = 1 \<and> (\<exists>y. es_worker s2 = Called y)"
    using s2(5) unfolding el_todo_def by (cases "es_worker s2") (simp_all, presburger+)
  then have c: "length (el_queued s2) = 1" "\<exists>y. es_worker s2 = Called y" by blast+
  have n: "length (el_events s2) = 1" "el_used s2 = 2" using c s2(3,4) by (auto simp: el_events_def el_used_def)
  have fit: "event_fits el_example_event (es_w s2)"
    using w(3) el_steps_room [OF run2] by (simp add: event_fits_room el_start_def)
  have "unat (1 :: u32) < length (en_ls ?E)" by simp
  from state_event_loop_post_outcome [OF el_example_ok r(3) run2 fit this] n
  have "state_event_loop_post 99 True 1 (Some el_example_event) zero_timespec [times_out] (es_w s2) = Some (Inl Assert_Failed)"
    by simp
  moreover obtain a fs where m: "env_rep ?E a fs (es_w s2)" "distinct (fs @ el_events s2)" "set (fs @ el_events s2) = {1032, 1080}"
    using i2 by (auto simp: el_inv_def el_machines_def)
  have "length (fs @ el_events s2) = 2" using distinct_card [OF m(2)] m(3) by simp
  then obtain x where "fs = [x]" using n(1) by (cases fs) auto
  then obtain w2 where "post_fill 1 el_example_event (es_w s2) = Some (Inr (x, w2))" using post_fill_ok m(1) fit by metis
  ultimately show ?thesis using w(1) run2 by blast
qed

end
