(* ===== verification/Asyncio_Protocol.thy ===== *)
theory Asyncio_Protocol
  imports Prelude
begin

text \<open>
  The start/stop protocol of \<open>src/asyncio.c\<close> as an abstract system of three threads: one client, which
  starts, stops and sends, and the workers of the receiving and the transmitting side. A step is one
  access to the shared variables, so that the loads of the completion checks, the store of the result
  and the signal are separate steps of a worker. \<open>Asyncio\<close> shows that the code takes these steps.
\<close>

section \<open>States and steps\<close>

datatype asyncio_init_state =
  AsyncioUninitialized | AsyncioUninitializing | AsyncioInitializing | AsyncioInitialized

datatype side = Rx | Tx

text \<open>What is posted to a worker: \<open>starter_f\<close>, \<open>finisher_f\<close>, and \<open>rx_f\<close> or \<open>tx_f\<close>.\<close>

datatype act = Start | Finish | Work

text \<open>
  Where a worker is: between two actions, before the store of \<open>starter_f\<close>, before the first post of \<open>rx_f\<close>,
  in \<open>trigger_start_completion\<close> (before each load, the store and the signal), before the exchange of
  \<open>finisher_f\<close>, in \<open>trigger_stop_completion\<close>, and in \<open>rx_f\<close> or \<open>tx_f\<close>, before and after its load.
\<close>

datatype stage = Resting | Starter | Chain | S_Check | S_Mid | S_Commit | S_Send
  | Finisher | F_Check | F_Mid | F_Commit | F_Send | Look | Reading

datatype client = Off | Clear_Start | Start_Rx | Start_Tx | Wait_Start
  | On | Clear_Stop | Stop_Rx | Stop_Tx | Wait_Stop

record protocol =
  p_init :: asyncio_init_state
  p_state :: "side \<Rightarrow> asyncio_init_state"
  p_started :: bool
  p_stopped :: bool
  p_shut :: bool
  p_queue :: "side \<Rightarrow> act list"
  p_stage :: "side \<Rightarrow> stage"
  p_client :: client

abbreviation at_stage :: "protocol \<Rightarrow> side \<Rightarrow> stage \<Rightarrow> protocol" where
  "at_stage s t g \<equiv> s\<lparr>p_stage := (p_stage s)(t := g)\<rparr>"

abbreviation set_state :: "protocol \<Rightarrow> side \<Rightarrow> asyncio_init_state \<Rightarrow> protocol" where
  "set_state s t v \<equiv> s\<lparr>p_state := (p_state s)(t := v)\<rparr>"

abbreviation posted :: "protocol \<Rightarrow> side \<Rightarrow> act \<Rightarrow> protocol" where
  "posted s t a \<equiv> s\<lparr>p_queue := (p_queue s)(t := p_queue s t @ [a])\<rparr>"

definition start_side :: "(side \<Rightarrow> bool) \<Rightarrow> side \<Rightarrow> protocol \<Rightarrow> protocol" where
  "start_side cfg t s = (if cfg t then posted (set_state s t AsyncioInitializing) t Start else s)"

definition stop_side :: "side \<Rightarrow> protocol \<Rightarrow> protocol" where
  "stop_side t s =
     (if p_state s t = AsyncioInitialized then posted (set_state s t AsyncioUninitializing) t Finish else s)"

fun entry :: "act \<Rightarrow> stage" where
  "entry Start = Starter"
| "entry Finish = Finisher"
| "entry Work = Look"

text \<open>
  \<open>cfg\<close> tells which sides have a worker. The client stores a state and posts in one step: a post only adds
  to the end of a queue. \<open>stream_stopped\<close> is written and read by the client alone, together with its
  neighbouring access.
\<close>

inductive client_step :: "(side \<Rightarrow> bool) \<Rightarrow> protocol \<Rightarrow> protocol \<Rightarrow> bool" for cfg where
  Begin: "p_client s = Off \<Longrightarrow> p_init s = AsyncioUninitialized \<Longrightarrow>
    client_step cfg s (s\<lparr>p_init := AsyncioInitializing, p_client := Clear_Start\<rparr>)"
| Clear1: "p_client s = Clear_Start \<Longrightarrow> client_step cfg s (s\<lparr>p_started := False, p_client := Start_Rx\<rparr>)"
| StartRx: "p_client s = Start_Rx \<Longrightarrow> client_step cfg s ((start_side cfg Rx s)\<lparr>p_client := Start_Tx\<rparr>)"
| StartTx: "p_client s = Start_Tx \<Longrightarrow>
    client_step cfg s ((start_side cfg Tx s)\<lparr>p_shut := False, p_client := Wait_Start\<rparr>)"
| Started: "p_client s = Wait_Start \<Longrightarrow> p_started s \<Longrightarrow> client_step cfg s (s\<lparr>p_client := On\<rparr>)"
| Send: "p_client s = On \<Longrightarrow> \<not> p_shut s \<Longrightarrow> p_state s Tx = AsyncioInitialized \<Longrightarrow> client_step cfg s (posted s Tx Work)"
| Halt: "p_client s = On \<Longrightarrow> p_init s = AsyncioInitialized \<Longrightarrow>
    client_step cfg s (s\<lparr>p_init := AsyncioUninitializing, p_client := Clear_Stop\<rparr>)"
| Clear2: "p_client s = Clear_Stop \<Longrightarrow> \<not> p_shut s \<Longrightarrow>
    client_step cfg s (s\<lparr>p_stopped := False, p_shut := True, p_client := Stop_Rx\<rparr>)"
| StopRx: "p_client s = Stop_Rx \<Longrightarrow> client_step cfg s ((stop_side Rx s)\<lparr>p_client := Stop_Tx\<rparr>)"
| StopTx: "p_client s = Stop_Tx \<Longrightarrow> client_step cfg s ((stop_side Tx s)\<lparr>p_client := Wait_Stop\<rparr>)"
| Stopped: "p_client s = Wait_Stop \<Longrightarrow> p_stopped s \<Longrightarrow> client_step cfg s (s\<lparr>p_client := Off\<rparr>)"

inductive worker_step :: "(side \<Rightarrow> bool) \<Rightarrow> side \<Rightarrow> protocol \<Rightarrow> protocol \<Rightarrow> bool" for cfg t where
  Take: "cfg t \<Longrightarrow> p_stage s t = Resting \<Longrightarrow> p_queue s t = a # as \<Longrightarrow>
    worker_step cfg t s (at_stage (s\<lparr>p_queue := (p_queue s)(t := as)\<rparr>) t (entry a))"
| Store: "p_stage s t = Starter \<Longrightarrow>
    worker_step cfg t s (at_stage (set_state s t AsyncioInitialized) t (if t = Rx then Chain else S_Check))"
| Post1: "t = Rx \<Longrightarrow> p_stage s t = Chain \<Longrightarrow> worker_step cfg t s (at_stage (posted s t Work) t S_Check)"
| SLoad1: "p_stage s t = S_Check \<Longrightarrow>
    worker_step cfg t s (at_stage s t (if cfg Rx \<and> p_state s Rx \<noteq> AsyncioInitialized then Resting else S_Mid))"
| SLoad2: "p_stage s t = S_Mid \<Longrightarrow>
    worker_step cfg t s (at_stage s t (if cfg Tx \<and> p_state s Tx \<noteq> AsyncioInitialized then Resting else S_Commit))"
| SStore: "p_stage s t = S_Commit \<Longrightarrow> worker_step cfg t s (at_stage (s\<lparr>p_init := AsyncioInitialized\<rparr>) t S_Send)"
| SSignal: "p_stage s t = S_Send \<Longrightarrow> worker_step cfg t s (at_stage (s\<lparr>p_started := True\<rparr>) t Resting)"
| Exchange: "p_stage s t = Finisher \<Longrightarrow>
    worker_step cfg t s (at_stage (if p_state s t = AsyncioUninitializing then set_state s t AsyncioUninitialized else s) t
      F_Check)"
| FLoad1: "p_stage s t = F_Check \<Longrightarrow>
    worker_step cfg t s (at_stage s t (if p_state s Rx = AsyncioUninitialized then F_Mid else Resting))"
| FLoad2: "p_stage s t = F_Mid \<Longrightarrow>
    worker_step cfg t s (at_stage s t (if p_state s Tx = AsyncioUninitialized then F_Commit else Resting))"
| FStore: "p_stage s t = F_Commit \<Longrightarrow> worker_step cfg t s (at_stage (s\<lparr>p_init := AsyncioUninitialized\<rparr>) t F_Send)"
| FSignal: "p_stage s t = F_Send \<Longrightarrow> worker_step cfg t s (at_stage (s\<lparr>p_stopped := True\<rparr>) t Resting)"
| LookRx: "t = Rx \<Longrightarrow> p_stage s t = Look \<Longrightarrow>
    worker_step cfg t s (at_stage s t (if p_state s t = AsyncioInitialized then Reading else Resting))"
| LookTx: "t = Tx \<Longrightarrow> p_stage s t = Look \<Longrightarrow> worker_step cfg t s (at_stage s t Resting)"
| Read: "t = Rx \<Longrightarrow> p_stage s t = Reading \<Longrightarrow> worker_step cfg t s (at_stage (posted s t Work) t Resting)"

definition pstep :: "(side \<Rightarrow> bool) \<Rightarrow> protocol \<Rightarrow> protocol \<Rightarrow> bool" where
  "pstep cfg s s' \<longleftrightarrow> client_step cfg s s' \<or> (\<exists>t. worker_step cfg t s s')"

section \<open>Invariant\<close>

definition starting_up :: "protocol \<Rightarrow> bool" where
  "starting_up s \<longleftrightarrow> p_client s \<in> {Start_Rx, Start_Tx, Wait_Start}"

definition shutting_down :: "protocol \<Rightarrow> bool" where
  "shutting_down s \<longleftrightarrow> p_client s \<in> {Stop_Rx, Stop_Tx, Wait_Stop}"

definition all_up :: "(side \<Rightarrow> bool) \<Rightarrow> protocol \<Rightarrow> bool" where
  "all_up cfg s \<longleftrightarrow> (\<forall>t. cfg t \<longrightarrow> p_state s t = AsyncioInitialized)"

definition all_down :: "protocol \<Rightarrow> bool" where
  "all_down s \<longleftrightarrow> (\<forall>t. p_state s t = AsyncioUninitialized)"

text \<open>The queue of a side holds no request to start or stop, one to start at its end, one to stop.\<close>

definition works :: "act list \<Rightarrow> bool" where
  "works q \<longleftrightarrow> set q \<subseteq> {Work}"

definition start_last :: "act list \<Rightarrow> bool" where
  "start_last q \<longleftrightarrow> (\<exists>ws. q = ws @ [Start] \<and> works ws)"

definition one_finish :: "act list \<Rightarrow> bool" where
  "one_finish q \<longleftrightarrow> (\<exists>ws vs. q = ws @ Finish # vs \<and> works ws \<and> works vs)"

definition low_stage :: "stage \<Rightarrow> bool" where
  "low_stage g \<longleftrightarrow> g \<in> {Resting, Look, F_Check, F_Mid, F_Commit, F_Send}"

definition high_stage :: "stage \<Rightarrow> bool" where
  "high_stage g \<longleftrightarrow> g \<in> {Resting, Look, Reading, Chain, S_Check, S_Mid, S_Commit, S_Send}"

text \<open>What the state of a side says about its worker and its queue.\<close>

fun side_ok :: "asyncio_init_state \<Rightarrow> stage \<Rightarrow> act list \<Rightarrow> bool" where
  "side_ok AsyncioUninitialized g q \<longleftrightarrow> low_stage g \<and> works q"
| "side_ok AsyncioInitializing g q \<longleftrightarrow> g = Starter \<and> q = [] \<or> low_stage g \<and> start_last q"
| "side_ok AsyncioInitialized g q \<longleftrightarrow> high_stage g \<and> works q"
| "side_ok AsyncioUninitializing g q \<longleftrightarrow> g = Finisher \<and> works q \<or> high_stage g \<and> one_finish q"

text \<open>Which states the sides can have, by where the client is.\<close>

definition up_range :: "(side \<Rightarrow> bool) \<Rightarrow> side \<Rightarrow> asyncio_init_state set" where
  "up_range cfg t = (if cfg t then {AsyncioInitializing, AsyncioInitialized} else {AsyncioUninitialized})"

definition on_range :: "(side \<Rightarrow> bool) \<Rightarrow> side \<Rightarrow> asyncio_init_state set" where
  "on_range cfg t = (if cfg t then {AsyncioInitialized} else {AsyncioUninitialized})"

definition down_range :: "(side \<Rightarrow> bool) \<Rightarrow> side \<Rightarrow> asyncio_init_state set" where
  "down_range cfg t = (if cfg t then {AsyncioUninitializing, AsyncioUninitialized} else {AsyncioUninitialized})"

fun ranges :: "(side \<Rightarrow> bool) \<Rightarrow> client \<Rightarrow> side \<Rightarrow> asyncio_init_state set" where
  "ranges cfg Start_Tx Rx = up_range cfg Rx"
| "ranges cfg Wait_Start t = up_range cfg t"
| "ranges cfg On t = on_range cfg t"
| "ranges cfg Clear_Stop t = on_range cfg t"
| "ranges cfg Stop_Rx t = on_range cfg t"
| "ranges cfg Stop_Tx Rx = down_range cfg Rx"
| "ranges cfg Stop_Tx Tx = on_range cfg Tx"
| "ranges cfg Wait_Stop t = down_range cfg t"
| "ranges cfg _ t = {AsyncioUninitialized}"

text \<open>The chain of \<open>rx_f\<close>: queued, being run, or about to be posted for the first time.\<close>

definition chain :: "protocol \<Rightarrow> nat" where
  "chain s = count_list (p_queue s Rx) Work + (if p_stage s Rx \<in> {Look, Reading, Chain} then 1 else 0)"

definition side_inv :: "(side \<Rightarrow> bool) \<Rightarrow> client \<Rightarrow> side \<Rightarrow> asyncio_init_state \<Rightarrow> stage \<Rightarrow> act list \<Rightarrow> bool" where
  "side_inv cfg c t v g q \<longleftrightarrow>
     side_ok v g q \<and> v \<in> ranges cfg c t \<and> (\<not> cfg t \<longrightarrow> q = [] \<and> g = Resting)"

definition sides_inv :: "(side \<Rightarrow> bool) \<Rightarrow> protocol \<Rightarrow> bool" where
  "sides_inv cfg s \<longleftrightarrow>
     (\<forall>t. side_inv cfg (p_client s) t (p_state s t) (p_stage s t) (p_queue s t)) \<and>
     (p_client s \<in> {Wait_Start, On, Clear_Stop} \<longrightarrow> \<not> p_shut s)"

text \<open>
  A request to send is never behind the request to stop: when the transmitting side is down, no \<open>tx_f\<close> is
  queued or running.
\<close>

definition finish_last :: "act list \<Rightarrow> bool" where
  "finish_last q \<longleftrightarrow> (\<exists>ws. q = ws @ [Finish] \<and> works ws)"

fun tx_ok :: "asyncio_init_state \<Rightarrow> stage \<Rightarrow> act list \<Rightarrow> bool" where
  "tx_ok AsyncioUninitialized g q \<longleftrightarrow> g \<noteq> Look \<and> q = []"
| "tx_ok AsyncioInitializing g q \<longleftrightarrow> g \<noteq> Look \<and> (q = [Start] \<or> g = Starter \<and> q = [])"
| "tx_ok AsyncioInitialized g q \<longleftrightarrow> works q"
| "tx_ok AsyncioUninitializing g q \<longleftrightarrow> g = Finisher \<and> q = [] \<or> g \<noteq> Finisher \<and> finish_last q"

definition tx_inv :: "protocol \<Rightarrow> bool" where
  "tx_inv s \<longleftrightarrow> p_stage s Tx \<notin> {Chain, Reading} \<and> tx_ok (p_state s Tx) (p_stage s Tx) (p_queue s Tx)"

definition chain_inv :: "protocol \<Rightarrow> bool" where
  "chain_inv s \<longleftrightarrow>
     chain s \<le> 1 \<and> (p_state s Rx = AsyncioInitialized \<longrightarrow> chain s = 1)"

definition start_inv :: "(side \<Rightarrow> bool) \<Rightarrow> protocol \<Rightarrow> bool" where
  "start_inv cfg s \<longleftrightarrow>
     (starting_up s \<longrightarrow>
        (\<forall>t. (p_stage s t = S_Mid \<longrightarrow> cfg Rx \<longrightarrow> p_state s Rx = AsyncioInitialized) \<and>
             (p_stage s t \<in> {S_Commit, S_Send} \<longrightarrow> all_up cfg s) \<and>
             (p_stage s t = S_Send \<longrightarrow> p_init s = AsyncioInitialized)) \<and>
        (p_started s \<longrightarrow> all_up cfg s \<and> p_init s = AsyncioInitialized) \<and>
        (all_up cfg s \<longrightarrow> p_started s \<or> (\<exists>t. p_stage s t \<in> {Chain, S_Check, S_Mid, S_Commit, S_Send}))) \<and>
     (p_client s = On \<longrightarrow> p_init s = AsyncioInitialized)"

definition stop_inv :: "protocol \<Rightarrow> bool" where
  "stop_inv s \<longleftrightarrow>
     (shutting_down s \<longrightarrow>
        (\<forall>t. (p_stage s t = F_Mid \<longrightarrow> p_state s Rx = AsyncioUninitialized) \<and>
             (p_stage s t \<in> {F_Commit, F_Send} \<longrightarrow> all_down s) \<and>
             (p_stage s t = F_Send \<longrightarrow> p_init s = AsyncioUninitialized)) \<and>
        (p_stopped s \<longrightarrow> all_down s \<and> p_init s = AsyncioUninitialized) \<and>
        (all_down s \<longrightarrow> p_stopped s \<or> (\<exists>t. p_stage s t \<in> {F_Check, F_Mid, F_Commit, F_Send}))) \<and>
     (p_client s = Off \<longrightarrow> p_init s = AsyncioUninitialized)"

section \<open>The steps keep the invariant\<close>

lemma all_side: "(\<forall>t. P t) \<longleftrightarrow> P Rx \<and> P Tx"
  by (metis side.exhaust)

lemma ex_side: "(\<exists>t. P t) \<longleftrightarrow> P Rx \<or> P Tx"
  by (metis side.exhaust)

lemmas range_defs = up_range_def on_range_def down_range_def

lemma works_simps [simp]: "works []" "works (a # q) \<longleftrightarrow> a = Work \<and> works q" "works (q @ r) \<longleftrightarrow> works q \<and> works r"
  by (auto simp: works_def)

lemma start_last_simps [simp]:
  "\<not> start_last []" "start_last (a # q) \<longleftrightarrow> a = Start \<and> q = [] \<or> a = Work \<and> start_last q"
  "works q \<Longrightarrow> start_last (q @ [Start])"
  by (auto simp: start_last_def Cons_eq_append_conv)

lemma one_finish_simps [simp]:
  "\<not> one_finish []" "one_finish (a # q) \<longleftrightarrow> a = Finish \<and> works q \<or> a = Work \<and> one_finish q"
  "works q \<Longrightarrow> one_finish (q @ [Finish])"
proof -
  show "\<not> one_finish []" by (simp add: one_finish_def)
  show "one_finish (a # q) \<longleftrightarrow> a = Finish \<and> works q \<or> a = Work \<and> one_finish q" (is "?l \<longleftrightarrow> ?r")
  proof
    assume ?l
    then show ?r by (auto simp: one_finish_def Cons_eq_append_conv)
  next
    assume ?r
    then consider "a = Finish" "works q" | ws vs where "a = Work" "q = ws @ Finish # vs" "works ws" "works vs"
      by (auto simp: one_finish_def)
    then show ?l
    proof cases
      case 1
      then have "a # q = [] @ Finish # q" by simp
      with 1 show ?thesis unfolding one_finish_def by (metis works_simps(1))
    next
      case 2
      then have "a # q = (Work # ws) @ Finish # vs" by simp
      with 2 show ?thesis unfolding one_finish_def by (metis works_simps(2))
    qed
  qed
  show "works q \<Longrightarrow> one_finish (q @ [Finish])" unfolding one_finish_def by (metis works_simps(1))
qed

lemma one_finish_post [simp]: "one_finish q \<Longrightarrow> one_finish (q @ [Work])"
  unfolding one_finish_def by (metis append.assoc append_Cons works_simps)

lemma stage_simps [simp]:
  "low_stage Resting" "low_stage Look" "low_stage F_Check" "low_stage F_Mid" "low_stage F_Commit" "low_stage F_Send"
  "\<not> low_stage Starter" "\<not> low_stage Chain" "\<not> low_stage S_Check" "\<not> low_stage S_Mid" "\<not> low_stage S_Commit"
  "\<not> low_stage S_Send" "\<not> low_stage Finisher" "\<not> low_stage Reading"
  "high_stage Resting" "high_stage Look" "high_stage Reading" "high_stage Chain" "high_stage S_Check"
  "high_stage S_Mid" "high_stage S_Commit" "high_stage S_Send" "\<not> high_stage Starter" "\<not> high_stage Finisher"
  "\<not> high_stage F_Check" "\<not> high_stage F_Mid" "\<not> high_stage F_Commit" "\<not> high_stage F_Send"
  by (simp_all add: low_stage_def high_stage_def)

text \<open>A worker takes the oldest action.\<close>

lemma side_ok_take: "side_ok v Resting (a # as) \<Longrightarrow> side_ok v (entry a) as"
  by (cases v; cases a) auto

text \<open>The stages tell the states apart.\<close>

lemma side_ok_stage:
  "side_ok v g q \<Longrightarrow> g = Starter \<Longrightarrow> v = AsyncioInitializing \<and> q = []"
  "side_ok v g q \<Longrightarrow> g = Finisher \<Longrightarrow> v = AsyncioUninitializing \<and> works q"
  "side_ok v g q \<Longrightarrow> \<not> low_stage g \<Longrightarrow> high_stage g \<Longrightarrow> v \<in> {AsyncioInitialized, AsyncioUninitializing}"
  "side_ok v g q \<Longrightarrow> low_stage g \<Longrightarrow> \<not> high_stage g \<Longrightarrow> v \<in> {AsyncioUninitialized, AsyncioInitializing}"
  by (cases v; auto)+

lemma side_ok_move:
  "side_ok v g q \<Longrightarrow> low_stage g \<Longrightarrow> \<not> high_stage g \<Longrightarrow> low_stage g' \<Longrightarrow> side_ok v g' q"
  "side_ok v g q \<Longrightarrow> high_stage g \<Longrightarrow> \<not> low_stage g \<Longrightarrow> high_stage g' \<Longrightarrow> side_ok v g' q"
  "side_ok v Look q \<Longrightarrow> side_ok v Resting q" "side_ok AsyncioInitialized Look q \<Longrightarrow> side_ok AsyncioInitialized Reading q"
  by (cases v; auto)+

lemma side_ok_post:
  "side_ok v g q \<Longrightarrow> v \<in> {AsyncioInitialized, AsyncioUninitializing} \<Longrightarrow> side_ok v g (q @ [Work])"
  "side_ok AsyncioUninitialized g q \<Longrightarrow> side_ok AsyncioInitializing g (q @ [Start])"
  "side_ok AsyncioInitialized g q \<Longrightarrow> side_ok AsyncioUninitializing g (q @ [Finish])"
  by (cases v; auto)+

lemma side_ok_repost:
  "side_ok v g q \<Longrightarrow> high_stage g \<Longrightarrow> \<not> low_stage g \<Longrightarrow> high_stage g' \<Longrightarrow> side_ok v g' (q @ [Work])"
  by (cases v) auto

lemma ranges_store:
  "v \<in> ranges cfg c t \<Longrightarrow> v = AsyncioInitializing \<Longrightarrow> AsyncioInitialized \<in> ranges cfg c t"
  "v \<in> ranges cfg c t \<Longrightarrow> v = AsyncioUninitializing \<Longrightarrow> AsyncioUninitialized \<in> ranges cfg c t"
  by (cases c; cases t; auto simp: range_defs split: if_splits)+

lemma sides_invD:
  assumes "sides_inv cfg s"
  shows "side_ok (p_state s t) (p_stage s t) (p_queue s t)" "p_state s t \<in> ranges cfg (p_client s) t"
    "p_stage s t \<noteq> Resting \<Longrightarrow> cfg t"
  using assms by (auto simp: sides_inv_def side_inv_def)

lemma worker_keeps:
  assumes "sides_inv cfg s" and "p_state s' = (p_state s)(t := v)" and "p_stage s' = (p_stage s)(t := g)"
    and "p_queue s' = (p_queue s)(t := q)" and "p_client s' = p_client s" and "p_shut s' = p_shut s"
    and "side_ok v g q" and "v \<in> ranges cfg (p_client s) t" and "cfg t"
  shows "sides_inv cfg s'"
  using assms by (auto simp: sides_inv_def side_inv_def)

lemma moved_keeps:
  assumes "sides_inv cfg s" and "p_state s' = p_state s" and "p_stage s' = (p_stage s)(t := g)"
    and "p_queue s' = p_queue s" and "p_client s' = p_client s" and "p_shut s' = p_shut s"
    and "cfg t" and "side_ok (p_state s t) g (p_queue s t)"
  shows "sides_inv cfg s'"
  by (rule worker_keeps [OF assms(1), of s' t "p_state s t" g "p_queue s t"])
     (use assms sides_invD(2) [OF assms(1), of t] in \<open>simp_all add: fun_upd_idem\<close>)

lemma client_sides:
  assumes "client_step cfg s s'" and "sides_inv cfg s" and "start_inv cfg s" and "stop_inv s"
  shows "sides_inv cfg s'"
  using assms(1)
proof cases
  case Started
  then have "all_up cfg s" using assms(3) by (simp add: start_inv_def starting_up_def)
  with Started assms(2) show ?thesis
    by (auto simp: sides_inv_def side_inv_def all_side range_defs all_up_def)
next
  case Stopped
  then have "all_down s" using assms(4) by (simp add: stop_inv_def shutting_down_def)
  with Stopped assms(2) show ?thesis
    by (auto simp: sides_inv_def side_inv_def all_side range_defs all_down_def)
qed (use assms(2) side_ok_post in
  \<open>auto simp: sides_inv_def side_inv_def all_side range_defs start_side_def stop_side_def split: if_splits\<close>)

lemma worker_sides:
  assumes "worker_step cfg t s s'" and inv: "sides_inv cfg s"
  shows "sides_inv cfg s'"
proof -
  note d = sides_invD [OF inv, of t] and mv = moved_keeps [OF inv, of s' t "p_stage s' t"]
    and low = side_ok_move(1) [OF d(1)] and high = side_ok_move(2) [OF d(1)]
  show ?thesis
    using assms(1)
  proof cases
    case (Take a as)
    have "side_ok (p_state s t) (entry a) as" using d(1) Take side_ok_take by simp
    with Take d show ?thesis by (intro worker_keeps [OF inv, of s' t "p_state s t" "entry a" as]) simp_all
  next
    case Store
    then have o: "p_state s t = AsyncioInitializing" "p_queue s t = []" using side_ok_stage(1) [OF d(1)] by simp_all
    have "AsyncioInitialized \<in> ranges cfg (p_client s) t" using ranges_store(1) [OF d(2) o(1)] .
    with Store o d(3) show ?thesis
      by (intro worker_keeps [OF inv, of s' t AsyncioInitialized "if t = Rx then Chain else S_Check" "[]"])
         (simp_all add: fun_upd_idem)
  next
    case Post1
    then have "side_ok (p_state s t) S_Check (p_queue s t @ [Work])" using side_ok_repost [OF d(1)] by simp
    with Post1 d show ?thesis
      by (intro worker_keeps [OF inv, of s' t "p_state s t" S_Check]) simp_all
  next
    case Exchange
    then have o: "p_state s t = AsyncioUninitializing" "works (p_queue s t)"
      using side_ok_stage(2) [OF d(1)] by simp_all
    have "AsyncioUninitialized \<in> ranges cfg (p_client s) t" using ranges_store(2) [OF d(2) o(1)] .
    with Exchange o d(3) show ?thesis
      by (intro worker_keeps [OF inv, of s' t AsyncioUninitialized F_Check "p_queue s t"]) simp_all
  next
    case Read
    then have "side_ok (p_state s t) Resting (p_queue s t @ [Work])" using side_ok_repost [OF d(1)] by simp
    with Read d show ?thesis
      by (intro worker_keeps [OF inv, of s' t "p_state s t" Resting]) simp_all
  qed (rule mv; use d low high side_ok_move(3) [of "p_state s t"] side_ok_move(4) in \<open>auto\<close>)+
qed

text \<open>The states a worker in a completion check excludes.\<close>

lemma low_high:
  assumes "sides_inv cfg s" and "p_state s t \<in> {AsyncioInitialized, AsyncioUninitializing}"
  shows "p_stage s t \<notin> {F_Check, F_Mid, F_Commit, F_Send}"
  using sides_invD(1) [OF assms(1), of t] assms(2) by (cases "p_stage s t") auto

lemma high_low:
  assumes "sides_inv cfg s" and "p_state s t \<in> {AsyncioUninitialized, AsyncioInitializing}"
  shows "p_stage s t \<notin> {Chain, S_Check, S_Mid, S_Commit, S_Send}"
  using sides_invD(1) [OF assms(1), of t] assms(2) by (cases "p_stage s t") auto

lemma quiet:
  assumes "sides_inv cfg s" and "p_client s \<in> {Off, Clear_Start, Start_Rx}"
  shows "p_state s t = AsyncioUninitialized" "p_stage s t \<notin> {Chain, S_Check, S_Mid, S_Commit, S_Send}"
proof -
  show "p_state s t = AsyncioUninitialized" using sides_invD(2) [OF assms(1), of t] assms(2) by auto
  then show "p_stage s t \<notin> {Chain, S_Check, S_Mid, S_Commit, S_Send}" using high_low [OF assms(1), of t] by simp
qed

lemma client_start:
  assumes "client_step cfg s s'" and "sides_inv cfg s" and "start_inv cfg s" and cfg: "\<exists>t. cfg t"
  shows "start_inv cfg s'"
  using assms(1)
proof cases
  case Clear1
  then have "\<forall>t. p_state s t = AsyncioUninitialized \<and> p_stage s t \<notin> {Chain, S_Check, S_Mid, S_Commit, S_Send}"
    using quiet [OF assms(2)] by simp
  with Clear1 cfg show ?thesis by (auto simp: start_inv_def starting_up_def all_up_def)
next
  case StartRx
  then have q: "\<forall>t. p_state s t = AsyncioUninitialized \<and> p_stage s t \<notin> {Chain, S_Check, S_Mid, S_Commit, S_Send}"
    using quiet [OF assms(2)] by simp
  then have "\<not> all_up cfg s" using cfg by (auto simp: all_up_def)
  moreover have "\<not> all_up cfg s'" using StartRx q cfg by (auto simp: all_up_def start_side_def)
  moreover have "p_stage s' = p_stage s" "p_started s' = p_started s" "p_client s' = Start_Tx"
    using StartRx by (simp_all add: start_side_def)
  ultimately show ?thesis using StartRx(2) q assms(3) by (auto simp: start_inv_def starting_up_def)
next
  case StartTx
  have u: "p_state s Tx = AsyncioUninitialized" using StartTx(2) sides_invD(2) [OF assms(2), of Tx] by simp
  have "p_state s' Rx = p_state s Rx" "p_stage s' = p_stage s" "p_started s' = p_started s" "p_init s' = p_init s"
    "p_client s' = Wait_Start" using StartTx by (simp_all add: start_side_def)
  moreover have "all_up cfg s' \<longleftrightarrow> all_up cfg s"
    using StartTx u by (auto simp: all_up_def start_side_def all_side)
  ultimately show ?thesis using StartTx(2) assms(3) unfolding start_inv_def starting_up_def by auto
qed (use assms(3) in \<open>auto simp: start_inv_def starting_up_def stop_side_def\<close>)

lemma worker_client: "worker_step cfg t s s' \<Longrightarrow> p_client s' = p_client s"
  by (induction rule: worker_step.induct) auto

text \<open>What a step of a worker says about the checks of the completion of a start, and of a stop.\<close>

lemma worker_other: "worker_step cfg t s s' \<Longrightarrow> r \<noteq> t \<Longrightarrow> p_stage s' r = p_stage s r"
  by (induction rule: worker_step.induct) auto

lemma worker_start_stages:
  assumes "worker_step cfg t s s'"
  shows "p_stage s' t = S_Mid \<Longrightarrow> cfg Rx \<Longrightarrow> p_state s' Rx = AsyncioInitialized"
    and "p_stage s' t = S_Commit \<Longrightarrow> p_stage s t = S_Mid \<and> (cfg Tx \<longrightarrow> p_state s Tx = AsyncioInitialized)"
    and "p_stage s' t = S_Send \<Longrightarrow> p_stage s t = S_Commit \<and> p_init s' = AsyncioInitialized"
    and "p_started s' \<Longrightarrow> p_started s \<or> p_stage s t = S_Send"
    and "p_started s \<Longrightarrow> p_started s'"
    and "p_stage s t \<in> {Chain, S_Check, S_Mid, S_Commit, S_Send} \<Longrightarrow> all_up cfg s' \<Longrightarrow>
      p_started s' \<or> p_stage s' t \<in> {Chain, S_Check, S_Mid, S_Commit, S_Send}"
  using assms by (cases; auto simp: all_up_def elim: entry.elims split: if_splits)+

lemma worker_stop_stages:
  assumes "worker_step cfg t s s'"
  shows "p_stage s' t = F_Mid \<Longrightarrow> p_state s' Rx = AsyncioUninitialized"
    and "p_stage s' t = F_Commit \<Longrightarrow> p_stage s t = F_Mid \<and> p_state s Tx = AsyncioUninitialized"
    and "p_stage s' t = F_Send \<Longrightarrow> p_stage s t = F_Commit \<and> p_init s' = AsyncioUninitialized"
    and "p_stopped s' \<Longrightarrow> p_stopped s \<or> p_stage s t = F_Send"
    and "p_stopped s \<Longrightarrow> p_stopped s'"
    and "p_stage s t \<in> {F_Check, F_Mid, F_Commit, F_Send} \<Longrightarrow> all_down s' \<Longrightarrow>
      p_stopped s' \<or> p_stage s' t \<in> {F_Check, F_Mid, F_Commit, F_Send}"
  using assms by (cases; auto simp: all_down_def elim: entry.elims split: if_splits)+

lemma worker_start:
  assumes "worker_step cfg t s s'" and inv: "sides_inv cfg s" and start: "start_inv cfg s"
  shows "start_inv cfg s'"
proof (cases "starting_up s")
  case False
  have "p_init s' = AsyncioInitialized" if "p_client s = On"
    using assms(1) low_high [OF inv, of t] sides_invD(2,3) [OF inv, of t] start that
    by cases (auto simp: range_defs start_inv_def)
  with worker_client [OF assms(1)] show ?thesis using False start by (simp add: start_inv_def starting_up_def)
next
  case True
  have st: "p_state s r \<noteq> AsyncioUninitializing" for r
    using sides_invD(2) [OF inv, of r] True by (cases r) (auto simp: starting_up_def range_defs split: if_splits)
  have low: "p_stage s t \<in> {F_Check, F_Mid, F_Commit, F_Send} \<Longrightarrow> \<not> all_up cfg s"
    using low_high [OF inv, of t] sides_invD(3) [OF inv, of t] by (auto simp: all_up_def)
  have c: "p_client s' = p_client s" "starting_up s'" "p_client s \<noteq> On"
    using worker_client [OF assms(1)] True by (auto simp: starting_up_def)
  have ex: "p_stage s t \<noteq> Finisher"
    using st [of t] side_ok_stage(2) [OF sides_invD(1) [OF inv, of t]] by blast
  note iv = start [unfolded start_inv_def, THEN conjunct1, rule_format, OF True]
  note st1 = worker_start_stages [OF assms(1)] and other = worker_other [OF assms(1)]
  have mono: "p_state s r = AsyncioInitialized \<Longrightarrow> p_state s' r = AsyncioInitialized" for r
    using assms(1) ex by cases auto
  then have up: "all_up cfg s \<Longrightarrow> all_up cfg s'" by (simp add: all_up_def)
  have init: "all_up cfg s \<Longrightarrow> p_init s = AsyncioInitialized \<Longrightarrow> p_init s' = AsyncioInitialized"
    using assms(1) low by cases auto
  have com: "all_up cfg s'" if g: "p_stage s' t \<in> {S_Commit, S_Send}"
  proof (cases "p_stage s' t = S_Commit")
    case True
    then have "p_stage s t = S_Mid" "cfg Tx \<longrightarrow> p_state s Tx = AsyncioInitialized" using st1(2) by simp_all
    then have "all_up cfg s" using iv unfolding all_up_def by (metis side.exhaust)
    then show ?thesis by (rule up)
  qed (use g st1(3) iv up in blast)
  have new: "p_stage s' t \<in> {Chain, S_Check}" if "all_up cfg s'" "\<not> all_up cfg s"
    using assms(1) that ex by cases (auto simp: all_up_def split: if_splits)
  have "p_started s' \<or> (\<exists>r. p_stage s' r \<in> {Chain, S_Check, S_Mid, S_Commit, S_Send})" if u: "all_up cfg s'"
  proof (cases "all_up cfg s")
    case True
    then consider "p_started s" | r where "p_stage s r \<in> {Chain, S_Check, S_Mid, S_Commit, S_Send}" using iv by blast
    then show ?thesis using st1(5) st1(6) [OF _ u] other by cases metis+
  qed (use new [OF u] in blast)
  moreover have "(p_stage s' r = S_Mid \<longrightarrow> cfg Rx \<longrightarrow> p_state s' Rx = AsyncioInitialized) \<and>
      (p_stage s' r \<in> {S_Commit, S_Send} \<longrightarrow> all_up cfg s') \<and> (p_stage s' r = S_Send \<longrightarrow> p_init s' = AsyncioInitialized)" for r
    using st1(1,3) com other iv mono up init by (cases "r = t") (simp, metis insertCI)
  moreover have "p_started s' \<Longrightarrow> all_up cfg s' \<and> p_init s' = AsyncioInitialized"
    using st1(4) iv up init by blast
  ultimately show ?thesis using c unfolding start_inv_def by simp
qed

lemma worker_stop:
  assumes "worker_step cfg t s s'" and inv: "sides_inv cfg s" and stop: "stop_inv s"
  shows "stop_inv s'"
proof (cases "shutting_down s")
  case False
  have "p_init s' = AsyncioUninitialized" if "p_client s = Off"
    using assms(1) high_low [OF inv, of t] sides_invD(2) [OF inv, of t] stop that
    by cases (auto simp: stop_inv_def)
  with worker_client [OF assms(1)] show ?thesis using False stop by (simp add: stop_inv_def shutting_down_def)
next
  case True
  have st: "p_state s r \<noteq> AsyncioInitializing" for r
    using sides_invD(2) [OF inv, of r] True by (cases r) (auto simp: shutting_down_def range_defs split: if_splits)
  have high: "p_stage s t \<in> {Starter, S_Check, S_Mid, S_Commit, S_Send} \<Longrightarrow> p_state s t \<noteq> AsyncioUninitialized"
    using high_low [OF inv, of t] side_ok_stage(1) [OF sides_invD(1) [OF inv, of t]] by auto
  have c: "p_client s' = p_client s" "shutting_down s'" "p_client s \<noteq> Off"
    using worker_client [OF assms(1)] True by (auto simp: shutting_down_def)
  have ex: "p_stage s t \<noteq> Starter"
    using st [of t] side_ok_stage(1) [OF sides_invD(1) [OF inv, of t]] by blast
  note iv = stop [unfolded stop_inv_def, THEN conjunct1, rule_format, OF True]
  note st1 = worker_stop_stages [OF assms(1)] and other = worker_other [OF assms(1)]
  have mono: "p_state s r = AsyncioUninitialized \<Longrightarrow> p_state s' r = AsyncioUninitialized" for r
    using assms(1) ex by cases auto
  then have down: "all_down s \<Longrightarrow> all_down s'" by (simp add: all_down_def)
  have init: "all_down s \<Longrightarrow> p_init s = AsyncioUninitialized \<Longrightarrow> p_init s' = AsyncioUninitialized"
    using assms(1) high by cases (auto simp: all_down_def)
  have com: "all_down s'" if g: "p_stage s' t \<in> {F_Commit, F_Send}"
  proof (cases "p_stage s' t = F_Commit")
    case True
    then have "p_stage s t = F_Mid" "p_state s Tx = AsyncioUninitialized" using st1(2) by simp_all
    then have "all_down s" using iv unfolding all_down_def by (metis side.exhaust)
    then show ?thesis by (rule down)
  qed (use g st1(3) iv down in blast)
  have new: "p_stage s' t = F_Check" if "all_down s'" "\<not> all_down s"
    using assms(1) that ex by cases (auto simp: all_down_def split: if_splits)
  have "p_stopped s' \<or> (\<exists>r. p_stage s' r \<in> {F_Check, F_Mid, F_Commit, F_Send})" if u: "all_down s'"
  proof (cases "all_down s")
    case True
    then consider "p_stopped s" | r where "p_stage s r \<in> {F_Check, F_Mid, F_Commit, F_Send}" using iv by blast
    then show ?thesis using st1(5) st1(6) [OF _ u] other by cases metis+
  qed (use new [OF u] in blast)
  moreover have "(p_stage s' r = F_Mid \<longrightarrow> p_state s' Rx = AsyncioUninitialized) \<and>
      (p_stage s' r \<in> {F_Commit, F_Send} \<longrightarrow> all_down s') \<and> (p_stage s' r = F_Send \<longrightarrow> p_init s' = AsyncioUninitialized)" for r
    using st1(1,3) com other iv mono down init by (cases "r = t") (simp, metis insertCI)
  moreover have "p_stopped s' \<Longrightarrow> all_down s' \<and> p_init s' = AsyncioUninitialized"
    using st1(4) iv down init by blast
  ultimately show ?thesis using c unfolding stop_inv_def by simp
qed

lemma running:
  assumes "sides_inv cfg s" and "p_client s \<in> {On, Clear_Stop, Stop_Rx}" and "\<exists>t. cfg t"
  shows "p_state s r \<in> on_range cfg r" "\<not> all_down s" "p_stage s r \<notin> {F_Check, F_Mid, F_Commit, F_Send}"
proof -
  have st: "p_state s r \<in> on_range cfg r" for r using sides_invD(2) [OF assms(1), of r] assms(2) by auto
  then show "p_state s r \<in> on_range cfg r" .
  obtain t where "cfg t" using assms(3) by blast
  with st [of t] have "p_state s t \<noteq> AsyncioUninitialized" by (simp add: on_range_def)
  then show "\<not> all_down s" unfolding all_down_def by blast
  show "p_stage s r \<notin> {F_Check, F_Mid, F_Commit, F_Send}"
    using st [of r] low_high [OF assms(1), of r] sides_invD(3) [OF assms(1), of r]
    by (cases "cfg r") (auto simp: on_range_def)
qed

lemma client_stop:
  assumes "client_step cfg s s'" and "sides_inv cfg s" and "stop_inv s" and cfg: "\<exists>t. cfg t"
  shows "stop_inv s'"
  using assms(1)
proof cases
  case Clear2
  have "\<not> all_down s" using running(2) [OF assms(2) _ cfg] Clear2(2) by simp
  moreover have "p_stage s r \<notin> {F_Check, F_Mid, F_Commit, F_Send}" for r
    using running(3) [OF assms(2) _ cfg] Clear2(2) by simp
  ultimately show ?thesis using Clear2 by (auto simp: stop_inv_def shutting_down_def all_down_def)
next
  case StopRx
  have r: "p_state s r \<in> on_range cfg r" for r using running(1) [OF assms(2) _ cfg] StopRx(2) by simp
  have q: "\<not> all_down s" using running(2) [OF assms(2) _ cfg] StopRx(2) by simp
  have f: "p_stage s r \<notin> {F_Check, F_Mid, F_Commit, F_Send}" for r
    using running(3) [OF assms(2) _ cfg] StopRx(2) by simp
  have "\<not> all_down s'" using StopRx cfg r [of Rx] r [of Tx]
    by (auto simp: all_down_def stop_side_def on_range_def all_side ex_side split: if_splits)
  moreover have "p_stage s' = p_stage s" "p_stopped s' = p_stopped s" "p_client s' = Stop_Tx"
    using StopRx by (simp_all add: stop_side_def)
  ultimately show ?thesis using StopRx(2) q f assms(3) by (auto simp: stop_inv_def shutting_down_def)
next
  case StopTx
  have u: "p_state s Tx \<in> on_range cfg Tx" using StopTx(2) sides_invD(2) [OF assms(2), of Tx] by simp
  have "p_state s' Rx = p_state s Rx" "p_stage s' = p_stage s" "p_stopped s' = p_stopped s" "p_init s' = p_init s"
    "p_client s' = Wait_Stop" using StopTx by (simp_all add: stop_side_def)
  moreover have "all_down s' \<longleftrightarrow> all_down s"
    using StopTx u by (auto simp: all_down_def stop_side_def all_side on_range_def split: if_splits)
  ultimately show ?thesis using StopTx(2) assms(3) unfolding stop_inv_def shutting_down_def by auto
qed (use assms(3) in \<open>auto simp: stop_inv_def shutting_down_def start_side_def\<close>)

lemma chain_step:
  assumes "pstep cfg s s'" and inv: "sides_inv cfg s" and "chain_inv s"
  shows "chain_inv s'"
proof -
  note rx = sides_invD [OF inv, of Rx]
  have "chain_inv s'" if "client_step cfg s s'"
    using that
  proof cases
    case StartRx
    then show ?thesis using assms(3) by (auto simp: chain_inv_def chain_def start_side_def)
  next
    case StopRx
    then show ?thesis using assms(3) by (auto simp: chain_inv_def chain_def stop_side_def)
  qed (use assms(3) in \<open>auto simp: chain_inv_def chain_def start_side_def stop_side_def\<close>)
  moreover have "chain_inv s'" if "worker_step cfg t s s'" for t
  proof (cases t)
    case Rx
    from that show ?thesis
    proof cases
      case (Take a as)
      then show ?thesis using Rx assms(3) by (cases a) (auto simp: chain_inv_def chain_def)
    next
      case Store
      then have "p_queue s Rx = []" using Rx side_ok_stage(1) [OF rx(1)] by simp
      then show ?thesis using Rx Store by (simp add: chain_inv_def chain_def)
    qed (use Rx assms(3) in \<open>auto simp: chain_inv_def chain_def split: if_splits\<close>)
  next
    case Tx
    from that show ?thesis
      by cases (use Tx assms(3) in \<open>auto simp: chain_inv_def chain_def split: if_splits\<close>)
  qed
  ultimately show ?thesis using assms(1) by (auto simp: pstep_def)
qed

lemma finish_last_simps [simp]:
  "\<not> finish_last []" "finish_last (a # q) \<longleftrightarrow> a = Finish \<and> q = [] \<or> a = Work \<and> finish_last q"
  "works q \<Longrightarrow> finish_last (q @ [Finish])"
  by (auto simp: finish_last_def Cons_eq_append_conv)

lemma tx_step:
  assumes "pstep cfg s s'" and inv: "sides_inv cfg s" and tx: "tx_inv s"
  shows "tx_inv s'"
proof -
  note d = sides_invD [OF inv, of Tx]
  have "tx_inv s'" if "client_step cfg s s'"
    using that
  proof cases
    case StartTx
    then show ?thesis using tx d(2) by (auto simp: tx_inv_def start_side_def)
  next
    case StopTx
    then show ?thesis using tx d(1) by (auto simp: tx_inv_def stop_side_def)
  qed (use tx in \<open>auto simp: tx_inv_def start_side_def stop_side_def\<close>)
  moreover have "tx_inv s'" if "worker_step cfg t s s'" for t
  proof (cases t)
    case Rx
    from that show ?thesis by cases (use Rx tx in \<open>auto simp: tx_inv_def\<close>)
  next
    case Tx
    from that show ?thesis
    proof cases
      case (Take a as)
      then show ?thesis using Tx tx by (cases "p_state s Tx"; cases a) (auto simp: tx_inv_def)
    next
      case Store
      then show ?thesis using Tx tx side_ok_stage(1) [OF d(1)] by (simp add: tx_inv_def)
    next
      case Exchange
      then show ?thesis using Tx tx side_ok_stage(2) [OF d(1)] by (simp add: tx_inv_def)
    qed (use Tx tx in \<open>cases "p_state s Tx"; auto simp: tx_inv_def split: if_splits\<close>)+
  qed
  ultimately show ?thesis using assms(1) by (auto simp: pstep_def)
qed

section \<open>Reachable states\<close>

definition pinv :: "(side \<Rightarrow> bool) \<Rightarrow> protocol \<Rightarrow> bool" where
  "pinv cfg s \<longleftrightarrow> sides_inv cfg s \<and> start_inv cfg s \<and> stop_inv s \<and> chain_inv s \<and> tx_inv s"

lemma pinv_step: "pstep cfg s s' \<Longrightarrow> \<exists>t. cfg t \<Longrightarrow> pinv cfg s \<Longrightarrow> pinv cfg s'"
  using chain_step tx_step client_sides client_start client_stop worker_sides worker_start worker_stop
  by (fastforce simp: pinv_def pstep_def)

lemma pinv_steps: "(pstep cfg)\<^sup>*\<^sup>* s s' \<Longrightarrow> \<exists>t. cfg t \<Longrightarrow> pinv cfg s \<Longrightarrow> pinv cfg s'"
  by (induction rule: rtranclp_induct) (simp_all add: pinv_step)

text \<open>A stream that has been created and not been started.\<close>

definition fresh :: "protocol \<Rightarrow> bool" where
  "fresh s \<longleftrightarrow>
     p_init s = AsyncioUninitialized \<and> p_client s = Off \<and>
     (\<forall>t. p_state s t = AsyncioUninitialized \<and> p_queue s t = [] \<and> p_stage s t = Resting)"

lemma fresh_pinv: "fresh s \<Longrightarrow> pinv cfg s"
  by (auto simp: fresh_def pinv_def sides_inv_def side_inv_def start_inv_def stop_inv_def chain_inv_def chain_def
      tx_inv_def starting_up_def shutting_down_def)

text \<open>
  What the invariant gives: when the client's wait for the start ends, every side is up, and when its
  wait for the stop ends, every side is down and no action is left that would use a pool.
\<close>

lemma started_up:
  assumes "pinv cfg s" and "p_client s = Wait_Start" and "p_started s"
  shows "all_up cfg s" "p_init s = AsyncioInitialized"
  using assms by (auto simp: pinv_def start_inv_def starting_up_def)

lemma stopped_down:
  assumes "pinv cfg s" and "p_client s = Wait_Stop" and "p_stopped s"
  shows "all_down s" "p_init s = AsyncioUninitialized" "p_queue s Tx = []" "set (p_queue s Rx) \<subseteq> {Work}"
proof -
  show d: "all_down s" "p_init s = AsyncioUninitialized"
    using assms by (auto simp: pinv_def stop_inv_def shutting_down_def)
  then show "p_queue s Tx = []" "set (p_queue s Rx) \<subseteq> {Work}"
    using assms(1) sides_invD(1) [of cfg s Rx] by (auto simp: pinv_def tx_inv_def all_down_def works_def)
qed

text \<open>A wait is never forgotten: as long as it has not been signalled, a worker has something to do.\<close>

lemma start_pending:
  assumes inv: "pinv cfg s" and c: "p_client s = Wait_Start" and "\<not> p_started s"
  shows "\<exists>t. cfg t \<and> (p_stage s t \<noteq> Resting \<or> p_queue s t \<noteq> [])"
proof (cases "all_up cfg s")
  case True
  then obtain t where "p_stage s t \<in> {Chain, S_Check, S_Mid, S_Commit, S_Send}"
    using assms by (auto simp: pinv_def start_inv_def starting_up_def)
  then show ?thesis using sides_invD(3) [of cfg s t] inv by (auto simp: pinv_def)
next
  case False
  then obtain t where t: "cfg t" "p_state s t \<noteq> AsyncioInitialized" by (auto simp: all_up_def)
  moreover have "p_state s t \<in> up_range cfg t" using sides_invD(2) [of cfg s t] inv c by (simp add: pinv_def)
  ultimately have "p_state s t = AsyncioInitializing" by (simp add: up_range_def)
  then show ?thesis using t(1) sides_invD(1) [of cfg s t] inv by (auto simp: pinv_def)
qed

lemma stop_pending:
  assumes inv: "pinv cfg s" and c: "p_client s = Wait_Stop" and "\<not> p_stopped s"
  shows "\<exists>t. cfg t \<and> (p_stage s t \<noteq> Resting \<or> p_queue s t \<noteq> [])"
proof (cases "all_down s")
  case True
  then obtain t where "p_stage s t \<in> {F_Check, F_Mid, F_Commit, F_Send}"
    using assms by (auto simp: pinv_def stop_inv_def shutting_down_def)
  then show ?thesis using sides_invD(3) [of cfg s t] inv by (auto simp: pinv_def)
next
  case False
  then obtain t where t: "p_state s t \<noteq> AsyncioUninitialized" by (auto simp: all_down_def)
  moreover have "p_state s t \<in> down_range cfg t" using sides_invD(2) [of cfg s t] inv c by (simp add: pinv_def)
  ultimately have "cfg t" "p_state s t = AsyncioUninitializing" by (auto simp: down_range_def split: if_splits)
  then show ?thesis using sides_invD(1) [of cfg s t] inv by (auto simp: pinv_def)
qed

lemma live_configured:
  assumes "pinv cfg s" and "p_state s t \<noteq> AsyncioUninitialized"
  shows "cfg t"
proof -
  have "p_state s t \<in> ranges cfg (p_client s) t" using assms(1) sides_invD(2) by (auto simp: pinv_def)
  then show ?thesis using assms(2) by (cases "p_client s"; cases t) (auto simp: range_defs split: if_splits)
qed

end
