(* ===== verification/Asyncio.thy ===== *)
theory Asyncio
  imports Asyncio_Protocol Dispatch_Queue Logger
begin

text \<open>
  The stream interface of \<open>inc/cutils/asyncio.h\<close> and \<open>src/asyncio.c\<close>: a receiving and a transmitting
  side, each run by a dispatch queue of the client. The functions are given as the code has them, cut
  where another thread can come between, so that \<open>Asyncio_Threads\<close> can put the pieces together again in
  every order.
\<close>

section \<open>State\<close>

datatype asyncio_tx_send_status =
  StreamTxSendSuccess | StreamTxSendHeaderFail | StreamTxSendMessageFail | StreamTxInterfaceInError

definition asyncio_init_state_e :: "(string \<times> int) list" where
  "asyncio_init_state_e =
     [(''AsyncioUninitialized'', 0), (''AsyncioUninitializing'', 1), (''AsyncioInitializing'', 2),
      (''AsyncioInitialized'', 3)]"

fun init_state_value :: "asyncio_init_state \<Rightarrow> int" where
  "init_state_value AsyncioUninitialized = 0"
| "init_state_value AsyncioUninitializing = 1"
| "init_state_value AsyncioInitializing = 2"
| "init_state_value AsyncioInitialized = 3"

definition ASYNCIO_MAX_THREAD_NAME :: nat where
  "ASYNCIO_MAX_THREAD_NAME = 40"

record asyncio_rx_thread_context =
  rx_worker :: addr
  rx_pool_params :: pool_create_params
  rx_buffer_pool :: "pool option"
  rx_thread_name :: ctext
  rx_callback :: addr
  rx_client_data :: addr
  rx_init_state :: asyncio_init_state

record asyncio_tx_request =
  req_size :: u32
  buffer_offset :: u32
  req_fn :: addr
  req_private :: addr

record asyncio_tx_thread_context =
  tx_worker :: addr
  tx_pool_params :: pool_create_params
  tx_thread_name :: ctext
  tx_buffer_pool :: "pool option"
  max_tx_data_chunk_size :: u32
  tx_write_timeout :: u32
  tx_buffer_offset :: u32
  tx_init_state :: asyncio_init_state

record asyncio_interface_instance =
  rx_task :: asyncio_rx_thread_context
  tx_task :: asyncio_tx_thread_context
  f_stream_interface_read :: addr
  f_stream_interface_write :: addr
  as_log_enabled :: bool
  as_log_level :: u32
  is_in_error :: bool
  stream_stopped :: bool
  stream_name :: ctext
  as_event_flag :: event_flag
  as_init_state :: asyncio_init_state

record asyncio_create_params =
  cp_stream_name :: ctext
  cp_instance :: addr
  cp_read_f :: addr
  cp_write_f :: addr
  cp_rx_callback :: addr
  cp_client_data :: addr
  cp_rx_worker :: addr
  cp_rx_pool_params :: pool_create_params
  cp_tx_worker :: addr
  cp_tx_pool_params :: pool_create_params
  cp_tx_max_chunk_size :: u32
  cp_tx_write_timeout :: u32
  cp_tx_buffer_offset :: u32

text \<open>
  The world: the instance at its address, the dispatch queues with the memory of their blocks, the
  memory of the two buffer pools, the request at the address of each transmit block, and the client's
  data.
\<close>

record 'c aio =
  ai_self :: addr
  ai_inst :: asyncio_interface_instance
  ai_queues :: "addr \<Rightarrow> dispatch_queue \<times> dq_mem"
  ai_rx_mem :: pool_mem
  ai_tx_mem :: pool_mem
  ai_reqs :: "addr \<Rightarrow> asyncio_tx_request"
  ai_client :: 'c

text \<open>The addresses of the functions that are posted.\<close>

record asyncio_fns =
  fn_tx :: addr
  fn_rx :: addr
  fn_starter :: addr
  fn_finisher :: addr

text \<open>
  The client's functions, by their address: read and write of the stream, the receive callback and the
  notification of a transmission.
\<close>

record 'c io_client =
  io_read :: "addr \<Rightarrow> addr \<Rightarrow> u32 \<Rightarrow> 'c aio \<Rightarrow> (u64 \<times> 'c aio) res"
  io_write :: "addr \<Rightarrow> u32 \<Rightarrow> addr \<Rightarrow> u32 \<Rightarrow> 'c aio \<Rightarrow> (u64 \<times> 'c aio) res"
  io_received :: "addr \<Rightarrow> addr \<Rightarrow> u64 \<Rightarrow> 'c aio \<Rightarrow> 'c aio res"
  io_sent :: "addr \<Rightarrow> addr \<Rightarrow> asyncio_tx_send_status \<Rightarrow> u32 \<Rightarrow> addr \<Rightarrow> 'c aio \<Rightarrow> 'c aio res"

definition STREAM_STARTED_FLAG :: u32 where
  "STREAM_STARTED_FLAG = 1"

definition STREAM_STOPPED_FLAG :: u32 where
  "STREAM_STOPPED_FLAG = 2"

abbreviation upd_inst :: "(asyncio_interface_instance \<Rightarrow> asyncio_interface_instance) \<Rightarrow> 'c aio \<Rightarrow> 'c aio" where
  "upd_inst f w \<equiv> w\<lparr>ai_inst := f (ai_inst w)\<rparr>"

abbreviation upd_rx :: "(asyncio_rx_thread_context \<Rightarrow> asyncio_rx_thread_context) \<Rightarrow> 'c aio \<Rightarrow> 'c aio" where
  "upd_rx f w \<equiv> w\<lparr>ai_inst := (ai_inst w)\<lparr>rx_task := f (rx_task (ai_inst w))\<rparr>\<rparr>"

abbreviation upd_tx :: "(asyncio_tx_thread_context \<Rightarrow> asyncio_tx_thread_context) \<Rightarrow> 'c aio \<Rightarrow> 'c aio" where
  "upd_tx f w \<equiv> w\<lparr>ai_inst := (ai_inst w)\<lparr>tx_task := f (tx_task (ai_inst w))\<rparr>\<rparr>"

abbreviation rx_of :: "'c aio \<Rightarrow> asyncio_rx_thread_context" where
  "rx_of w \<equiv> rx_task (ai_inst w)"

abbreviation tx_of :: "'c aio \<Rightarrow> asyncio_tx_thread_context" where
  "tx_of w \<equiv> tx_task (ai_inst w)"

section \<open>Names and creation\<close>

definition asyncio_logger_prefix :: "asyncio_interface_instance \<Rightarrow> prefix_f" where
  "asyncio_logger_prefix i client_data string p string_size =
     (let name = (\<lambda>v. map of_char (get_enum_string asyncio_init_state_e (init_state_value v)))
      in if string_size > 30
         then insert_to_string string p 0
                (stream_name i @ map of_char '':'' @ name (as_init_state i) @ map of_char ''(Tx:'' @
                 name (tx_init_state (tx_task i)) @ map of_char '',Rx:'' @ name (rx_init_state (rx_task i)) @
                 map of_char '')'')
         else Inr (0, string))"

text \<open>\<open>strcat\<close> looks for the end of the string in the array it extends.\<close>

definition strcat :: "ctext \<Rightarrow> ctext \<Rightarrow> ctext res" where
  "strcat dst src =
     (if 0 \<in> set dst then memcpy_to dst (length (c_string dst)) (src @ [0]) else Inl Out_Of_Bounds)"

definition asyncio_configure_tx_thread :: "asyncio_create_params \<Rightarrow> 'c aio \<Rightarrow> 'c aio res" where
  "asyncio_configure_tx_thread ps w =
     (if tx_init_state (tx_of w) \<noteq> AsyncioUninitialized then Inl Assert_Failed
      else bind_res (strncpy (tx_thread_name (tx_of w)) (cp_stream_name ps) (ASYNCIO_MAX_THREAD_NAME - 3)) (\<lambda>n1.
           bind_res (strcat n1 (map of_char ''Tx'')) (\<lambda>n2.
           Inr (upd_tx (\<lambda>t. t\<lparr>tx_thread_name := n2, max_tx_data_chunk_size := cp_tx_max_chunk_size ps,
                  tx_pool_params := cp_tx_pool_params ps, tx_write_timeout := cp_tx_write_timeout ps,
                  tx_buffer_offset := cp_tx_buffer_offset ps, tx_worker := cp_tx_worker ps\<rparr>) w))))"

definition asyncio_configure_rx_thread :: "asyncio_create_params \<Rightarrow> 'c aio \<Rightarrow> 'c aio res" where
  "asyncio_configure_rx_thread ps w =
     (if rx_init_state (rx_of w) \<noteq> AsyncioUninitialized then Inl Assert_Failed
      else bind_res (strncpy (rx_thread_name (rx_of w)) (cp_stream_name ps) (ASYNCIO_MAX_THREAD_NAME - 3)) (\<lambda>n1.
           bind_res (strcat n1 (map of_char ''Rx'')) (\<lambda>n2.
           Inr (upd_rx (\<lambda>r. r\<lparr>rx_thread_name := n2, rx_worker := cp_rx_worker ps,
                  rx_pool_params := cp_rx_pool_params ps, rx_callback := cp_rx_callback ps,
                  rx_client_data := cp_client_data ps\<rparr>) w))))"

definition asyncio_create_instance ::
  "asyncio_create_params \<Rightarrow> int \<Rightarrow> int \<Rightarrow> 'c aio \<Rightarrow> (addr \<times> 'c aio) res" where
  "asyncio_create_instance ps mutex_init_rc cond_init_rc w =
     (if \<not> (cp_instance ps \<noteq> NULL \<and>
            (cp_read_f ps \<noteq> NULL \<and> cp_rx_callback ps \<noteq> NULL \<or> cp_write_f ps \<noteq> NULL) \<and>
            (cp_read_f ps \<noteq> NULL \<and> cp_rx_callback ps \<noteq> NULL \<or> cp_read_f ps = NULL \<and> cp_rx_callback ps = NULL))
      then Inl Assert_Failed
      else if \<not> (cp_rx_worker ps \<noteq> NULL \<and> cp_read_f ps \<noteq> NULL \<or> cp_tx_worker ps \<noteq> NULL \<and> cp_write_f ps \<noteq> NULL)
      then Inl Assert_Failed
      else (case pt_event_flag_new (Some (as_event_flag (ai_inst w))) mutex_init_rc cond_init_rc of
              (True, Some f) \<Rightarrow>
                bind_res (asyncio_configure_rx_thread ps (upd_inst (\<lambda>i. i\<lparr>as_event_flag := f, is_in_error := False,
                    stream_stopped := True, f_stream_interface_read := cp_read_f ps,
                    f_stream_interface_write := cp_write_f ps, stream_name := cp_stream_name ps,
                    as_log_level := 0, as_log_enabled := True\<rparr>) (w\<lparr>ai_self := cp_instance ps\<rparr>))) (\<lambda>w1.
                bind_res (asyncio_configure_tx_thread ps w1) (\<lambda>w2. Inr (cp_instance ps, w2)))
            | _ \<Rightarrow> Inl Assert_Failed))"

section \<open>Posting\<close>

text \<open>A post does not wait: its only round ends at once.\<close>

definition aio_post :: "addr \<Rightarrow> addr \<Rightarrow> addr \<Rightarrow> 'c aio \<Rightarrow> (bool \<times> 'c aio) res option" where
  "aio_post worker fn arg2 w =
     (if worker = NULL then Some (Inr (False, w))
      else case ai_queues w worker of (q, m) \<Rightarrow>
        bind_wait (dispatch_async_f (Some q) fn (ai_self w) arg2 zero_timespec [times_out] m) (\<lambda>(ok, q', m').
          Some (Inr (ok, w\<lparr>ai_queues := (ai_queues w)(worker := (the q', m'))\<rparr>))))"

section \<open>What the workers run\<close>

text \<open>The two completions: the loads, the store and the signal.\<close>

definition start_load_rx :: "'c aio \<Rightarrow> bool" where
  "start_load_rx w \<longleftrightarrow> rx_worker (rx_of w) = NULL \<or> rx_init_state (rx_of w) = AsyncioInitialized"

definition start_load_tx :: "'c aio \<Rightarrow> bool" where
  "start_load_tx w \<longleftrightarrow> tx_worker (tx_of w) = NULL \<or> tx_init_state (tx_of w) = AsyncioInitialized"

definition set_init :: "asyncio_init_state \<Rightarrow> 'c aio \<Rightarrow> 'c aio" where
  "set_init v w = upd_inst (\<lambda>i. i\<lparr>as_init_state := v\<rparr>) w"

definition set_shut :: "bool \<Rightarrow> 'c aio \<Rightarrow> 'c aio" where
  "set_shut b w = upd_inst (\<lambda>i. i\<lparr>stream_stopped := b\<rparr>) w"

definition send_flag :: "u32 \<Rightarrow> 'c aio \<Rightarrow> 'c aio" where
  "send_flag bits w =
     upd_inst (\<lambda>i. i\<lparr>as_event_flag := the (fst (snd (event_flag_send (Some (as_event_flag i)) bits)))\<rparr>) w"

definition clear_flag :: "u32 \<Rightarrow> 'c aio \<Rightarrow> 'c aio" where
  "clear_flag bits w =
     upd_inst (\<lambda>i. i\<lparr>as_event_flag := the (snd (event_flag_clear (Some (as_event_flag i)) bits))\<rparr>) w"

definition trigger_start_completion :: "'c aio \<Rightarrow> 'c aio" where
  "trigger_start_completion w =
     (if start_load_rx w \<and> start_load_tx w then send_flag STREAM_STARTED_FLAG (set_init AsyncioInitialized w) else w)"

definition trigger_stop_completion :: "'c aio \<Rightarrow> 'c aio" where
  "trigger_stop_completion w =
     (if rx_init_state (rx_of w) = AsyncioUninitialized \<and> tx_init_state (tx_of w) = AsyncioUninitialized
      then send_flag STREAM_STOPPED_FLAG (set_init AsyncioUninitialized w) else w)"

text \<open>
  \<open>starter_f\<close> up to its store; \<open>mutex_ok\<close>, \<open>c1\<close> and \<open>c2\<close> are what the creation of the pool's queue meets.
\<close>

definition starter_store :: "side \<Rightarrow> bool \<Rightarrow> int \<Rightarrow> int \<Rightarrow> 'c aio \<Rightarrow> 'c aio res" where
  "starter_store t mutex_ok c1 c2 w =
     (case t of
        Rx \<Rightarrow> bind_res (pool_create (rx_pool_params (rx_of w)) mutex_ok c1 c2 (ai_rx_mem w)) (\<lambda>(pl, ok, m).
                if \<not> ok then Inl Assert_Failed
                else Inr (upd_rx (\<lambda>r. r\<lparr>rx_buffer_pool := pl, rx_init_state := AsyncioInitialized\<rparr>)
                            (w\<lparr>ai_rx_mem := m\<rparr>)))
      | Tx \<Rightarrow> bind_res (pool_create (tx_pool_params (tx_of w)) mutex_ok c1 c2 (ai_tx_mem w)) (\<lambda>(pl, ok, m).
                if \<not> ok then Inl Assert_Failed
                else Inr (upd_tx (\<lambda>r. r\<lparr>tx_buffer_pool := pl, tx_init_state := AsyncioInitialized\<rparr>)
                            (w\<lparr>ai_tx_mem := m\<rparr>))))"

definition starter_f :: "asyncio_fns \<Rightarrow> bool \<Rightarrow> int \<Rightarrow> int \<Rightarrow> addr \<Rightarrow> 'c aio \<Rightarrow> 'c aio res option" where
  "starter_f F mutex_ok c1 c2 arg2 w =
     (if arg2 = 0
      then bind_wait (Some (starter_store Rx mutex_ok c1 c2 w)) (\<lambda>w1.
           bind_wait (aio_post (rx_worker (rx_of w1)) (fn_rx F) 0 w1) (\<lambda>(_, w2).
           Some (Inr (trigger_start_completion w2))))
      else bind_wait (Some (starter_store Tx mutex_ok c1 c2 w)) (\<lambda>w1.
           Some (Inr (trigger_start_completion w1))))"

definition finisher_exchange :: "side \<Rightarrow> 'c aio \<Rightarrow> 'c aio" where
  "finisher_exchange t w =
     (case t of
        Rx \<Rightarrow> if rx_init_state (rx_of w) = AsyncioUninitializing
              then upd_rx (\<lambda>r. r\<lparr>rx_init_state := AsyncioUninitialized,
                                 rx_buffer_pool := fst (pool_destroy (rx_buffer_pool r))\<rparr>) w
              else w
      | Tx \<Rightarrow> if tx_init_state (tx_of w) = AsyncioUninitializing
              then upd_tx (\<lambda>r. r\<lparr>tx_init_state := AsyncioUninitialized,
                                 tx_buffer_pool := fst (pool_destroy (tx_buffer_pool r))\<rparr>) w
              else w)"

definition finisher_f :: "addr \<Rightarrow> 'c aio \<Rightarrow> 'c aio" where
  "finisher_f arg2 w = trigger_stop_completion (finisher_exchange (if arg2 = 0 then Rx else Tx) w)"

definition asyncio_tx_request_get_buffer :: "addr \<Rightarrow> 'c aio \<Rightarrow> addr" where
  "asyncio_tx_request_get_buffer p_req w = p_req + unat (buffer_offset (ai_reqs w p_req))"

text \<open>\<open>p_req\<close> is the second argument; the pool takes the block back on every path.\<close>

definition tx_f :: "'c io_client \<Rightarrow> addr \<Rightarrow> 'c aio \<Rightarrow> 'c aio res" where
  "tx_f io p_req w =
     (let timeout = tx_write_timeout (tx_of w); req = ai_reqs w p_req
      in bind_res
        (if as_init_state (ai_inst w) = AsyncioInitialized
         then bind_res
           (if \<not> is_in_error (ai_inst w)
            then if f_stream_interface_write (ai_inst w) = NULL then Inl Null_Call
                 else bind_res (io_write io (f_stream_interface_write (ai_inst w)) (req_size req)
                                  (asyncio_tx_request_get_buffer p_req w) timeout w) (\<lambda>(n, w1).
                      Inr (n, if n \<noteq> ucast (req_size (ai_reqs w1 p_req)) then StreamTxSendMessageFail
                              else StreamTxSendSuccess, w1))
            else Inr (0, StreamTxInterfaceInError, w))
           (\<lambda>(bytes_written, status, w1).
              if req_fn (ai_reqs w1 p_req) \<noteq> NULL
              then io_sent io (req_fn (ai_reqs w1 p_req)) p_req status (ucast bytes_written)
                     (req_private (ai_reqs w1 p_req)) w1
              else Inr w1)
         else Inr w)
        (\<lambda>w2. bind_res (pool_free (tx_buffer_pool (tx_of w2)) p_req (ai_tx_mem w2)) (\<lambda>(pl, m, _).
           Inr (upd_tx (\<lambda>t. t\<lparr>tx_buffer_pool := pl\<rparr>) (w2\<lparr>ai_tx_mem := m\<rparr>)))))"

text \<open>
  \<open>rx_f\<close> after it has found the side up: a read and the callback, the next post, and the buffer goes back.
\<close>

definition rx_read :: "'c io_client \<Rightarrow> addr \<Rightarrow> 'c aio \<Rightarrow> 'c aio res" where
  "rx_read io p_buf w =
     (if f_stream_interface_read (ai_inst w) = NULL then Inl Null_Call
      else bind_res (io_read io (f_stream_interface_read (ai_inst w)) p_buf 1000 w) (\<lambda>(n, w1).
        if n \<noteq> 0
        then if rx_callback (rx_of w1) = NULL then Inl Null_Call
             else io_received io (rx_callback (rx_of w1)) p_buf n w1
        else Inr w1))"

definition rx_body :: "asyncio_fns \<Rightarrow> 'c io_client \<Rightarrow> 'c aio \<Rightarrow> 'c aio res option" where
  "rx_body F io w =
     bind_wait (pool_alloc (rx_buffer_pool (rx_of w)) zero_timespec [times_out] (ai_rx_mem w)) (\<lambda>(p_buf, pl, m).
       let w1 = upd_rx (\<lambda>r. r\<lparr>rx_buffer_pool := pl\<rparr>) (w\<lparr>ai_rx_mem := m\<rparr>)
       in if p_buf \<noteq> NULL
          then bind_wait (Some (rx_read io p_buf w1)) (\<lambda>w3.
               bind_wait (aio_post (rx_worker (rx_of w3)) (fn_rx F) 0 w3) (\<lambda>(_, w4).
               Some (bind_res (pool_free (rx_buffer_pool (rx_of w4)) p_buf (ai_rx_mem w4)) (\<lambda>(pl', m', _).
                 Inr (upd_rx (\<lambda>r. r\<lparr>rx_buffer_pool := pl'\<rparr>) (w4\<lparr>ai_rx_mem := m'\<rparr>))))))
          else bind_wait (aio_post (rx_worker (rx_of w1)) (fn_rx F) 0 w1) (\<lambda>(_, w2). Some (Inr w2)))"

definition rx_f :: "asyncio_fns \<Rightarrow> 'c io_client \<Rightarrow> 'c aio \<Rightarrow> 'c aio res option" where
  "rx_f F io w =
     (if rx_init_state (rx_of w) = AsyncioInitialized then rx_body F io w else Some (Inr w))"

section \<open>Starting and stopping\<close>

definition asyncio_start_tx_thread :: "asyncio_fns \<Rightarrow> 'c aio \<Rightarrow> (bool \<times> 'c aio) res option" where
  "asyncio_start_tx_thread F w =
     bind_wait (aio_post (tx_worker (tx_of w)) (fn_starter F) 1
                  (upd_tx (\<lambda>t. t\<lparr>tx_init_state := AsyncioInitializing\<rparr>) w)) (\<lambda>(_, w'). Some (Inr (True, w')))"

definition asyncio_start_rx_thread :: "asyncio_fns \<Rightarrow> 'c aio \<Rightarrow> (bool \<times> 'c aio) res option" where
  "asyncio_start_rx_thread F w =
     (if rx_worker (rx_of w) = NULL \<or> rx_callback (rx_of w) = NULL then Some (Inl Assert_Failed)
      else bind_wait (aio_post (rx_worker (rx_of w)) (fn_starter F) 0
                        (upd_rx (\<lambda>r. r\<lparr>rx_init_state := AsyncioInitializing\<rparr>) w)) (\<lambda>(_, w'). Some (Inr (True, w'))))"

text \<open>The parts of \<open>asyncio_start\<close> before its wait.\<close>

definition start_rx_part :: "asyncio_fns \<Rightarrow> 'c aio \<Rightarrow> (bool \<times> 'c aio) res option" where
  "start_rx_part F w = (if rx_worker (rx_of w) \<noteq> NULL then asyncio_start_rx_thread F w else Some (Inr (True, w)))"

definition start_tx_part :: "asyncio_fns \<Rightarrow> bool \<Rightarrow> 'c aio \<Rightarrow> (bool \<times> 'c aio) res option" where
  "start_tx_part F retval w =
     bind_wait (if tx_worker (tx_of w) \<noteq> NULL
                then if retval then asyncio_start_tx_thread F w else Some (Inr (False, w))
                else Some (Inr (retval, w)))
       (\<lambda>(r, w'). Some (Inr (r, set_shut False w')))"

text \<open>
  A wait for a flag: \<open>trylock_rc\<close>, \<open>timedlock\<close> and \<open>wakes\<close> are what the wait meets, \<open>others\<close> what the other
  threads do to the rest of the world meanwhile. A wait that fails ends in a failed assertion.
\<close>

definition wait_flag ::
  "u32 \<Rightarrow> int \<Rightarrow> timespec \<Rightarrow> (timespec \<Rightarrow> int) \<Rightarrow> event_flag wake list \<Rightarrow> ('c aio \<Rightarrow> 'c aio) \<Rightarrow> 'c aio
    \<Rightarrow> 'c aio res option" where
  "wait_flag bits trylock_rc now timedlock wakes others w =
     (case pt_event_flag_wait (Some (as_event_flag (ai_inst w))) bits WAIT_OR 4000 trylock_rc now timedlock wakes of
        None \<Rightarrow> None
      | Some (True, _, Some f) \<Rightarrow> Some (Inr (upd_inst (\<lambda>i. i\<lparr>as_event_flag := f\<rparr>) (others w)))
      | Some _ \<Rightarrow> Some (Inl Assert_Failed))"

definition asyncio_start ::
  "asyncio_fns \<Rightarrow> int \<Rightarrow> timespec \<Rightarrow> (timespec \<Rightarrow> int) \<Rightarrow> event_flag wake list \<Rightarrow> ('c aio \<Rightarrow> 'c aio) \<Rightarrow> 'c aio
    \<Rightarrow> (bool \<times> 'c aio) res option" where
  "asyncio_start F trylock_rc now timedlock wakes others w =
     (if as_init_state (ai_inst w) = AsyncioUninitialized
      then bind_wait (start_rx_part F (clear_flag STREAM_STARTED_FLAG (set_init AsyncioInitializing w))) (\<lambda>(r1, w1).
           bind_wait (start_tx_part F r1 w1) (\<lambda>(retval, w2).
             if retval
             then bind_wait (wait_flag STREAM_STARTED_FLAG trylock_rc now timedlock wakes others w2)
                    (\<lambda>w3. Some (Inr (True, w3)))
             else Some (Inr (False, set_init AsyncioUninitialized w2))))
      else Some (Inr (False, w)))"

text \<open>The value the exchange finds must not be that of a side that is starting.\<close>

definition asyncio_stop_rx_thread :: "asyncio_fns \<Rightarrow> 'c aio \<Rightarrow> 'c aio res option" where
  "asyncio_stop_rx_thread F w =
     (let expected = rx_init_state (rx_of w)
      in bind_wait (if expected = AsyncioInitialized
                    then aio_post (rx_worker (rx_of w)) (fn_finisher F) 0
                           (upd_rx (\<lambda>r. r\<lparr>rx_init_state := AsyncioUninitializing\<rparr>) w)
                    else Some (Inr (True, w)))
           (\<lambda>(_, w'). if expected = AsyncioInitializing then Some (Inl Assert_Failed) else Some (Inr w')))"

definition asyncio_stop_tx_thread :: "asyncio_fns \<Rightarrow> 'c aio \<Rightarrow> 'c aio res option" where
  "asyncio_stop_tx_thread F w =
     (let expected = tx_init_state (tx_of w)
      in bind_wait (if expected = AsyncioInitialized
                    then aio_post (tx_worker (tx_of w)) (fn_finisher F) 1
                           (upd_tx (\<lambda>t. t\<lparr>tx_init_state := AsyncioUninitializing\<rparr>) w)
                    else Some (Inr (True, w)))
           (\<lambda>(_, w'). if expected = AsyncioInitializing then Some (Inl Assert_Failed) else Some (Inr w')))"

definition asyncio_stop ::
  "asyncio_fns \<Rightarrow> int \<Rightarrow> timespec \<Rightarrow> (timespec \<Rightarrow> int) \<Rightarrow> event_flag wake list \<Rightarrow> ('c aio \<Rightarrow> 'c aio) \<Rightarrow> 'c aio
    \<Rightarrow> 'c aio res option" where
  "asyncio_stop F trylock_rc now timedlock wakes others w =
     (if as_init_state (ai_inst w) = AsyncioInitialized
      then let w0 = set_init AsyncioUninitializing w
           in if \<not> stream_stopped (ai_inst w0)
              then bind_wait (asyncio_stop_rx_thread F
                       (set_shut True (clear_flag STREAM_STOPPED_FLAG w0))) (\<lambda>w1.
                   bind_wait (asyncio_stop_tx_thread F w1) (\<lambda>w2.
                   wait_flag STREAM_STOPPED_FLAG trylock_rc now timedlock wakes others w2))
              else Some (Inr w0)
      else Some (Inr w))"

text \<open>The flag of the result is that of \<open>event_flag_free\<close>.\<close>

definition asyncio_destroy_instance ::
  "bool \<Rightarrow> asyncio_fns \<Rightarrow> int \<Rightarrow> timespec \<Rightarrow> (timespec \<Rightarrow> int) \<Rightarrow> event_flag wake list \<Rightarrow> ('c aio \<Rightarrow> 'c aio)
    \<Rightarrow> int \<Rightarrow> int \<Rightarrow> 'c aio \<Rightarrow> (bool \<times> 'c aio) res option" where
  "asyncio_destroy_instance nonnull F trylock_rc now timedlock wakes others cond_destroy_rc mutex_destroy_rc w =
     (if nonnull
      then bind_wait (asyncio_stop F trylock_rc now timedlock wakes others w) (\<lambda>w'.
             Some (Inr (pt_event_flag_free True cond_destroy_rc mutex_destroy_rc, w')))
      else Some (Inr (False, w)))"

section \<open>Requests and buffers\<close>

definition asyncio_allocate_tx_token :: "'c aio \<Rightarrow> (addr \<times> 'c aio) res option" where
  "asyncio_allocate_tx_token w =
     (if tx_init_state (tx_of w) = AsyncioInitialized
      then bind_wait (pool_alloc (tx_buffer_pool (tx_of w)) zero_timespec [times_out] (ai_tx_mem w)) (\<lambda>(p, pl, m).
             let w1 = upd_tx (\<lambda>t. t\<lparr>tx_buffer_pool := pl\<rparr>) (w\<lparr>ai_tx_mem := m\<rparr>)
             in if p \<noteq> NULL
                then Some (Inr (p, w1\<lparr>ai_reqs := (ai_reqs w1)(p := \<lparr>req_size = 0,
                       buffer_offset = tx_buffer_offset (tx_of w1), req_fn = NULL, req_private = NULL\<rparr>)\<rparr>))
                else Some (Inr (NULL, w1)))
      else Some (Inr (NULL, w)))"

definition asyncio_release_tx_token :: "bool \<Rightarrow> addr \<Rightarrow> 'c aio \<Rightarrow> 'c aio res" where
  "asyncio_release_tx_token nonnull token w =
     (if nonnull \<and> token \<noteq> NULL \<and> tx_init_state (tx_of w) = AsyncioInitialized
      then bind_res (pool_free (tx_buffer_pool (tx_of w)) token (ai_tx_mem w)) (\<lambda>(pl, m, _).
             Inr (upd_tx (\<lambda>t. t\<lparr>tx_buffer_pool := pl\<rparr>) (w\<lparr>ai_tx_mem := m\<rparr>)))
      else Inr w)"

definition asyncio_tx_token_get_data_buffer :: "addr \<Rightarrow> 'c aio \<Rightarrow> addr" where
  "asyncio_tx_token_get_data_buffer token w =
     (if token \<noteq> NULL then asyncio_tx_request_get_buffer token w else NULL)"

definition asyncio_tx_token_get_max_data_size :: "'c aio \<Rightarrow> u32" where
  "asyncio_tx_token_get_max_data_size w = max_tx_data_chunk_size (tx_of w)"

definition asyncio_send_buffer ::
  "asyncio_fns \<Rightarrow> bool \<Rightarrow> addr \<Rightarrow> u32 \<Rightarrow> addr \<Rightarrow> addr \<Rightarrow> 'c aio \<Rightarrow> (bool \<times> 'c aio) res option" where
  "asyncio_send_buffer F nonnull token len fn p_private w =
     (if nonnull \<and> \<not> stream_stopped (ai_inst w) \<and> tx_init_state (tx_of w) = AsyncioInitialized \<and> token \<noteq> NULL \<and>
         len > 0 \<and> len < max_tx_data_chunk_size (tx_of w)
      then aio_post (tx_worker (tx_of w)) (fn_tx F) token
             (w\<lparr>ai_reqs := (ai_reqs w)(token := (ai_reqs w token)\<lparr>req_size := len, req_fn := fn,
                                                               req_private := p_private\<rparr>)\<rparr>)
      else Some (Inr (False, w)))"

definition asyncio_release_rx_buffer :: "bool \<Rightarrow> addr \<Rightarrow> 'c aio \<Rightarrow> 'c aio res" where
  "asyncio_release_rx_buffer nonnull message w =
     (if nonnull \<and> message \<noteq> NULL
      then bind_res (pool_free (rx_buffer_pool (rx_of w)) message (ai_rx_mem w)) (\<lambda>(pl, m, _).
             Inr (upd_rx (\<lambda>r. r\<lparr>rx_buffer_pool := pl\<rparr>) (w\<lparr>ai_rx_mem := m\<rparr>)))
      else Inr w)"

definition asyncio_get_private_data :: "bool \<Rightarrow> 'c aio \<Rightarrow> addr" where
  "asyncio_get_private_data nonnull w = (if nonnull then rx_client_data (rx_of w) else NULL)"

section \<open>Sending and receiving\<close>

text \<open>Functions of the client that act on the client's data only.\<close>

type_synonym 'c pure_io =
  "(addr \<Rightarrow> addr \<Rightarrow> u32 \<Rightarrow> 'c \<Rightarrow> u64 \<times> 'c) \<times> (addr \<Rightarrow> u32 \<Rightarrow> addr \<Rightarrow> u32 \<Rightarrow> 'c \<Rightarrow> u64 \<times> 'c) \<times>
   (addr \<Rightarrow> addr \<Rightarrow> u64 \<Rightarrow> 'c \<Rightarrow> 'c) \<times> (addr \<Rightarrow> addr \<Rightarrow> asyncio_tx_send_status \<Rightarrow> u32 \<Rightarrow> addr \<Rightarrow> 'c \<Rightarrow> 'c)"

definition io_of :: "'c pure_io \<Rightarrow> 'c io_client" where
  "io_of P = (case P of (rd, wr, rc, sn) \<Rightarrow>
     \<lparr>io_read = (\<lambda>f b ms w. case rd f b ms (ai_client w) of (n, c) \<Rightarrow> Inr (n, w\<lparr>ai_client := c\<rparr>)),
      io_write = (\<lambda>f k b ms w. case wr f k b ms (ai_client w) of (n, c) \<Rightarrow> Inr (n, w\<lparr>ai_client := c\<rparr>)),
      io_received = (\<lambda>f b n w. Inr (w\<lparr>ai_client := rc f b n (ai_client w)\<rparr>)),
      io_sent = (\<lambda>f b st n p w. Inr (w\<lparr>ai_client := sn f b st n p (ai_client w)\<rparr>))\<rparr>)"

lemma aio_post_fifo:
  assumes "aio_post wk fn arg w = Some (Inr (ok, w'))" and "wk \<noteq> NULL"
    and "dq_fifo busy cap posts (Suc k) (ai_queues w wk)"
  obtains x cap' where "w' = w\<lparr>ai_queues := (ai_queues w)(wk := x)\<rparr>"
    "dq_fifo busy cap' (posts @ [\<lparr>pd_fn = fn, pd_arg1 = ai_self w, pd_arg2 = arg\<rparr>]) k x" "ok"
proof -
  obtain q m where qm: "ai_queues w wk = (q, m)" by (cases "ai_queues w wk")
  show ?thesis
  proof (cases cap)
    case 0
    then have "dispatch_async_f (Some q) fn (ai_self w) arg zero_timespec [times_out] m = Some (Inl Assert_Failed)"
      using dq_fifo_full assms(3) qm by metis
    then show ?thesis using assms(1,2) qm by (simp add: aio_post_def)
  next
    case (Suc cap')
    then obtain q' m' where "dispatch_async_f (Some q) fn (ai_self w) arg zero_timespec [times_out] m =
        Some (Inr (True, Some q', m'))"
      "dq_fifo busy cap' (posts @ [\<lparr>pd_fn = fn, pd_arg1 = ai_self w, pd_arg2 = arg\<rparr>]) k (q', m')"
      using dq_fifo_post [OF assms(3) [unfolded qm Suc]] by metis
    then show ?thesis using assms(1,2) qm by (intro that [of "(q', m')" cap']) (simp_all add: aio_post_def)
  qed
qed

lemma aio_post_room:
  assumes "wk \<noteq> NULL" and "dq_fifo busy (Suc cap) posts (Suc k) (ai_queues w wk)"
  obtains x where "aio_post wk fn arg w = Some (Inr (True, w\<lparr>ai_queues := (ai_queues w)(wk := x)\<rparr>))"
    "dq_fifo busy cap (posts @ [\<lparr>pd_fn = fn, pd_arg1 = ai_self w, pd_arg2 = arg\<rparr>]) k x"
proof -
  obtain q m where qm: "ai_queues w wk = (q, m)" by (cases "ai_queues w wk")
  obtain q' m' where "dispatch_async_f (Some q) fn (ai_self w) arg zero_timespec [times_out] m = Some (Inr (True, Some q', m'))"
    "dq_fifo busy cap (posts @ [\<lparr>pd_fn = fn, pd_arg1 = ai_self w, pd_arg2 = arg\<rparr>]) k (q', m')"
    using dq_fifo_post [OF assms(2) [unfolded qm]] by metis
  then show ?thesis using assms(1) qm by (intro that [of "(q', m')"]) (simp_all add: aio_post_def)
qed

text \<open>The buffer pool of the transmitting side: \<open>fs\<close> are the free blocks.\<close>

definition tx_pool :: "addr set \<Rightarrow> addr list \<Rightarrow> nat \<Rightarrow> 'c aio \<Rightarrow> bool" where
  "tx_pool B fs n w \<longleftrightarrow>
     (\<exists>p. tx_buffer_pool (tx_of w) = Some p \<and> pl_free_in B (p, ai_tx_mem w) fs \<and> pool_budget n p)"

definition rx_pool :: "addr set \<Rightarrow> addr list \<Rightarrow> nat \<Rightarrow> 'c aio \<Rightarrow> bool" where
  "rx_pool B fs n w \<longleftrightarrow>
     (\<exists>p. rx_buffer_pool (rx_of w) = Some p \<and> pl_free_in B (p, ai_rx_mem w) fs \<and> pool_budget n p)"

text \<open>What the client sees of a request that \<open>tx_f\<close> works on.\<close>

definition tx_outcome :: "'c pure_io \<Rightarrow> addr \<Rightarrow> asyncio_tx_request \<Rightarrow> asyncio_interface_instance \<Rightarrow> 'c \<Rightarrow> 'c" where
  "tx_outcome P token r i c =
     (case P of (rd, wr, rc, sn) \<Rightarrow>
        let (n, c1) = wr (f_stream_interface_write i) (req_size r) (token + unat (buffer_offset r))
                         (tx_write_timeout (tx_task i)) c;
            status = (if n = ucast (req_size r) then StreamTxSendSuccess else StreamTxSendMessageFail)
        in if req_fn r = NULL then c1 else sn (req_fn r) token status (ucast n) (req_private r) c1)"

lemma tx_f_free:
  assumes "tx_pool B fs (Suc n) w" and "token \<in> B" and "token \<notin> set fs"
  obtains pl m cs where "pool_free (tx_buffer_pool (tx_of w)) token (ai_tx_mem w) = Inr (Some pl, m, cs)"
    "tx_pool B (fs @ [token]) n (upd_tx (\<lambda>t. t\<lparr>tx_buffer_pool := Some pl\<rparr>) (w\<lparr>ai_tx_mem := m, ai_client := c\<rparr>))"
proof -
  obtain p where p: "tx_buffer_pool (tx_of w) = Some p" "pl_free_in B (p, ai_tx_mem w) fs" "pool_budget (Suc n) p"
    using assms(1) by (auto simp: tx_pool_def)
  obtain pl m cs where "pool_free (Some p) token (ai_tx_mem w) = Inr (Some pl, m, cs)"
    "pl_free_in B (pl, m) (fs @ [token])" "pool_budget n pl"
    using pool_free_free [OF p(2) assms(2,3) p(3)] by metis
  then show ?thesis using p(1) by (intro that [of pl m cs]) (simp_all add: tx_pool_def)
qed

lemma send_buffer_queued:
  fixes w :: "'c aio"
  assumes "token \<noteq> NULL" and "tx_init_state (tx_of w) = AsyncioInitialized" and "\<not> stream_stopped (ai_inst w)"
    and "0 < len" and "len < asyncio_tx_token_get_max_data_size w" and q: "tx_worker (tx_of w) \<noteq> NULL"
      "dq_fifo busy (Suc cap) posts (Suc k) (ai_queues w (tx_worker (tx_of w)))"
  obtains x where "asyncio_send_buffer F True token len fn pr w = Some (Inr (True,
      w\<lparr>ai_reqs := (ai_reqs w)(token := (ai_reqs w token)\<lparr>req_size := len, req_fn := fn, req_private := pr\<rparr>),
        ai_queues := (ai_queues w)(tx_worker (tx_of w) := x)\<rparr>))"
    "dq_fifo busy cap (posts @ [\<lparr>pd_fn = fn_tx F, pd_arg1 = ai_self w, pd_arg2 = token\<rparr>]) k x"
proof -
  let ?w0 = "w\<lparr>ai_reqs := (ai_reqs w)(token := (ai_reqs w token)\<lparr>req_size := len, req_fn := fn, req_private := pr\<rparr>)\<rparr>"
  have "dq_fifo busy (Suc cap) posts (Suc k) (ai_queues ?w0 (tx_worker (tx_of w)))" using q(2) by simp
  then obtain x where "aio_post (tx_worker (tx_of w)) (fn_tx F) token ?w0 =
      Some (Inr (True, ?w0\<lparr>ai_queues := (ai_queues ?w0)(tx_worker (tx_of w) := x)\<rparr>))"
    "dq_fifo busy cap (posts @ [\<lparr>pd_fn = fn_tx F, pd_arg1 = ai_self ?w0, pd_arg2 = token\<rparr>]) k x"
    using aio_post_room [OF q(1)] by metis
  then show ?thesis
    using assms by (intro that [of x]) (simp_all add: asyncio_send_buffer_def asyncio_tx_token_get_max_data_size_def)
qed

text \<open>
  C18: (functional) A request of an acceptable length is queued as one call of \<open>tx_f\<close> with the stream and the
  token, behind the posts that are there. When that call runs, it makes one write, of the requested
  length from the buffer of the token, then one call of the notification, with the number of bytes
  written and a status that tells whether they are all; if the stream is no longer initialized it
  makes neither. On every path the block of the token goes back to the pool.
\<close>

theorem asyncio_send_transmits:
  fixes w :: "'c aio"
  assumes pool: "tx_pool B fs (Suc n) w" and tok: "token \<in> B" "token \<notin> set fs" "token \<noteq> NULL"
    and up: "tx_init_state (tx_of w) = AsyncioInitialized" "\<not> stream_stopped (ai_inst w)"
      "\<not> is_in_error (ai_inst w)" "f_stream_interface_write (ai_inst w) \<noteq> NULL"
    and len: "0 < len" "len < asyncio_tx_token_get_max_data_size w"
    and q: "tx_worker (tx_of w) \<noteq> NULL" "dq_fifo busy (Suc cap) posts (Suc k) (ai_queues w (tx_worker (tx_of w)))"
  shows "\<exists>w1. asyncio_send_buffer F True token len fn pr w = Some (Inr (True, w1)) \<and>
    dq_fifo busy cap (posts @ [\<lparr>pd_fn = fn_tx F, pd_arg1 = ai_self w, pd_arg2 = token\<rparr>]) k
      (ai_queues w1 (tx_worker (tx_of w))) \<and>
    (\<exists>w2. tx_f (io_of P) token w1 = Inr w2 \<and> tx_pool B (fs @ [token]) n w2 \<and>
       ai_client w2 = (if as_init_state (ai_inst w) = AsyncioInitialized
                       then tx_outcome P token ((ai_reqs w token)\<lparr>req_size := len, req_fn := fn, req_private := pr\<rparr>)
                              (ai_inst w) (ai_client w)
                       else ai_client w))"
proof -
  let ?r = "(ai_reqs w token)\<lparr>req_size := len, req_fn := fn, req_private := pr\<rparr>"
  obtain x where x: "asyncio_send_buffer F True token len fn pr w = Some (Inr (True,
      w\<lparr>ai_reqs := (ai_reqs w)(token := ?r), ai_queues := (ai_queues w)(tx_worker (tx_of w) := x)\<rparr>))"
    "dq_fifo busy cap (posts @ [\<lparr>pd_fn = fn_tx F, pd_arg1 = ai_self w, pd_arg2 = token\<rparr>]) k x"
    by (rule send_buffer_queued [OF tok(3) up(1,2) len q])
  let ?w1 = "w\<lparr>ai_reqs := (ai_reqs w)(token := ?r), ai_queues := (ai_queues w)(tx_worker (tx_of w) := x)\<rparr>"
  obtain rd wr rc sn where P: "P = (rd, wr, rc, sn)" by (cases P)
  let ?c = "if as_init_state (ai_inst w) = AsyncioInitialized then tx_outcome P token ?r (ai_inst w) (ai_client w)
      else ai_client w"
  have "tx_pool B fs (Suc n) ?w1" using pool by (simp add: tx_pool_def)
  then obtain pl m cs where f: "pool_free (tx_buffer_pool (tx_of ?w1)) token (ai_tx_mem ?w1) = Inr (Some pl, m, cs)"
    "tx_pool B (fs @ [token]) n (upd_tx (\<lambda>t. t\<lparr>tx_buffer_pool := Some pl\<rparr>) (?w1\<lparr>ai_tx_mem := m, ai_client := ?c\<rparr>))"
    using tx_f_free [OF _ tok(1,2)] by metis
  let ?w2 = "upd_tx (\<lambda>t. t\<lparr>tx_buffer_pool := Some pl\<rparr>) (?w1\<lparr>ai_tx_mem := m, ai_client := ?c\<rparr>)"
  have "tx_f (io_of P) token ?w1 = Inr ?w2"
    using up f(1)
    by (simp add: tx_f_def P io_of_def tx_outcome_def Let_def asyncio_tx_request_get_buffer_def split: prod.splits)
  then show ?thesis using x f(2) by (intro exI [of _ ?w1] conjI exI [of _ ?w2]) simp_all
qed

text \<open>
  (error) \<open>rx_f\<close> gives its buffer back to the pool when the receive callback has returned. A callback
  that hands the buffer to \<open>asyncio_release_rx_buffer\<close> releases it twice: the worker dies on the
  assertion of \<open>pool_free\<close>.
\<close>

theorem asyncio_rx_double_release:
  fixes w :: "'c aio"
  assumes pool: "rx_pool B (b # fs) (Suc n) w"
    and up: "rx_init_state (rx_of w) = AsyncioInitialized" "f_stream_interface_read (ai_inst w) \<noteq> NULL"
      "rx_callback (rx_of w) \<noteq> NULL"
    and io: "io_read io = (\<lambda>f p ms w. Inr (len, w))" "len \<noteq> 0"
      "io_received io = (\<lambda>f p k w. asyncio_release_rx_buffer True p w)"
    and q: "rx_worker (rx_of w) \<noteq> NULL" "dq_fifo busy (Suc cap) posts (Suc k) (ai_queues w (rx_worker (rx_of w)))"
  shows "rx_f F io w = Some (Inl Assert_Failed)"
proof -
  obtain p where p: "rx_buffer_pool (rx_of w) = Some p" "pl_free_in B (p, ai_rx_mem w) (b # fs)" "pool_budget (Suc n) p"
    using pool by (auto simp: rx_pool_def)
  obtain p1 m1 where a: "pool_alloc (Some p) zero_timespec [times_out] (ai_rx_mem w) = Some (Inr (b, Some p1, m1))"
    "pl_free_in B (p1, m1) fs" "pool_budget (Suc n) p1" "b \<in> B" "b \<notin> set fs" "b \<noteq> NULL"
    using pool_alloc_free [OF p(2)] p(3) by metis
  obtain p2 m2 cs where f: "pool_free (Some p1) b m1 = Inr (Some p2, m2, cs)" "pl_free_in B (p2, m2) (fs @ [b])"
    using pool_free_free [OF a(2,4,5,3)] by metis
  have d: "pool_free (Some p2) b m2 = Inl Assert_Failed" by (rule pool_free_twice [OF f(2)]) simp
  let ?w = "upd_rx (\<lambda>r. r\<lparr>rx_buffer_pool := Some p2\<rparr>) (w\<lparr>ai_rx_mem := m2\<rparr>)"
  have "dq_fifo busy (Suc cap) posts (Suc k) (ai_queues ?w (rx_worker (rx_of w)))" using q(2) by simp
  then obtain x where x: "aio_post (rx_worker (rx_of w)) (fn_rx F) 0 ?w =
      Some (Inr (True, ?w\<lparr>ai_queues := (ai_queues ?w)(rx_worker (rx_of w) := x)\<rparr>))"
    using aio_post_room [OF q(1)] by metis
  show ?thesis
    using up io p(1) a(1,6) f(1) d x
    by (simp add: rx_f_def rx_body_def rx_read_def asyncio_release_rx_buffer_def Let_def)
qed

section \<open>Creation\<close>

definition aio_params_ok :: "asyncio_create_params \<Rightarrow> bool" where
  "aio_params_ok ps \<longleftrightarrow>
     cp_instance ps \<noteq> NULL \<and> (cp_read_f ps = NULL \<longleftrightarrow> cp_rx_callback ps = NULL) \<and>
     (cp_rx_worker ps \<noteq> NULL \<and> cp_read_f ps \<noteq> NULL \<or> cp_tx_worker ps \<noteq> NULL \<and> cp_write_f ps \<noteq> NULL)"

definition aio_blank :: "'c aio \<Rightarrow> bool" where
  "aio_blank w \<longleftrightarrow>
     rx_init_state (rx_of w) = AsyncioUninitialized \<and> tx_init_state (tx_of w) = AsyncioUninitialized \<and>
     length (rx_thread_name (rx_of w)) = ASYNCIO_MAX_THREAD_NAME \<and>
     length (tx_thread_name (tx_of w)) = ASYNCIO_MAX_THREAD_NAME"

lemma c_string_end: "0 \<notin> set s \<Longrightarrow> c_string (s @ 0 # r) = s"
  unfolding c_string_def by (metis (mono_tags, lifting) takeWhile_tail takeWhile_eq_all_conv)

lemma name_short:
  fixes buf :: ctext
  assumes "length buf = 40" and "length s < 37" and "0 \<notin> set s" and "length sx = 2" and "0 \<notin> set sx"
  obtains n1 n2 where "strncpy buf s 37 = Inr n1" "strcat n1 sx = Inr n2" "c_string n2 = s @ sx" "length n2 = 40"
proof -
  let ?n1 = "s @ 0 # replicate (36 - length s) 0 @ drop 37 buf"
  have "37 - length s = Suc (36 - length s)" using assms(2) by simp
  then have 1: "strncpy buf s 37 = Inr ?n1" using assms(1,2) by (simp add: strncpy_ok)
  have l: "length ?n1 = 40" "c_string ?n1 = s" using assms(1-3) by (simp_all add: c_string_end)
  let ?n2 = "splice ?n1 (length s) (sx @ [0])"
  have 2: "strcat ?n1 sx = Inr ?n2" using assms(2,4) l unfolding strcat_def by simp
  have "?n2 = (s @ sx) @ 0 # drop (length s + 3) ?n1" using assms(4) by (simp add: splice_def)
  then have "c_string ?n2 = s @ sx" using assms(3,5) by (metis c_string_end UnE set_append)
  moreover have "length ?n2 = 40" using l(1) assms(2,4) by (intro length_splice [THEN trans]) simp_all
  ultimately show ?thesis using 1 2 that by blast
qed

lemma name_long:
  assumes "37 \<le> length s" and "0 \<notin> set s" and "length sx = 2" and "0 \<notin> set sx"
  shows "strncpy (replicate 40 0) s 37 = Inr (take 37 s @ [0, 0, 0])"
    and "strcat (take 37 s @ [0, 0, 0]) sx = Inr (take 37 s @ sx @ [0])"
    and "strncpy (take 37 s @ sx @ [0]) s 37 = Inr (take 37 s @ sx @ [0])"
    and "strcat (take 37 s @ sx @ [0]) sx = Inl Out_Of_Bounds"
proof -
  have s: "0 \<notin> set (take 37 s)" "length (take 37 s) = 37" using assms(1,2) by (auto dest: in_set_takeD)
  have "replicate (40 - 37) (0 :: u8) = [0, 0, 0]" by (simp add: numeral_3_eq_3)
  then show "strncpy (replicate 40 0) s 37 = Inr (take 37 s @ [0, 0, 0])" using assms(1) by (simp add: strncpy_ok)
  have "c_string (take 37 s @ [0, 0, 0]) = take 37 s" using s(1) by (rule c_string_end)
  then show "strcat (take 37 s @ [0, 0, 0]) sx = Inr (take 37 s @ sx @ [0])"
    using s(2) assms(3) by (simp add: strcat_def memcpy_to_def splice_def)
  show "strncpy (take 37 s @ sx @ [0]) s 37 = Inr (take 37 s @ sx @ [0])" using assms(1,3) by (simp add: strncpy_ok)
  have "0 \<notin> set (take 37 s @ sx)" using s(1) assms(4) by auto
  then have "c_string (take 37 s @ sx @ [0]) = take 37 s @ sx" using c_string_end [of "take 37 s @ sx" "[]"] by simp
  then show "strcat (take 37 s @ sx @ [0]) sx = Inl Out_Of_Bounds"
    using s(2) assms(3) by (simp add: strcat_def memcpy_to_def)
qed

lemma suffix_ok: "length (map of_char ''Rx'' :: ctext) = 2" "0 \<notin> set (map of_char ''Rx'' :: ctext)"
  "length (map of_char ''Tx'' :: ctext) = 2" "0 \<notin> set (map of_char ''Tx'' :: ctext)"
  by simp_all

text \<open>
  (functional) With proper parameters and a name of fewer than 37 characters an instance that is not
  running is (re)configured: it is marked as stopped and free of errors, both sides have the workers,
  the pools and the functions of the parameters, and their threads the name with the suffix of the
  side; the states of the stream and its sides are left as they are.
\<close>

theorem asyncio_create_instance_ok:
  fixes w :: "'c aio"
  assumes ok: "aio_params_ok ps" "aio_blank w" and name: "length (cp_stream_name ps) < 37" "0 \<notin> set (cp_stream_name ps)"
  shows "\<exists>w'. asyncio_create_instance ps 0 0 w = Inr (cp_instance ps, w') \<and> aio_blank w' \<and>
    stream_stopped (ai_inst w') \<and> \<not> is_in_error (ai_inst w') \<and> ef_val (as_event_flag (ai_inst w')) = 0 \<and>
    as_init_state (ai_inst w') = as_init_state (ai_inst w) \<and>
    (rx_worker (rx_of w'), rx_pool_params (rx_of w'), rx_callback (rx_of w'), f_stream_interface_read (ai_inst w')) =
      (cp_rx_worker ps, cp_rx_pool_params ps, cp_rx_callback ps, cp_read_f ps) \<and>
    (tx_worker (tx_of w'), tx_pool_params (tx_of w'), asyncio_tx_token_get_max_data_size w',
       f_stream_interface_write (ai_inst w')) =
      (cp_tx_worker ps, cp_tx_pool_params ps, cp_tx_max_chunk_size ps, cp_write_f ps) \<and>
    c_string (rx_thread_name (rx_of w')) = cp_stream_name ps @ map of_char ''Rx'' \<and>
    c_string (tx_thread_name (tx_of w')) = cp_stream_name ps @ map of_char ''Tx''"
proof -
  have b: "length (rx_thread_name (rx_of w)) = 40" "length (tx_thread_name (tx_of w)) = 40"
    using ok(2) by (simp_all add: aio_blank_def ASYNCIO_MAX_THREAD_NAME_def)
  obtain r1 r2 where r: "strncpy (rx_thread_name (rx_of w)) (cp_stream_name ps) 37 = Inr r1"
    "strcat r1 (map of_char ''Rx'') = Inr r2" "c_string r2 = cp_stream_name ps @ map of_char ''Rx''" "length r2 = 40"
    by (rule name_short [OF b(1) name suffix_ok(1,2)])
  obtain t1 t2 where t: "strncpy (tx_thread_name (tx_of w)) (cp_stream_name ps) 37 = Inr t1"
    "strcat t1 (map of_char ''Tx'') = Inr t2" "c_string t2 = cp_stream_name ps @ map of_char ''Tx''" "length t2 = 40"
    by (rule name_short [OF b(2) name suffix_ok(3,4)])
  show ?thesis
    using ok r t
    by (auto simp: asyncio_create_instance_def asyncio_configure_rx_thread_def asyncio_configure_tx_thread_def
        pt_event_flag_new_def aio_params_ok_def aio_blank_def ASYNCIO_MAX_THREAD_NAME_def
        asyncio_tx_token_get_max_data_size_def simp del: of_char_of)
qed

text \<open>
  (error) A name of 37 characters or more is copied without its end. In an instance that was all zeros
  the end is found in the bytes behind it; when the instance is created again those bytes hold the
  suffix of the last time, and appending the suffix writes past the 40 bytes of the thread's name.
\<close>

theorem asyncio_create_again_overflows:
  fixes w :: "'c aio"
  assumes ok: "aio_params_ok ps" "aio_blank w" and name: "37 \<le> length (cp_stream_name ps)" "0 \<notin> set (cp_stream_name ps)"
    and zero: "rx_thread_name (rx_of w) = replicate 40 0" "tx_thread_name (tx_of w) = replicate 40 0"
  shows "\<exists>w'. asyncio_create_instance ps 0 0 w = Inr (cp_instance ps, w') \<and>
    asyncio_create_instance ps 0 0 w' = Inl Out_Of_Bounds"
  using ok zero name_long [OF name suffix_ok(1,2)] name_long [OF name suffix_ok(3,4)]
  by (auto simp: asyncio_create_instance_def asyncio_configure_rx_thread_def asyncio_configure_tx_thread_def
      pt_event_flag_new_def aio_params_ok_def aio_blank_def ASYNCIO_MAX_THREAD_NAME_def)

section \<open>Examples\<close>

definition aio_example_fns :: asyncio_fns where
  "aio_example_fns = \<lparr>fn_tx = 11, fn_rx = 12, fn_starter = 13, fn_finisher = 14\<rparr>"

definition aio_example_inst :: asyncio_interface_instance where
  "aio_example_inst = \<lparr>rx_task = \<lparr>rx_worker = 500, rx_pool_params = pool_example_params, rx_buffer_pool = None,
       rx_thread_name = replicate 40 0, rx_callback = 21, rx_client_data = 22, rx_init_state = AsyncioUninitialized\<rparr>,
     tx_task = \<lparr>tx_worker = NULL, tx_pool_params = pool_example_params, tx_thread_name = replicate 40 0,
       tx_buffer_pool = None, max_tx_data_chunk_size = 0, tx_write_timeout = 0, tx_buffer_offset = 0,
       tx_init_state = AsyncioUninitialized\<rparr>,
     f_stream_interface_read = 23, f_stream_interface_write = NULL, as_log_enabled = True, as_log_level = 0,
     is_in_error = False, stream_stopped = True, stream_name = map of_char ''usb'', as_event_flag = \<lparr>ef_val = 0\<rparr>,
     as_init_state = AsyncioUninitialized\<rparr>"

definition aio_example_world :: "'c \<Rightarrow> dispatch_queue \<Rightarrow> dq_mem \<Rightarrow> 'c aio" where
  "aio_example_world c q m = \<lparr>ai_self = 700, ai_inst = aio_example_inst, ai_queues = (\<lambda>_. (q, m)),
     ai_rx_mem = dm_blocks dq_example_mem, ai_tx_mem = dm_blocks dq_example_mem,
     ai_reqs = (\<lambda>_. \<lparr>req_size = 0, buffer_offset = 16, req_fn = 0, req_private = 0\<rparr>), ai_client = c\<rparr>"

lemma dq_start_fifo:
  assumes "dq_rep B self (dq_start q m) p tq fs" and "dq_budget k (dq_start q m)" and "finite B"
  shows "dq_fifo [] (length fs) [] k (q, m)"
proof -
  note r = dq_repD [OF assms(1)]
  have d: "\<not> destroying q" "card B \<le> unat (q_size tq)" "self \<notin> set (ts_contents tq)" "dq_posts self tq = []"
    using assms(1) by (auto simp: dq_rep_def dq_phase_def dq_start_def dq_posts_def split: option.splits)
  then have "ts_contents tq = []" by (cases "ts_contents tq") (auto simp: dq_posts_def split: if_splits)
  note d = d this
  have "unat (q_head tq) + k + unat (q_size tq) < 2 ^ 64" "pool_budget k p"
    using assms(2) r(1,2) by (auto simp: dq_budget_def)
  then show ?thesis
    using r d assms(3) unfolding dq_fifo_def fst_conv snd_conv
    by (intro conjI exI [of _ B] exI [of _ p] exI [of _ tq] exI [of _ fs]) (auto simp: dq_start_def)
qed

lemma dq_example_fifo:
  obtains q m where "dispatch_queue_create 500 (Some dq_example_params) dq_example_rcs 77 dq_example_mem = Inr (q, m)"
    "\<And>k. k < 2 ^ 63 \<Longrightarrow> dq_fifo [] (Suc (Suc 0)) [] k (q, m)"
proof -
  have pb: "pool_blocks (dp_pool_params dq_example_params) = [1032, 1080]"
    by (simp add: dq_example_params_def pool_example_params_def pool_block_def upt_conv_Cons)
  have "(77 :: addr) \<noteq> NULL" by simp
  from dispatch_queue_create_ok [OF dq_example_ok this, of dq_example_mem, unfolded pb] obtain q m p tq where
    c: "dispatch_queue_create 500 (Some dq_example_params) dq_example_rcs 77 dq_example_mem = Inr (q, m)"
    "dq_rep (set [1032, 1080]) 500 (dq_start q m) p tq [1032, 1080]"
    "\<And>k. k < 2 ^ 63 \<Longrightarrow> dq_budget k (dq_start q m)" by blast
  have "dq_fifo [] (Suc (Suc 0)) [] k (q, m)" if "k < 2 ^ 63" for k
    using dq_start_fifo [OF c(2) c(3) [OF that]] by simp
  with c(1) show ?thesis by (rule that)
qed

lemma pool_example_free:
  obtains p m where "pl_free_in {1032, 1080} (p, m) [1032, 1080]" "pool_budget 2 p"
proof -
  have pb: "pool_blocks pool_example_params = [1032, 1080]"
    by (simp add: pool_example_params_def pool_block_def upt_conv_Cons)
  from pool_create_rep [OF pool_example_ok, of "dm_blocks dq_example_mem"] obtain p m where
    "pl_free_in (set (pool_blocks pool_example_params)) (p, m) (pool_blocks pool_example_params)"
    "\<And>n. n < 2 ^ 63 \<Longrightarrow> pl_budget n (p, m)" by blast
  then show ?thesis using that [of p m] by (simp add: pb pl_budget_def)
qed

theorem asyncio_send_transmits_witness:
  "\<exists>(w :: nat list aio) w1 w2. asyncio_send_buffer aio_example_fns True 1032 8 31 32 w = Some (Inr (True, w1)) \<and>
    tx_f (io_of (\<lambda>f p ms c. (0, c), \<lambda>f k p ms c. (ucast k, c @ [f, unat k, p]), \<lambda>f p k c. c,
      \<lambda>f p st k pr c. c @ [f, p, unat k, pr])) 1032 w1 = Inr w2 \<and>
    ai_client w2 = [24, 8, 1048, 31, 1032, 8, 32]"
proof -
  let ?P = "(\<lambda>f p ms c. (0, c), \<lambda>f k p ms c. (ucast k, c @ [f, unat k, p]), \<lambda>f p k c. c,
      \<lambda>f p st k pr c. c @ [f, p, unat k, pr])"
  obtain q m where "\<And>k. k < 2 ^ 63 \<Longrightarrow> dq_fifo [] (Suc (Suc 0)) [] k (q, m)" by (rule dq_example_fifo) blast
  then have q: "dq_fifo [] (Suc (Suc 0)) [] (Suc 0) (q, m)" by simp
  obtain p0 m0 where "pl_free_in {1032, 1080} (p0, m0) (1032 # [1080])" "pool_budget 2 p0" by (rule pool_example_free)
  then obtain p pm where p: "pl_free_in {1032, 1080} (p, pm) [1080]" "pool_budget 2 p" using pool_alloc_free by metis
  let ?w = "upd_inst (\<lambda>i. i\<lparr>as_init_state := AsyncioInitialized, stream_stopped := False,
      f_stream_interface_write := 24, tx_task := (tx_task i)\<lparr>tx_worker := 501, tx_buffer_pool := Some p,
        max_tx_data_chunk_size := 16, tx_init_state := AsyncioInitialized\<rparr>\<rparr>) ((aio_example_world [] q m)\<lparr>ai_tx_mem := pm\<rparr>)"
  have "tx_pool {1032, 1080} [1080] (Suc 1) ?w" using p by (simp add: tx_pool_def numeral_2_eq_2)
  from asyncio_send_transmits [OF this, of 1032 8 "[]" "Suc 0" "[]" 0 aio_example_fns 31 32 ?P] q show ?thesis
    by (fastforce simp: aio_example_world_def aio_example_inst_def asyncio_tx_token_get_max_data_size_def tx_outcome_def)
qed

theorem asyncio_rx_double_release_witness:
  "\<exists>(w :: unit aio) io. io_read io = (\<lambda>f p ms w. Inr (5, w)) \<and>
    io_received io = (\<lambda>f p k w. asyncio_release_rx_buffer True p w) \<and>
    rx_f aio_example_fns io w = Some (Inl Assert_Failed)"
proof -
  obtain q m where "\<And>k. k < 2 ^ 63 \<Longrightarrow> dq_fifo [] (Suc (Suc 0)) [] k (q, m)" by (rule dq_example_fifo) blast
  then have q: "dq_fifo [] (Suc (Suc 0)) [] (Suc 0) (q, m)" by simp
  obtain p pm where p: "pl_free_in {1032, 1080} (p, pm) (1032 # [1080])" "pool_budget 2 p" by (rule pool_example_free)
  let ?w = "upd_rx (\<lambda>r. r\<lparr>rx_buffer_pool := Some p, rx_init_state := AsyncioInitialized\<rparr>)
      ((aio_example_world () q m)\<lparr>ai_rx_mem := pm\<rparr>)"
  let ?io = "\<lparr>io_read = (\<lambda>f p ms w. Inr (5, w)), io_write = (\<lambda>f k p ms w. Inr (0, w)),
      io_received = (\<lambda>f p k w. asyncio_release_rx_buffer True p w), io_sent = (\<lambda>f p st k pr w. Inr w)\<rparr>"
  have "rx_pool {1032, 1080} (1032 # [1080]) (Suc 1) ?w" using p by (simp add: rx_pool_def numeral_2_eq_2)
  from asyncio_rx_double_release [OF this, of ?io 5 "[]" "Suc 0" "[]" 0 aio_example_fns] q
  have "rx_f aio_example_fns ?io ?w = Some (Inl Assert_Failed)"
    by (simp add: aio_example_world_def aio_example_inst_def)
  then show ?thesis by (intro exI [of _ ?w] exI [of _ ?io]) simp
qed

definition aio_example_params :: "ctext \<Rightarrow> asyncio_create_params" where
  "aio_example_params name = \<lparr>cp_stream_name = name, cp_instance = 700, cp_read_f = 23, cp_write_f = 24,
     cp_rx_callback = 21, cp_client_data = 22, cp_rx_worker = 500, cp_rx_pool_params = pool_example_params,
     cp_tx_worker = 501, cp_tx_pool_params = pool_example_params, cp_tx_max_chunk_size = 16,
     cp_tx_write_timeout = 100, cp_tx_buffer_offset = 16\<rparr>"

theorem asyncio_create_instance_ok_witness:
  "\<exists>w'. asyncio_create_instance (aio_example_params (map of_char ''usb'')) 0 0
      (aio_example_world () (the (dp_queue dq_example_params)) dq_example_mem) = Inr (700, w') \<and>
    c_string (rx_thread_name (rx_of w')) = map of_char ''usbRx'' \<and> tx_worker (tx_of w') = 501"
  using asyncio_create_instance_ok [of "aio_example_params (map of_char ''usb'')"
      "aio_example_world () (the (dp_queue dq_example_params)) dq_example_mem"]
  by (fastforce simp: aio_params_ok_def aio_blank_def aio_example_params_def aio_example_world_def aio_example_inst_def
      ASYNCIO_MAX_THREAD_NAME_def)

theorem asyncio_create_again_overflows_witness:
  "\<exists>w'. asyncio_create_instance (aio_example_params (replicate 37 97)) 0 0
      (aio_example_world () (the (dp_queue dq_example_params)) dq_example_mem) = Inr (700, w') \<and>
    asyncio_create_instance (aio_example_params (replicate 37 97)) 0 0 w' = Inl Out_Of_Bounds"
  using asyncio_create_again_overflows [of "aio_example_params (replicate 37 97)"
      "aio_example_world () (the (dp_queue dq_example_params)) dq_example_mem"]
  by (simp add: aio_params_ok_def aio_blank_def aio_example_params_def aio_example_world_def aio_example_inst_def
      ASYNCIO_MAX_THREAD_NAME_def)

end
