(* ===== verification/Asyncio_Threads.thy ===== *)
theory Asyncio_Threads
  imports Asyncio
begin

text \<open>
  The functions of \<open>Asyncio\<close> as threads: the client that starts, sends and stops, and one worker for each
  side, put together again in every order. Every run is a run of \<open>Asyncio_Protocol\<close>, whose invariant
  gives the properties at the end.
\<close>

section \<open>The threads\<close>

text \<open>
  The whole system: where the client is, and for each worker its stage and the block it is running.
  The client's functions are those of \<open>io_of\<close>.
\<close>

record 'c aio_sys =
  sy_w :: "'c aio"
  sy_client :: client
  sy_stage :: "side \<Rightarrow> stage"
  sy_block :: "side \<Rightarrow> addr"

fun worker_of :: "side \<Rightarrow> 'c aio \<Rightarrow> addr" where
  "worker_of Rx w = rx_worker (rx_of w)"
| "worker_of Tx w = tx_worker (tx_of w)"

text \<open>The worker of a side takes its next block, and gives the block back when the function has returned.\<close>

definition aio_take :: "side \<Rightarrow> 'c aio \<Rightarrow> (addr \<times> dispatch_queue_post_data \<times> 'c aio) res option" where
  "aio_take t w =
     (case ai_queues w (worker_of t w) of (q, m) \<Rightarrow>
        bind_wait (worker_take q zero_timespec []) (\<lambda>(x, q').
          Some (Inr (x, dm_data m x, w\<lparr>ai_queues := (ai_queues w)(worker_of t w := (q', m))\<rparr>))))"

definition aio_release :: "side \<Rightarrow> addr \<Rightarrow> 'c aio \<Rightarrow> 'c aio res" where
  "aio_release t x w =
     (case ai_queues w (worker_of t w) of (q, m) \<Rightarrow>
        bind_res (worker_release q x m) (\<lambda>(q', m').
          Inr (w\<lparr>ai_queues := (ai_queues w)(worker_of t w := (q', m'))\<rparr>)))"

definition stage_of :: "asyncio_fns \<Rightarrow> addr \<Rightarrow> stage" where
  "stage_of F fn = (if fn = fn_starter F then Starter else if fn = fn_finisher F then Finisher else Look)"

inductive aio_client_step :: "asyncio_fns \<Rightarrow> 'c aio_sys \<Rightarrow> 'c aio_sys \<Rightarrow> bool" for F where
  C_Begin: "sy_client s = Off \<Longrightarrow> as_init_state (ai_inst (sy_w s)) = AsyncioUninitialized \<Longrightarrow>
    aio_client_step F s (s\<lparr>sy_w := set_init AsyncioInitializing (sy_w s), sy_client := Clear_Start\<rparr>)"
| C_Clear1: "sy_client s = Clear_Start \<Longrightarrow>
    aio_client_step F s (s\<lparr>sy_w := clear_flag STREAM_STARTED_FLAG (sy_w s), sy_client := Start_Rx\<rparr>)"
| C_StartRx: "sy_client s = Start_Rx \<Longrightarrow> start_rx_part F (sy_w s) = Some (Inr (True, w)) \<Longrightarrow>
    aio_client_step F s (s\<lparr>sy_w := w, sy_client := Start_Tx\<rparr>)"
| C_StartTx: "sy_client s = Start_Tx \<Longrightarrow> start_tx_part F True (sy_w s) = Some (Inr (True, w)) \<Longrightarrow>
    aio_client_step F s (s\<lparr>sy_w := w, sy_client := Wait_Start\<rparr>)"
| C_Started: "sy_client s = Wait_Start \<Longrightarrow>
    wait_flag STREAM_STARTED_FLAG 0 zero_timespec (\<lambda>_. 0) [] id (sy_w s) = Some (Inr w) \<Longrightarrow>
    aio_client_step F s (s\<lparr>sy_w := w, sy_client := On\<rparr>)"
| C_Alloc: "sy_client s = On \<Longrightarrow> asyncio_allocate_tx_token (sy_w s) = Some (Inr (p, w)) \<Longrightarrow>
    aio_client_step F s (s\<lparr>sy_w := w\<rparr>)"
| C_Send: "sy_client s = On \<Longrightarrow> asyncio_send_buffer F True token len fn pr (sy_w s) = Some (Inr (ok, w)) \<Longrightarrow>
    aio_client_step F s (s\<lparr>sy_w := w\<rparr>)"
| C_Halt: "sy_client s = On \<Longrightarrow> as_init_state (ai_inst (sy_w s)) = AsyncioInitialized \<Longrightarrow>
    aio_client_step F s (s\<lparr>sy_w := set_init AsyncioUninitializing (sy_w s), sy_client := Clear_Stop\<rparr>)"
| C_Clear2: "sy_client s = Clear_Stop \<Longrightarrow> \<not> stream_stopped (ai_inst (sy_w s)) \<Longrightarrow>
    aio_client_step F s (s\<lparr>sy_w := set_shut True
      (clear_flag STREAM_STOPPED_FLAG (sy_w s)), sy_client := Stop_Rx\<rparr>)"
| C_StopRx: "sy_client s = Stop_Rx \<Longrightarrow> asyncio_stop_rx_thread F (sy_w s) = Some (Inr w) \<Longrightarrow>
    aio_client_step F s (s\<lparr>sy_w := w, sy_client := Stop_Tx\<rparr>)"
| C_StopTx: "sy_client s = Stop_Tx \<Longrightarrow> asyncio_stop_tx_thread F (sy_w s) = Some (Inr w) \<Longrightarrow>
    aio_client_step F s (s\<lparr>sy_w := w, sy_client := Wait_Stop\<rparr>)"
| C_Stopped: "sy_client s = Wait_Stop \<Longrightarrow>
    wait_flag STREAM_STOPPED_FLAG 0 zero_timespec (\<lambda>_. 0) [] id (sy_w s) = Some (Inr w) \<Longrightarrow>
    aio_client_step F s (s\<lparr>sy_w := w, sy_client := Off\<rparr>)"

text \<open>A worker goes on to a stage, or its function returns.\<close>

definition aio_goto :: "side \<Rightarrow> stage \<Rightarrow> 'c aio_sys \<Rightarrow> 'c aio \<Rightarrow> 'c aio_sys \<Rightarrow> bool" where
  "aio_goto t g s w s' \<longleftrightarrow>
     (if g = Resting
      then \<exists>w'. aio_release t (sy_block s t) w = Inr w' \<and> s' = s\<lparr>sy_w := w', sy_stage := (sy_stage s)(t := g)\<rparr>
      else s' = s\<lparr>sy_w := w, sy_stage := (sy_stage s)(t := g)\<rparr>)"

inductive aio_worker_step :: "asyncio_fns \<Rightarrow> 'c pure_io \<Rightarrow> side \<Rightarrow> 'c aio_sys \<Rightarrow> 'c aio_sys \<Rightarrow> bool" for F P t where
  W_Take: "worker_of t (sy_w s) \<noteq> NULL \<Longrightarrow> sy_stage s t = Resting \<Longrightarrow> aio_take t (sy_w s) = Some (Inr (x, d, w)) \<Longrightarrow>
    aio_worker_step F P t s (s\<lparr>sy_w := w, sy_block := (sy_block s)(t := x),
      sy_stage := (sy_stage s)(t := stage_of F (pd_fn d))\<rparr>)"
| W_Store: "sy_stage s t = Starter \<Longrightarrow> starter_store t mutex_ok c1 c2 (sy_w s) = Inr w \<Longrightarrow>
    aio_goto t (if t = Rx then Chain else S_Check) s w s' \<Longrightarrow> aio_worker_step F P t s s'"
| W_Post1: "t = Rx \<Longrightarrow> sy_stage s t = Chain \<Longrightarrow>
    aio_post (rx_worker (rx_of (sy_w s))) (fn_rx F) 0 (sy_w s) = Some (Inr (ok, w)) \<Longrightarrow>
    aio_goto t S_Check s w s' \<Longrightarrow> aio_worker_step F P t s s'"
| W_SLoad1: "sy_stage s t = S_Check \<Longrightarrow>
    aio_goto t (if start_load_rx (sy_w s) then S_Mid else Resting) s (sy_w s) s' \<Longrightarrow> aio_worker_step F P t s s'"
| W_SLoad2: "sy_stage s t = S_Mid \<Longrightarrow>
    aio_goto t (if start_load_tx (sy_w s) then S_Commit else Resting) s (sy_w s) s' \<Longrightarrow> aio_worker_step F P t s s'"
| W_SStore: "sy_stage s t = S_Commit \<Longrightarrow> aio_goto t S_Send s (set_init AsyncioInitialized (sy_w s)) s' \<Longrightarrow>
    aio_worker_step F P t s s'"
| W_SSignal: "sy_stage s t = S_Send \<Longrightarrow> aio_goto t Resting s (send_flag STREAM_STARTED_FLAG (sy_w s)) s' \<Longrightarrow>
    aio_worker_step F P t s s'"
| W_Exchange: "sy_stage s t = Finisher \<Longrightarrow> aio_goto t F_Check s (finisher_exchange t (sy_w s)) s' \<Longrightarrow>
    aio_worker_step F P t s s'"
| W_FLoad1: "sy_stage s t = F_Check \<Longrightarrow>
    aio_goto t (if rx_init_state (rx_of (sy_w s)) = AsyncioUninitialized then F_Mid else Resting) s (sy_w s) s' \<Longrightarrow>
    aio_worker_step F P t s s'"
| W_FLoad2: "sy_stage s t = F_Mid \<Longrightarrow>
    aio_goto t (if tx_init_state (tx_of (sy_w s)) = AsyncioUninitialized then F_Commit else Resting) s (sy_w s) s' \<Longrightarrow>
    aio_worker_step F P t s s'"
| W_FStore: "sy_stage s t = F_Commit \<Longrightarrow> aio_goto t F_Send s (set_init AsyncioUninitialized (sy_w s)) s' \<Longrightarrow>
    aio_worker_step F P t s s'"
| W_FSignal: "sy_stage s t = F_Send \<Longrightarrow> aio_goto t Resting s (send_flag STREAM_STOPPED_FLAG (sy_w s)) s' \<Longrightarrow>
    aio_worker_step F P t s s'"
| W_LookRx: "t = Rx \<Longrightarrow> sy_stage s t = Look \<Longrightarrow>
    aio_goto t (if rx_init_state (rx_of (sy_w s)) = AsyncioInitialized then Reading else Resting) s (sy_w s) s' \<Longrightarrow>
    aio_worker_step F P t s s'"
| W_LookTx: "t = Tx \<Longrightarrow> sy_stage s t = Look \<Longrightarrow>
    tx_f (io_of P) (pd_arg2 (dm_data (snd (ai_queues (sy_w s) (worker_of t (sy_w s)))) (sy_block s t))) (sy_w s) = Inr w \<Longrightarrow>
    aio_goto t Resting s w s' \<Longrightarrow> aio_worker_step F P t s s'"
| W_Read: "t = Rx \<Longrightarrow> sy_stage s t = Reading \<Longrightarrow> rx_body F (io_of P) (sy_w s) = Some (Inr w) \<Longrightarrow>
    aio_goto t Resting s w s' \<Longrightarrow> aio_worker_step F P t s s'"

definition aio_step :: "asyncio_fns \<Rightarrow> 'c pure_io \<Rightarrow> 'c aio_sys \<Rightarrow> 'c aio_sys \<Rightarrow> bool" where
  "aio_step F P s s' \<longleftrightarrow> aio_client_step F s s' \<or> (\<exists>t. aio_worker_step F P t s s')"

section \<open>From the code to the protocol\<close>

fun state_of :: "side \<Rightarrow> 'c aio \<Rightarrow> asyncio_init_state" where
  "state_of Rx w = rx_init_state (rx_of w)"
| "state_of Tx w = tx_init_state (tx_of w)"

definition flagged :: "u32 \<Rightarrow> 'c aio \<Rightarrow> bool" where
  "flagged bits w \<longleftrightarrow> ef_val (as_event_flag (ai_inst w)) AND bits \<noteq> 0"

definition configured :: "'c aio \<Rightarrow> side \<Rightarrow> bool" where
  "configured w t \<longleftrightarrow> worker_of t w \<noteq> NULL"

text \<open>The abstract state, given the actions that are queued.\<close>

definition proto :: "'c aio_sys \<Rightarrow> (side \<Rightarrow> act list) \<Rightarrow> protocol" where
  "proto s qs = \<lparr>p_init = as_init_state (ai_inst (sy_w s)), p_state = (\<lambda>t. state_of t (sy_w s)),
     p_started = flagged STREAM_STARTED_FLAG (sy_w s), p_stopped = flagged STREAM_STOPPED_FLAG (sy_w s),
     p_shut = stream_stopped (ai_inst (sy_w s)), p_queue = qs, p_stage = sy_stage s, p_client = sy_client s\<rparr>"

text \<open>How an action is posted.\<close>

fun encodes :: "asyncio_fns \<Rightarrow> addr \<Rightarrow> side \<Rightarrow> act \<Rightarrow> dispatch_queue_post_data \<Rightarrow> bool" where
  "encodes F self t Start d \<longleftrightarrow>
     d = \<lparr>pd_fn = fn_starter F, pd_arg1 = self, pd_arg2 = (case t of Rx \<Rightarrow> 0 | Tx \<Rightarrow> 1)\<rparr>"
| "encodes F self t Finish d \<longleftrightarrow>
     d = \<lparr>pd_fn = fn_finisher F, pd_arg1 = self, pd_arg2 = (case t of Rx \<Rightarrow> 0 | Tx \<Rightarrow> 1)\<rparr>"
| "encodes F self t Work d \<longleftrightarrow>
     pd_fn d = (case t of Rx \<Rightarrow> fn_rx F | Tx \<Rightarrow> fn_tx F) \<and> pd_arg1 d = self"

definition fns_distinct :: "asyncio_fns \<Rightarrow> bool" where
  "fns_distinct F \<longleftrightarrow>
     fn_starter F \<noteq> fn_finisher F \<and> {fn_rx F, fn_tx F} \<inter> {fn_starter F, fn_finisher F} = {}"

definition blocks_of :: "'c aio_sys \<Rightarrow> side \<Rightarrow> addr list" where
  "blocks_of s t = (if sy_stage s t = Resting then [] else [sy_block s t])"

definition queue_sim :: "asyncio_fns \<Rightarrow> nat \<Rightarrow> 'c aio_sys \<Rightarrow> side \<Rightarrow> act list \<Rightarrow> bool" where
  "queue_sim F k s t as \<longleftrightarrow>
     (if configured (sy_w s) t
      then \<exists>cap posts. dq_fifo (blocks_of s t) cap posts k (ai_queues (sy_w s) (worker_of t (sy_w s))) \<and>
             list_all2 (encodes F (ai_self (sy_w s)) t) as posts
      else as = [] \<and> sy_stage s t = Resting)"

definition queues_sim :: "asyncio_fns \<Rightarrow> nat \<Rightarrow> 'c aio_sys \<Rightarrow> (side \<Rightarrow> act list) \<Rightarrow> bool" where
  "queues_sim F k s qs \<longleftrightarrow>
     (configured (sy_w s) Rx \<longrightarrow> worker_of Rx (sy_w s) \<noteq> worker_of Tx (sy_w s)) \<and> (\<forall>t. queue_sim F k s t (qs t))"

lemma queue_sim_mono: "queue_sim F (Suc k) s t as \<Longrightarrow> queue_sim F k s t as"
  unfolding queue_sim_def using dq_fifo_mono by (metis (no_types, lifting))

lemma queue_sim_cong:
  assumes "worker_of t (sy_w s') = worker_of t (sy_w s)" and "ai_self (sy_w s') = ai_self (sy_w s)"
    and "ai_queues (sy_w s') (worker_of t (sy_w s)) = ai_queues (sy_w s) (worker_of t (sy_w s))"
    and "sy_stage s' t = Resting \<longleftrightarrow> sy_stage s t = Resting" and "sy_block s' t = sy_block s t"
  shows "queue_sim F k s' t as = queue_sim F k s t as"
  using assms unfolding queue_sim_def configured_def blocks_of_def by simp

text \<open>Two worlds the protocol does not tell apart, except for the queues.\<close>

definition ctl :: "'c aio \<Rightarrow> asyncio_init_state \<times> asyncio_init_state \<times> asyncio_init_state \<times> event_flag \<times> bool" where
  "ctl w = (as_init_state (ai_inst w), rx_init_state (rx_of w), tx_init_state (tx_of w), as_event_flag (ai_inst w),
     stream_stopped (ai_inst w))"

definition wires :: "'c aio \<Rightarrow> addr \<times> addr \<times> addr" where
  "wires w = (ai_self w, rx_worker (rx_of w), tx_worker (tx_of w))"

lemma wires_eq:
  assumes "wires w' = wires w"
  shows "ai_self w' = ai_self w" "worker_of t w' = worker_of t w" "configured w' t = configured w t"
proof -
  show "ai_self w' = ai_self w" using assms by (simp add: wires_def)
  show "worker_of t w' = worker_of t w" using assms by (cases t) (simp_all add: wires_def)
  then show "configured w' t = configured w t" by (simp add: configured_def)
qed

lemma ctl_parts:
  assumes "ctl w' = ctl w"
  shows "as_init_state (ai_inst w') = as_init_state (ai_inst w)" "state_of t w' = state_of t w"
    "flagged b w' = flagged b w" "stream_stopped (ai_inst w') = stream_stopped (ai_inst w)"
  using assms by (cases t; simp add: ctl_def flagged_def)+

lemma ctl_eq:
  assumes "ctl w' = ctl w" and "sy_w s' = w'" and "sy_w s = w" and "sy_stage s' = sy_stage s"
    and "sy_client s' = sy_client s"
  shows "proto s' qs = proto s qs"
  using assms(2-5) ctl_parts [OF assms(1)] by (simp add: proto_def)

lemma queues_frame:
  assumes "queues_sim F k s qs" and "wires (sy_w s') = wires (sy_w s)" and "ai_queues (sy_w s') = ai_queues (sy_w s)"
    and "\<And>t. sy_stage s' t = Resting \<longleftrightarrow> sy_stage s t = Resting" and "sy_block s' = sy_block s"
  shows "queues_sim F k s' qs"
proof -
  have "queue_sim F k s' t (qs t) = queue_sim F k s t (qs t)" for t
    using assms wires_eq [OF assms(2)] by (intro queue_sim_cong) simp_all
  then show ?thesis using assms(1) wires_eq [OF assms(2)] by (simp add: queues_sim_def)
qed

lemma queues_mono: "queues_sim F (Suc k) s qs \<Longrightarrow> queues_sim F k s qs"
  unfolding queues_sim_def using queue_sim_mono by blast

lemma queues_simD: "queues_sim F k s qs \<Longrightarrow> queue_sim F k s t (qs t)"
  by (simp add: queues_sim_def)

text \<open>One side changes its queue, the other side's queue is another one.\<close>

lemma queues_change:
  assumes "queues_sim F (Suc k) s qs" and "wires (sy_w s') = wires (sy_w s)" and "configured (sy_w s) t"
    and "ai_queues (sy_w s') = (ai_queues (sy_w s))(worker_of t (sy_w s) := x)"
    and "\<And>r. r \<noteq> t \<Longrightarrow> sy_stage s' r = sy_stage s r \<and> sy_block s' r = sy_block s r"
    and "queue_sim F k s' t as"
  shows "queues_sim F k s' (qs(t := as))"
proof -
  have "queue_sim F k s' r (qs r)" if "r \<noteq> t" for r
  proof (cases "configured (sy_w s) r")
    case True
    have "worker_of r (sy_w s) \<noteq> worker_of t (sy_w s)"
      using assms(1,3) True that by (cases r; cases t) (auto simp: queues_sim_def configured_def)
    then have "queue_sim F k s' r (qs r) = queue_sim F k s r (qs r)"
      using assms(4,5) that wires_eq [OF assms(2)] by (intro queue_sim_cong) simp_all
    then show ?thesis using queue_sim_mono [OF queues_simD [OF assms(1)]] by simp
  next
    case False
    then show ?thesis
      using assms(1,5) that wires_eq [OF assms(2)] unfolding queues_sim_def queue_sim_def by metis
  qed
  then show ?thesis using assms(1,6) wires_eq [OF assms(2)] by (auto simp: queues_sim_def)
qed

lemma sim_post:
  assumes sim: "queues_sim F (Suc k) s qs" and w: "wires w = wires (sy_w s)" "ai_queues w = ai_queues (sy_w s)"
    and t: "configured (sy_w s) t"
    and post: "aio_post (worker_of t w) fn arg w = Some (Inr (ok, w'))"
    and enc: "encodes F (ai_self w) t a \<lparr>pd_fn = fn, pd_arg1 = ai_self w, pd_arg2 = arg\<rparr>"
    and s': "sy_w s' = w'" "sy_stage s' = sy_stage s" "sy_block s' = sy_block s"
  shows "queues_sim F k s' (qs(t := qs t @ [a]))" "ctl w' = ctl w" "wires w' = wires w"
proof -
  note we = wires_eq [OF w(1)]
  obtain cap posts where q: "dq_fifo (blocks_of s t) cap posts (Suc k) (ai_queues w (worker_of t w))"
    "list_all2 (encodes F (ai_self w) t) (qs t) posts"
    using queues_simD [OF sim, of t] t w we by (auto simp: queue_sim_def)
  have wk: "worker_of t w \<noteq> NULL" using t we by (simp add: configured_def)
  obtain x cap' where x: "w' = w\<lparr>ai_queues := (ai_queues w)(worker_of t w := x)\<rparr>"
    "dq_fifo (blocks_of s t) cap' (posts @ [\<lparr>pd_fn = fn, pd_arg1 = ai_self w, pd_arg2 = arg\<rparr>]) k x"
    by (rule aio_post_fifo [OF post wk q(1)])
  show c: "ctl w' = ctl w" "wires w' = wires w" using x(1) by (simp_all add: ctl_def wires_def)
  have "blocks_of s' t = blocks_of s t" using s' by (simp add: blocks_of_def)
  moreover have "list_all2 (encodes F (ai_self w) t) (qs t @ [a])
      (posts @ [\<lparr>pd_fn = fn, pd_arg1 = ai_self w, pd_arg2 = arg\<rparr>])"
    using q(2) enc by (intro list_all2_appendI) simp_all
  ultimately have "queue_sim F k s' t (qs t @ [a])"
    using x t we s' wires_eq [OF c(2)] unfolding queue_sim_def by auto
  moreover have "wires (sy_w s') = wires (sy_w s)" using c(2) w(1) s'(1) by simp
  moreover have "ai_queues (sy_w s') = (ai_queues (sy_w s))(worker_of t (sy_w s) := x)" using x(1) s'(1) w(2) we by simp
  ultimately show "queues_sim F k s' (qs(t := qs t @ [a]))"
    using sim t s' by (intro queues_change) auto
qed

lemma sim_take:
  assumes sim: "queues_sim F (Suc k) s qs" and t: "configured (sy_w s) t" "sy_stage s t = Resting"
    and take: "aio_take t (sy_w s) = Some (Inr (x, d, w))" and g: "g \<noteq> Resting"
  obtains a as where "qs t = a # as" "encodes F (ai_self (sy_w s)) t a d"
    "queues_sim F k (s\<lparr>sy_w := w, sy_block := (sy_block s)(t := x), sy_stage := (sy_stage s)(t := g)\<rparr>) (qs(t := as))"
    "ctl w = ctl (sy_w s)" "wires w = wires (sy_w s)"
proof -
  let ?wk = "worker_of t (sy_w s)"
  obtain q m where qm: "ai_queues (sy_w s) ?wk = (q, m)" by (cases "ai_queues (sy_w s) ?wk")
  obtain cap posts where f: "dq_fifo [] cap posts (Suc k) (q, m)" "list_all2 (encodes F (ai_self (sy_w s)) t) (qs t) posts"
    using queues_simD [OF sim, of t] t qm by (auto simp: queue_sim_def blocks_of_def)
  have "posts \<noteq> []" using take qm f(1) dq_fifo_empty [of cap "Suc k" q m] by (auto simp: aio_take_def)
  then obtain d' ps where ps: "posts = d' # ps" by (cases posts) auto
  then obtain a as where a: "qs t = a # as" "encodes F (ai_self (sy_w s)) t a d'"
    "list_all2 (encodes F (ai_self (sy_w s)) t) as ps" using f(2) by (auto simp: list_all2_Cons2)
  obtain y q' where y: "worker_take q zero_timespec [] = Some (Inr (y, q'))" "dm_data m y = d'"
    "dq_fifo [y] cap ps (Suc k) (q', m)"
    using dq_fifo_take [OF f(1) [unfolded ps]] by metis
  have e: "x = y" "d = d'" "w = (sy_w s)\<lparr>ai_queues := (ai_queues (sy_w s))(?wk := (q', m))\<rparr>"
    using take qm y by (auto simp: aio_take_def)
  let ?s = "s\<lparr>sy_w := w, sy_block := (sy_block s)(t := x), sy_stage := (sy_stage s)(t := g)\<rparr>"
  have w: "wires w = wires (sy_w s)" "ctl w = ctl (sy_w s)" using e(3) by (simp_all add: wires_def ctl_def)
  have "queue_sim F k ?s t as"
    using t(1) g a(3) dq_fifo_mono [OF y(3)] e wires_eq [OF w(1)]
    unfolding queue_sim_def blocks_of_def by auto
  then have "queues_sim F k ?s (qs(t := as))"
    using w(1) t(1) e(3) by (intro queues_change [OF sim]) auto
  with a(1,2) e(2) w show ?thesis by (intro that) simp_all
qed

lemma sim_release:
  assumes sim: "queues_sim F (Suc k) s qs" and t: "sy_stage s t \<noteq> Resting"
    and rel: "aio_release t (sy_block s t) (sy_w s) = Inr w"
  shows "queues_sim F k (s\<lparr>sy_w := w, sy_stage := (sy_stage s)(t := Resting)\<rparr>) qs"
    "ctl w = ctl (sy_w s)" "wires w = wires (sy_w s)"
proof -
  let ?wk = "worker_of t (sy_w s)" and ?x = "sy_block s t"
  have c: "configured (sy_w s) t" using queues_simD [OF sim, of t] t by (auto simp: queue_sim_def split: if_splits)
  obtain q m where qm: "ai_queues (sy_w s) ?wk = (q, m)" by (cases "ai_queues (sy_w s) ?wk")
  obtain cap posts where f: "dq_fifo [?x] cap posts (Suc k) (q, m)" "list_all2 (encodes F (ai_self (sy_w s)) t) (qs t) posts"
    using queues_simD [OF sim, of t] t c qm by (auto simp: queue_sim_def blocks_of_def)
  obtain q' m' where r: "worker_release q ?x m = Inr (q', m')" "dq_fifo [] (Suc cap) posts k (q', m')"
    using dq_fifo_release [OF f(1)] by metis
  then have e: "w = (sy_w s)\<lparr>ai_queues := (ai_queues (sy_w s))(?wk := (q', m'))\<rparr>"
    using rel qm by (simp add: aio_release_def)
  show w: "ctl w = ctl (sy_w s)" "wires w = wires (sy_w s)" using e by (simp_all add: wires_def ctl_def)
  let ?s = "s\<lparr>sy_w := w, sy_stage := (sy_stage s)(t := Resting)\<rparr>"
  have "queue_sim F k ?s t (qs t)"
    using c f(2) r(2) e wires_eq [OF w(2)] unfolding queue_sim_def blocks_of_def by auto
  then have "queues_sim F k ?s (qs(t := qs t))"
    using w(2) c e by (intro queues_change [OF sim]) auto
  then show "queues_sim F k ?s qs" by simp
qed

text \<open>A stage of a worker: the world changes to \<open>w\<close>, and the function goes on or returns.\<close>

lemma sim_goto:
  assumes go: "aio_goto t g s w s'" and sim: "queues_sim F (Suc k) (s\<lparr>sy_w := w\<rparr>) qs" and t: "sy_stage s t \<noteq> Resting"
  shows "queues_sim F k s' qs" "proto s' qs = at_stage (proto (s\<lparr>sy_w := w\<rparr>) qs) t g" "wires (sy_w s') = wires w"
proof -
  let ?s = "s\<lparr>sy_w := w\<rparr>"
  have "queues_sim F k s' qs \<and> proto s' qs = at_stage (proto ?s qs) t g \<and> wires (sy_w s') = wires w"
  proof (cases "g = Resting")
    case True
    then obtain w' where r: "aio_release t (sy_block ?s t) (sy_w ?s) = Inr w'"
      and s': "s' = ?s\<lparr>sy_w := w', sy_stage := (sy_stage ?s)(t := Resting)\<rparr>"
      using go by (auto simp: aio_goto_def)
    have "sy_stage ?s t \<noteq> Resting" using t by simp
    from sim_release [OF sim this r]
    have q: "queues_sim F k s' qs" "ctl w' = ctl w" "wires w' = wires w" using s' by simp_all
    have "proto s' qs = proto (?s\<lparr>sy_stage := (sy_stage ?s)(t := Resting)\<rparr>) qs"
      using q(2) s' by (intro ctl_eq) simp_all
    then show ?thesis using q s' True by (simp add: proto_def)
  next
    case False
    then have s': "s' = ?s\<lparr>sy_stage := (sy_stage ?s)(t := g)\<rparr>" using go by (simp add: aio_goto_def)
    have "queues_sim F (Suc k) s' qs"
      using s' t False by (intro queues_frame [OF sim]) auto
    then show ?thesis using s' queues_mono by (auto simp: proto_def)
  qed
  then show "queues_sim F k s' qs" "proto s' qs = at_stage (proto ?s qs) t g" "wires (sy_w s') = wires w" by simp_all
qed

section \<open>Every step of the code is a step of the protocol\<close>

lemma flag_bits:
  fixes v :: u32
  shows "(v AND - 2) AND 1 = 0" "(v AND - 3) AND 2 = 0" "(v AND - 2) AND 2 = v AND 2" "(v AND - 3) AND 1 = v AND 1"
    "(v OR 1) AND 2 = v AND 2" "(v OR 2) AND 1 = v AND 1" "(v OR 1) AND 1 = 1" "(v OR 2) AND 2 = 2"
  by (rule bit_eqI; auto simp: bit_simps numeral_2_eq_2 bit_Suc)+

lemma flagged_simps [simp]:
  "\<not> flagged STREAM_STARTED_FLAG (clear_flag STREAM_STARTED_FLAG w)"
  "\<not> flagged STREAM_STOPPED_FLAG (clear_flag STREAM_STOPPED_FLAG w)"
  "flagged STREAM_STOPPED_FLAG (clear_flag STREAM_STARTED_FLAG w) = flagged STREAM_STOPPED_FLAG w"
  "flagged STREAM_STARTED_FLAG (clear_flag STREAM_STOPPED_FLAG w) = flagged STREAM_STARTED_FLAG w"
  "flagged STREAM_STARTED_FLAG (send_flag STREAM_STARTED_FLAG w)"
  "flagged STREAM_STOPPED_FLAG (send_flag STREAM_STOPPED_FLAG w)"
  "flagged STREAM_STOPPED_FLAG (send_flag STREAM_STARTED_FLAG w) = flagged STREAM_STOPPED_FLAG w"
  "flagged STREAM_STARTED_FLAG (send_flag STREAM_STOPPED_FLAG w) = flagged STREAM_STARTED_FLAG w"
  "flagged b (set_init v w) = flagged b w"
  by (simp_all add: flagged_def clear_flag_def send_flag_def set_init_def event_flag_clear_def event_flag_send_def
      STREAM_STARTED_FLAG_def STREAM_STOPPED_FLAG_def flag_bits)

lemma ctl_simps [simp]:
  "as_init_state (ai_inst (set_init v w)) = v" "as_init_state (ai_inst (clear_flag b w)) = as_init_state (ai_inst w)"
  "as_init_state (ai_inst (send_flag b w)) = as_init_state (ai_inst w)"
  "state_of t (set_init v w) = state_of t w" "state_of t (clear_flag b w) = state_of t w"
  "state_of t (send_flag b w) = state_of t w"
  "stream_stopped (ai_inst (set_init v w)) = stream_stopped (ai_inst w)"
  "stream_stopped (ai_inst (clear_flag b w)) = stream_stopped (ai_inst w)"
  "stream_stopped (ai_inst (send_flag b w)) = stream_stopped (ai_inst w)"
  "wires (set_init v w) = wires w" "wires (clear_flag b w) = wires w" "wires (send_flag b w) = wires w"
  "ai_queues (set_init v w) = ai_queues w" "ai_queues (clear_flag b w) = ai_queues w" "ai_queues (send_flag b w) = ai_queues w"
  by (cases t; simp add: set_init_def clear_flag_def send_flag_def wires_def)+

lemma set_shut_simps [simp]:
  "state_of t (set_shut b w) = state_of t w" "flagged f (set_shut b w) = flagged f w" "wires (set_shut b w) = wires w"
  "ai_queues (set_shut b w) = ai_queues w" "stream_stopped (ai_inst (set_shut b w)) = b"
  "as_init_state (ai_inst (set_shut b w)) = as_init_state (ai_inst w)"
  by (cases t) (simp_all add: set_shut_def flagged_def wires_def)

lemma wait_flag_set:
  assumes "wait_flag bits 0 zero_timespec (\<lambda>_. 0) [] id w = Some (Inr w')"
  shows "flagged bits w" "w' = w"
proof -
  let ?f = "as_event_flag (ai_inst w)"
  have "flags_met (ef_val ?f) bits WAIT_OR"
    using assms flag_wait_loop_blocked(1) [of ?f bits WAIT_OR pt_fatal 4000]
    by (cases "flags_met (ef_val ?f) bits WAIT_OR") (simp_all add: wait_flag_def pt_event_flag_wait_def Let_def)
  then show "flagged bits w" "w' = w"
    using assms flag_wait_loop_met [of ?f bits WAIT_OR pt_fatal 4000 "[]"]
    by (simp_all add: wait_flag_def pt_event_flag_wait_def Let_def flags_met_def flags_left_def flagged_def)
qed

lemma state_of_upd [simp]:
  "state_of t (upd_rx (\<lambda>r. r\<lparr>rx_init_state := v\<rparr>) w) = (if t = Rx then v else state_of t w)"
  "state_of t (upd_tx (\<lambda>r. r\<lparr>tx_init_state := v\<rparr>) w) = (if t = Tx then v else state_of t w)"
  by (cases t; simp)+

text \<open>A change of the shared variables only.\<close>

lemma sim_scalar:
  assumes "queues_sim F (Suc k) s qs" and "client_step cfg (proto s qs) (proto s' qs)"
    and "wires (sy_w s') = wires (sy_w s)" and "ai_queues (sy_w s') = ai_queues (sy_w s)"
    and "sy_stage s' = sy_stage s" and "sy_block s' = sy_block s"
  shows "\<exists>qs'. (client_step cfg (proto s qs) (proto s' qs') \<or> proto s' qs' = proto s qs) \<and>
    queues_sim F k s' qs' \<and> wires (sy_w s') = wires (sy_w s)"
proof -
  have "queues_sim F k s' qs" using assms(3-6) by (intro queues_frame [OF queues_mono [OF assms(1)]]) simp_all
  with assms(2,3) show ?thesis by blast
qed

text \<open>A change of the shared variables to \<open>w\<close>, and then a post.\<close>

lemma sim_posted:
  fixes s s' :: "'c aio_sys" and w :: "'c aio"
  assumes sim: "queues_sim F (Suc k) s qs" and w: "wires w = wires (sy_w s)" "ai_queues w = ai_queues (sy_w s)"
    and t: "configured (sy_w s) t" and post: "aio_post (worker_of t w) fn arg w = Some (Inr (ok, w1))"
    and enc: "encodes F (ai_self w) t a \<lparr>pd_fn = fn, pd_arg1 = ai_self w, pd_arg2 = arg\<rparr>"
    and s': "wires (sy_w s') = wires w1" "ai_queues (sy_w s') = ai_queues w1"
      "sy_stage s' = sy_stage s" "sy_block s' = sy_block s"
    and step: "ctl w1 = ctl w \<Longrightarrow> client_step cfg (proto s qs) (proto s' (qs(t := qs t @ [a])))"
  shows "\<exists>qs'. (client_step cfg (proto s qs) (proto s' qs') \<or> proto s' qs' = proto s qs) \<and>
    queues_sim F k s' qs' \<and> wires (sy_w s') = wires (sy_w s)"
proof -
  let ?s = "s\<lparr>sy_w := w1\<rparr>"
  have p: "queues_sim F k ?s (qs(t := qs t @ [a]))" "ctl w1 = ctl w" "wires w1 = wires w"
    using sim_post [OF sim w t post enc, where s' = ?s] by simp_all
  have "queues_sim F k s' (qs(t := qs t @ [a]))" using s' by (intro queues_frame [OF p(1)]) simp_all
  moreover have "client_step cfg (proto s qs) (proto s' (qs(t := qs t @ [a])))" using step p(2) by simp
  ultimately show ?thesis using p(3) w(1) s'(1) by auto
qed

lemma start_rx_partD:
  assumes "start_rx_part F w = Some (Inr (r, w'))" and "configured w Rx"
  obtains ok where "aio_post (worker_of Rx w) (fn_starter F) 0 (upd_rx (\<lambda>r. r\<lparr>rx_init_state := AsyncioInitializing\<rparr>) w) =
    Some (Inr (ok, w'))"
  using assms by (auto simp: start_rx_part_def asyncio_start_rx_thread_def configured_def res_simps split: if_splits)

lemma start_tx_partD:
  assumes "start_tx_part F True w = Some (Inr (r, w'))" and "configured w Tx"
  obtains ok w1 where "aio_post (worker_of Tx w) (fn_starter F) 1 (upd_tx (\<lambda>r. r\<lparr>tx_init_state := AsyncioInitializing\<rparr>) w) =
    Some (Inr (ok, w1))" "w' = set_shut False w1"
  using assms by (auto simp: start_tx_part_def asyncio_start_tx_thread_def configured_def res_simps split: if_splits)

lemma stop_rx_threadD:
  assumes "asyncio_stop_rx_thread F w = Some (Inr w')"
  shows "state_of Rx w = AsyncioInitialized \<Longrightarrow> \<exists>ok. aio_post (worker_of Rx w) (fn_finisher F) 0
      (upd_rx (\<lambda>r. r\<lparr>rx_init_state := AsyncioUninitializing\<rparr>) w) = Some (Inr (ok, w'))"
    and "state_of Rx w \<noteq> AsyncioInitialized \<Longrightarrow> w' = w"
  using assms by (auto simp: asyncio_stop_rx_thread_def Let_def res_simps split: if_splits)

lemma stop_tx_threadD:
  assumes "asyncio_stop_tx_thread F w = Some (Inr w')"
  shows "state_of Tx w = AsyncioInitialized \<Longrightarrow> \<exists>ok. aio_post (worker_of Tx w) (fn_finisher F) 1
      (upd_tx (\<lambda>r. r\<lparr>tx_init_state := AsyncioUninitializing\<rparr>) w) = Some (Inr (ok, w'))"
    and "state_of Tx w \<noteq> AsyncioInitialized \<Longrightarrow> w' = w"
  using assms by (auto simp: asyncio_stop_tx_thread_def Let_def res_simps split: if_splits)

text \<open>The steps of the client that may post.\<close>

lemma sim_start_rx:
  assumes sim: "queues_sim F (Suc k) s qs" and c: "sy_client s = Start_Rx"
    and r: "start_rx_part F (sy_w s) = Some (Inr (True, w))"
  shows "\<exists>qs'. (client_step (configured (sy_w s)) (proto s qs) (proto (s\<lparr>sy_w := w, sy_client := Start_Tx\<rparr>) qs') \<or>
      proto (s\<lparr>sy_w := w, sy_client := Start_Tx\<rparr>) qs' = proto s qs) \<and>
    queues_sim F k (s\<lparr>sy_w := w, sy_client := Start_Tx\<rparr>) qs' \<and>
    wires (sy_w (s\<lparr>sy_w := w, sy_client := Start_Tx\<rparr>)) = wires (sy_w s)"
proof (cases "configured (sy_w s) Rx")
  case True
  let ?w = "upd_rx (\<lambda>r. r\<lparr>rx_init_state := AsyncioInitializing\<rparr>) (sy_w s)"
  obtain ok where p: "aio_post (worker_of Rx ?w) (fn_starter F) 0 ?w = Some (Inr (ok, w))"
    using start_rx_partD [OF r True] by auto
  show ?thesis
  proof (rule sim_posted [OF sim _ _ True p, of Start])
    assume "ctl w = ctl ?w"
    note e = ctl_parts [OF this]
    show "client_step (configured (sy_w s)) (proto s qs)
        (proto (s\<lparr>sy_w := w, sy_client := Start_Tx\<rparr>) (qs(Rx := qs Rx @ [Start])))"
      using StartRx [of "proto s qs" "configured (sy_w s)"] c True e
      by (simp add: proto_def start_side_def fun_upd_def flagged_def)
  qed (simp_all add: wires_def)
next
  case False
  then have "w = sy_w s" using r by (simp add: start_rx_part_def configured_def)
  then show ?thesis
    using StartRx [of "proto s qs" "configured (sy_w s)"] c False
    by (intro sim_scalar [OF sim]) (simp_all add: proto_def start_side_def)
qed

lemma sim_start_tx:
  assumes sim: "queues_sim F (Suc k) s qs" and c: "sy_client s = Start_Tx"
    and r: "start_tx_part F True (sy_w s) = Some (Inr (True, w))"
  shows "\<exists>qs'. (client_step (configured (sy_w s)) (proto s qs) (proto (s\<lparr>sy_w := w, sy_client := Wait_Start\<rparr>) qs') \<or>
      proto (s\<lparr>sy_w := w, sy_client := Wait_Start\<rparr>) qs' = proto s qs) \<and>
    queues_sim F k (s\<lparr>sy_w := w, sy_client := Wait_Start\<rparr>) qs' \<and>
    wires (sy_w (s\<lparr>sy_w := w, sy_client := Wait_Start\<rparr>)) = wires (sy_w s)"
proof (cases "configured (sy_w s) Tx")
  case True
  let ?w = "upd_tx (\<lambda>r. r\<lparr>tx_init_state := AsyncioInitializing\<rparr>) (sy_w s)"
  obtain ok w1 where p: "aio_post (worker_of Tx ?w) (fn_starter F) 1 ?w = Some (Inr (ok, w1))"
    and w: "w = set_shut False w1"
    using start_tx_partD [OF r True] by auto
  have "state_of t w = state_of t w1" for t using w by (cases t) simp_all
  then have f: "flagged b w = flagged b w1" "state_of t w = state_of t w1"
    "as_init_state (ai_inst w) = as_init_state (ai_inst w1)" for b t using w by simp_all
  show ?thesis
  proof (rule sim_posted [OF sim _ _ True p, of Start])
    assume "ctl w1 = ctl ?w"
    note e = ctl_parts [OF this]
    show "client_step (configured (sy_w s)) (proto s qs)
        (proto (s\<lparr>sy_w := w, sy_client := Wait_Start\<rparr>) (qs(Tx := qs Tx @ [Start])))"
      using StartTx [of "proto s qs" "configured (sy_w s)"] c True e f w
      by (simp add: proto_def start_side_def fun_upd_def flagged_def)
  qed (simp_all add: w, simp_all add: wires_def)
next
  case False
  then have w: "w = set_shut False (sy_w s)"
    using r by (simp add: start_tx_part_def configured_def)
  then show ?thesis
    using StartTx [of "proto s qs" "configured (sy_w s)"] c False
    by (intro sim_scalar [OF sim]) (simp_all add: proto_def start_side_def)
qed

lemma sim_stop_rx:
  assumes sim: "queues_sim F (Suc k) s qs" and c: "sy_client s = Stop_Rx"
    and cf: "state_of Rx (sy_w s) \<noteq> AsyncioUninitialized \<Longrightarrow> configured (sy_w s) Rx"
    and r: "asyncio_stop_rx_thread F (sy_w s) = Some (Inr w)"
  shows "\<exists>qs'. (client_step (configured (sy_w s)) (proto s qs) (proto (s\<lparr>sy_w := w, sy_client := Stop_Tx\<rparr>) qs') \<or>
      proto (s\<lparr>sy_w := w, sy_client := Stop_Tx\<rparr>) qs' = proto s qs) \<and>
    queues_sim F k (s\<lparr>sy_w := w, sy_client := Stop_Tx\<rparr>) qs' \<and>
    wires (sy_w (s\<lparr>sy_w := w, sy_client := Stop_Tx\<rparr>)) = wires (sy_w s)"
proof (cases "state_of Rx (sy_w s) = AsyncioInitialized")
  case True
  let ?w = "upd_rx (\<lambda>r. r\<lparr>rx_init_state := AsyncioUninitializing\<rparr>) (sy_w s)"
  obtain ok where p: "aio_post (worker_of Rx ?w) (fn_finisher F) 0 ?w = Some (Inr (ok, w))"
    using stop_rx_threadD(1) [OF r True] by auto
  have cfd: "configured (sy_w s) Rx" using cf True by simp
  show ?thesis
  proof (rule sim_posted [OF sim _ _ cfd p, of Finish])
    assume "ctl w = ctl ?w"
    note e = ctl_parts [OF this]
    show "client_step (configured (sy_w s)) (proto s qs)
        (proto (s\<lparr>sy_w := w, sy_client := Stop_Tx\<rparr>) (qs(Rx := qs Rx @ [Finish])))"
      using StopRx [of "proto s qs" "configured (sy_w s)"] c True e
      by (simp add: proto_def stop_side_def fun_upd_def flagged_def)
  qed (simp_all add: wires_def)
next
  case False
  then have "w = sy_w s" using stop_rx_threadD(2) [OF r] by simp
  then show ?thesis
    using StopRx [of "proto s qs" "configured (sy_w s)"] c False
    by (intro sim_scalar [OF sim]) (simp_all add: proto_def stop_side_def)
qed

lemma sim_stop_tx:
  assumes sim: "queues_sim F (Suc k) s qs" and c: "sy_client s = Stop_Tx"
    and cf: "state_of Tx (sy_w s) \<noteq> AsyncioUninitialized \<Longrightarrow> configured (sy_w s) Tx"
    and r: "asyncio_stop_tx_thread F (sy_w s) = Some (Inr w)"
  shows "\<exists>qs'. (client_step (configured (sy_w s)) (proto s qs) (proto (s\<lparr>sy_w := w, sy_client := Wait_Stop\<rparr>) qs') \<or>
      proto (s\<lparr>sy_w := w, sy_client := Wait_Stop\<rparr>) qs' = proto s qs) \<and>
    queues_sim F k (s\<lparr>sy_w := w, sy_client := Wait_Stop\<rparr>) qs' \<and>
    wires (sy_w (s\<lparr>sy_w := w, sy_client := Wait_Stop\<rparr>)) = wires (sy_w s)"
proof (cases "state_of Tx (sy_w s) = AsyncioInitialized")
  case True
  let ?w = "upd_tx (\<lambda>r. r\<lparr>tx_init_state := AsyncioUninitializing\<rparr>) (sy_w s)"
  obtain ok where p: "aio_post (worker_of Tx ?w) (fn_finisher F) 1 ?w = Some (Inr (ok, w))"
    using stop_tx_threadD(1) [OF r True] by auto
  have cfd: "configured (sy_w s) Tx" using cf True by simp
  show ?thesis
  proof (rule sim_posted [OF sim _ _ cfd p, of Finish])
    assume "ctl w = ctl ?w"
    note e = ctl_parts [OF this]
    show "client_step (configured (sy_w s)) (proto s qs)
        (proto (s\<lparr>sy_w := w, sy_client := Wait_Stop\<rparr>) (qs(Tx := qs Tx @ [Finish])))"
      using StopTx [of "proto s qs" "configured (sy_w s)"] c True e
      by (simp add: proto_def stop_side_def fun_upd_def flagged_def)
  qed (simp_all add: wires_def)
next
  case False
  then have "w = sy_w s" using stop_tx_threadD(2) [OF r] by simp
  then show ?thesis
    using StopTx [of "proto s qs" "configured (sy_w s)"] c False
    by (intro sim_scalar [OF sim]) (simp_all add: proto_def stop_side_def)
qed

lemma sim_send:
  assumes sim: "queues_sim F (Suc k) s qs" and c: "sy_client s = On"
    and cf: "state_of Tx (sy_w s) \<noteq> AsyncioUninitialized \<Longrightarrow> configured (sy_w s) Tx"
    and r: "asyncio_send_buffer F True token len fn pr (sy_w s) = Some (Inr (ok, w))"
  shows "\<exists>qs'. (client_step (configured (sy_w s)) (proto s qs) (proto (s\<lparr>sy_w := w\<rparr>) qs') \<or>
      proto (s\<lparr>sy_w := w\<rparr>) qs' = proto s qs) \<and>
    queues_sim F k (s\<lparr>sy_w := w\<rparr>) qs' \<and> wires (sy_w (s\<lparr>sy_w := w\<rparr>)) = wires (sy_w s)"
proof (cases "\<not> stream_stopped (ai_inst (sy_w s)) \<and> state_of Tx (sy_w s) = AsyncioInitialized \<and> token \<noteq> NULL \<and>
    len > 0 \<and> len < max_tx_data_chunk_size (tx_of (sy_w s))")
  case True
  let ?w = "(sy_w s)\<lparr>ai_reqs := (ai_reqs (sy_w s))(token := (ai_reqs (sy_w s) token)\<lparr>req_size := len, req_fn := fn,
      req_private := pr\<rparr>)\<rparr>"
  have p: "aio_post (worker_of Tx ?w) (fn_tx F) token ?w = Some (Inr (ok, w))"
    using r True by (simp add: asyncio_send_buffer_def)
  have st: "state_of t ?w = state_of t (sy_w s)" for t by (cases t) simp_all
  have cfd: "configured (sy_w s) Tx" using cf True by simp
  show ?thesis
  proof (rule sim_posted [OF sim _ _ cfd p, of Work])
    assume "ctl w = ctl ?w"
    note e = ctl_parts [OF this]
    show "client_step (configured (sy_w s)) (proto s qs) (proto (s\<lparr>sy_w := w\<rparr>) (qs(Tx := qs Tx @ [Work])))"
      using Send [of "proto s qs" "configured (sy_w s)"] c True e st by (simp add: proto_def flagged_def)
  qed (simp_all add: wires_def)
next
  case False
  then have "w = sy_w s" using r by (auto simp: asyncio_send_buffer_def)
  then show ?thesis using queues_mono [OF sim] by (intro exI [of _ qs]) simp
qed

lemma alloc_frame:
  assumes "asyncio_allocate_tx_token w = Some (Inr (p, w'))"
  shows "ctl w' = ctl w" "wires w' = wires w" "ai_queues w' = ai_queues w"
  using assms by (auto simp: asyncio_allocate_tx_token_def ctl_def wires_def Let_def res_simps split: if_splits)

lemma sim_client:
  assumes step: "aio_client_step F s s'" and sim: "queues_sim F (Suc k) s qs"
    and cf: "\<And>t. state_of t (sy_w s) \<noteq> AsyncioUninitialized \<Longrightarrow> configured (sy_w s) t"
  shows "\<exists>qs'. (client_step (configured (sy_w s)) (proto s qs) (proto s' qs') \<or> proto s' qs' = proto s qs) \<and>
    queues_sim F k s' qs' \<and> wires (sy_w s') = wires (sy_w s)"
  using step
proof cases
  case C_Begin
  then show ?thesis using Begin [of "proto s qs" "configured (sy_w s)"]
    by (intro sim_scalar [OF sim]) (simp_all add: proto_def)
next
  case C_Clear1
  then show ?thesis using Clear1 [of "proto s qs" "configured (sy_w s)"]
    by (intro sim_scalar [OF sim]) (simp_all add: proto_def)
next
  case (C_StartRx w)
  show ?thesis unfolding C_StartRx(1) by (rule sim_start_rx [OF sim C_StartRx(2,3)])
next
  case (C_StartTx w)
  show ?thesis unfolding C_StartTx(1) by (rule sim_start_tx [OF sim C_StartTx(2,3)])
next
  case (C_Started w)
  then show ?thesis using Started [of "proto s qs" "configured (sy_w s)"] wait_flag_set [OF C_Started(3)]
    by (intro sim_scalar [OF sim]) (simp_all add: proto_def)
next
  case (C_Alloc p w)
  have "queues_sim F k s' qs"
    using C_Alloc alloc_frame [OF C_Alloc(3)] by (intro queues_frame [OF queues_mono [OF sim]]) simp_all
  moreover have "proto s' qs = proto s qs" using alloc_frame(1) [OF C_Alloc(3)] C_Alloc by (intro ctl_eq) simp_all
  ultimately show ?thesis using alloc_frame(2) [OF C_Alloc(3)] C_Alloc(1) by auto
next
  case (C_Send token len fn pr ok w)
  show ?thesis unfolding C_Send(1) by (rule sim_send [OF sim C_Send(2) cf C_Send(3)])
next
  case C_Halt
  then show ?thesis using Halt [of "proto s qs" "configured (sy_w s)"]
    by (intro sim_scalar [OF sim]) (simp_all add: proto_def)
next
  case C_Clear2
  then show ?thesis using Clear2 [of "proto s qs" "configured (sy_w s)"]
    by (intro sim_scalar [OF sim]) (simp_all add: proto_def)
next
  case (C_StopRx w)
  show ?thesis unfolding C_StopRx(1) by (rule sim_stop_rx [OF sim C_StopRx(2) cf C_StopRx(3)])
next
  case (C_StopTx w)
  show ?thesis unfolding C_StopTx(1) by (rule sim_stop_tx [OF sim C_StopTx(2) cf C_StopTx(3)])
next
  case (C_Stopped w)
  then show ?thesis using Stopped [of "proto s qs" "configured (sy_w s)"] wait_flag_set [OF C_Stopped(3)]
    by (intro sim_scalar [OF sim]) (simp_all add: proto_def)
qed

text \<open>What the functions of the workers leave alone.\<close>

lemma starter_store_effect:
  assumes "starter_store t ok c1 c2 w = Inr w'"
  shows "wires w' = wires w" "ai_queues w' = ai_queues w" "as_init_state (ai_inst w') = as_init_state (ai_inst w)"
    "state_of r w' = (if r = t then AsyncioInitialized else state_of r w)" "flagged b w' = flagged b w"
    "stream_stopped (ai_inst w') = stream_stopped (ai_inst w)"
  using assms
  by (cases t; cases r; auto simp: starter_store_def wires_def flagged_def res_simps split: if_splits)+

lemma finisher_exchange_effect:
  shows "wires (finisher_exchange t w) = wires w" "ai_queues (finisher_exchange t w) = ai_queues w"
    "as_init_state (ai_inst (finisher_exchange t w)) = as_init_state (ai_inst w)"
    "state_of r (finisher_exchange t w) =
       (if r = t \<and> state_of t w = AsyncioUninitializing then AsyncioUninitialized else state_of r w)"
    "flagged b (finisher_exchange t w) = flagged b w"
    "stream_stopped (ai_inst (finisher_exchange t w)) = stream_stopped (ai_inst w)"
  by (cases t; cases r; simp add: finisher_exchange_def wires_def flagged_def)+

lemma tx_f_frame:
  assumes "tx_f (io_of P) p w = Inr w'"
  shows "ctl w' = ctl w" "wires w' = wires w" "ai_queues w' = ai_queues w"
  using assms
  by (cases P; auto simp: tx_f_def io_of_def ctl_def wires_def Let_def res_simps split: if_splits prod.splits)+

lemma rx_read_frame:
  assumes "rx_read (io_of P) b w = Inr w'"
  shows "ctl w' = ctl w" "wires w' = wires w" "ai_queues w' = ai_queues w"
  using assms
  by (cases P; auto simp: rx_read_def io_of_def ctl_def wires_def res_simps split: if_splits prod.splits)+

lemma rx_body_frame:
  fixes w :: "'c aio"
  assumes "rx_body F (io_of P) w = Some (Inr w')"
  obtains w1 :: "'c aio" and ok :: bool and w2 :: "'c aio" where "ctl w1 = ctl w" "wires w1 = wires w" "ai_queues w1 = ai_queues w"
    "aio_post (worker_of Rx w1) (fn_rx F) 0 w1 = Some (Inr (ok, w2))"
    "ctl w' = ctl w2" "wires w' = wires w2" "ai_queues w' = ai_queues w2"
proof -
  obtain b pl m where a: "pool_alloc (rx_buffer_pool (rx_of w)) zero_timespec [times_out] (ai_rx_mem w) = Some (Inr (b, pl, m))"
    using assms by (auto simp: rx_body_def res_simps)
  let ?w = "upd_rx (\<lambda>r. r\<lparr>rx_buffer_pool := pl\<rparr>) (w\<lparr>ai_rx_mem := m\<rparr>)"
  have w: "ctl ?w = ctl w" "wires ?w = wires w" "ai_queues ?w = ai_queues w" by (simp_all add: ctl_def wires_def)
  show ?thesis
  proof (cases "b = NULL")
    case True
    then obtain ok where "aio_post (worker_of Rx ?w) (fn_rx F) 0 ?w = Some (Inr (ok, w'))"
      using assms a by (auto simp: rx_body_def res_simps)
    then show ?thesis using w by (intro that [of ?w ok w']) simp_all
  next
    case False
    then obtain w3 ok w4 pl' m' x where r: "rx_read (io_of P) b ?w = Inr w3"
      "aio_post (rx_worker (rx_of w3)) (fn_rx F) 0 w3 = Some (Inr (ok, w4))"
      "w' = upd_rx (\<lambda>r. r\<lparr>rx_buffer_pool := pl'\<rparr>) (w4\<lparr>ai_rx_mem := m'\<rparr>)"
      using assms a by (auto simp: rx_body_def res_simps)
    show ?thesis
      using r(2) rx_read_frame [OF r(1)] w by (intro that [of w3 ok w4]) (simp_all add: r(3) ctl_def wires_def)
  qed
qed

text \<open>The stage a taken action starts in.\<close>

lemma stage_of_encodes:
  "fns_distinct F \<Longrightarrow> encodes F self t a d \<Longrightarrow> stage_of F (pd_fn d) = entry a"
  by (cases a; cases t) (auto simp: stage_of_def fns_distinct_def)

lemma entry_moving: "entry a \<noteq> Resting"
  by (cases a) simp_all

text \<open>A step of a worker that changes the world to \<open>w\<close> without a post.\<close>

lemma sim_move:
  fixes s s' :: "'c aio_sys" and w :: "'c aio"
  assumes go: "aio_goto t g s w s'" and sim: "queues_sim F (Suc (Suc k)) s qs" and t: "sy_stage s t \<noteq> Resting"
    and w: "wires w = wires (sy_w s)" "ai_queues w = ai_queues (sy_w s)"
    and step: "worker_step cfg t (proto s qs) (at_stage (proto (s\<lparr>sy_w := w\<rparr>) qs) t g)"
  shows "\<exists>qs'. worker_step cfg t (proto s qs) (proto s' qs') \<and> queues_sim F k s' qs' \<and> wires (sy_w s') = wires (sy_w s)"
proof -
  have "queues_sim F (Suc k) (s\<lparr>sy_w := w\<rparr>) qs"
    using w by (intro queues_frame [OF queues_mono [OF sim]]) simp_all
  from sim_goto [OF go this t] step w(1) show ?thesis by metis
qed

text \<open>A step of a worker that posts \<open>a\<close> to its own queue.\<close>

lemma sim_repost:
  fixes s s' :: "'c aio_sys" and w w1 w2 :: "'c aio"
  assumes go: "aio_goto t g s w s'" and sim: "queues_sim F (Suc (Suc k)) s qs" and t: "sy_stage s t \<noteq> Resting"
    and w1: "ctl w1 = ctl (sy_w s)" "wires w1 = wires (sy_w s)" "ai_queues w1 = ai_queues (sy_w s)"
    and post: "aio_post (worker_of t w1) fn arg w1 = Some (Inr (ok, w2))"
    and enc: "encodes F (ai_self w1) t a \<lparr>pd_fn = fn, pd_arg1 = ai_self w1, pd_arg2 = arg\<rparr>"
    and w: "ctl w = ctl w2" "wires w = wires w2" "ai_queues w = ai_queues w2"
    and step: "worker_step cfg t (proto s qs) (at_stage (posted (proto s qs) t a) t g)"
  shows "\<exists>qs'. worker_step cfg t (proto s qs) (proto s' qs') \<and> queues_sim F k s' qs' \<and> wires (sy_w s') = wires (sy_w s)"
proof -
  let ?qs = "qs(t := qs t @ [a])"
  have c: "configured (sy_w s) t" using queues_simD [OF sim, of t] t by (auto simp: queue_sim_def split: if_splits)
  have p: "queues_sim F (Suc k) (s\<lparr>sy_w := w2\<rparr>) ?qs" "ctl w2 = ctl w1" "wires w2 = wires w1"
    using sim_post [OF sim w1(2,3) c post enc, where s' = "s\<lparr>sy_w := w2\<rparr>"] by simp_all
  have q: "queues_sim F (Suc k) (s\<lparr>sy_w := w\<rparr>) ?qs" using w by (intro queues_frame [OF p(1)]) simp_all
  have "proto (s\<lparr>sy_w := w\<rparr>) ?qs = proto s ?qs" using w(1) w1(1) p(2) by (intro ctl_eq [of w "sy_w s"]) simp_all
  also have "\<dots> = posted (proto s qs) t a" by (simp add: proto_def)
  finally have "proto s' ?qs = at_stage (posted (proto s qs) t a) t g" using sim_goto(2) [OF go q t] by simp
  with step sim_goto(1,3) [OF go q t] w(2) p(3) w1(2) show ?thesis by metis
qed

lemma load_rx:
  "(if start_load_rx w then g else Resting) =
     (if configured w Rx \<and> state_of Rx w \<noteq> AsyncioInitialized then Resting else g)"
  by (simp add: start_load_rx_def configured_def)

lemma load_tx:
  "(if start_load_tx w then g else Resting) =
     (if configured w Tx \<and> state_of Tx w \<noteq> AsyncioInitialized then Resting else g)"
  by (simp add: start_load_tx_def configured_def)

lemma sim_worker_take:
  assumes sim: "queues_sim F (Suc k) s qs" and F: "fns_distinct F" and "worker_of t (sy_w s) \<noteq> NULL"
    and r: "sy_stage s t = Resting" and take: "aio_take t (sy_w s) = Some (Inr (x, d, w))"
    and s': "s' = s\<lparr>sy_w := w, sy_block := (sy_block s)(t := x), sy_stage := (sy_stage s)(t := stage_of F (pd_fn d))\<rparr>"
  shows "\<exists>qs'. worker_step (configured (sy_w s)) t (proto s qs) (proto s' qs') \<and> queues_sim F k s' qs' \<and>
    wires (sy_w s') = wires (sy_w s)"
proof -
  have c: "configured (sy_w s) t" using assms(3) by (simp add: configured_def)
  have "stage_of F (pd_fn d) \<noteq> Resting" by (simp add: stage_of_def)
  from sim_take [OF sim c r take this] obtain a as where
    a: "qs t = a # as" "encodes F (ai_self (sy_w s)) t a d"
    and q: "queues_sim F k s' (qs(t := as))" and w: "ctl w = ctl (sy_w s)" "wires w = wires (sy_w s)"
    using s' by metis
  have "worker_step (configured (sy_w s)) t (proto s qs) (proto s' (qs(t := as)))"
    using worker_step.Take [of "configured (sy_w s)" t "proto s qs" a as] c s' r a(1) ctl_parts [OF w(1)]
      stage_of_encodes [OF F a(2)] by (simp add: proto_def)
  with q w(2) s' show ?thesis by auto
qed

lemma sim_worker_read:
  fixes s s' :: "'c aio_sys"
  assumes sim: "queues_sim F (Suc (Suc k)) s qs" and r: "sy_stage s Rx = Reading"
    and rx: "rx_body F (io_of P) (sy_w s) = Some (Inr w)" and go: "aio_goto Rx Resting s w s'"
  shows "\<exists>qs'. worker_step (configured (sy_w s)) Rx (proto s qs) (proto s' qs') \<and> queues_sim F k s' qs' \<and>
    wires (sy_w s') = wires (sy_w s)"
proof -
  obtain w1 w2 :: "'c aio" and ok where r1: "ctl w1 = ctl (sy_w s)" "wires w1 = wires (sy_w s)" "ai_queues w1 = ai_queues (sy_w s)"
    "aio_post (worker_of Rx w1) (fn_rx F) 0 w1 = Some (Inr (ok, w2))"
    "ctl w = ctl w2" "wires w = wires w2" "ai_queues w = ai_queues w2"
    by (rule rx_body_frame [OF rx]) blast
  show ?thesis
    using r r1 Read [where s = "proto s qs" and cfg = "configured (sy_w s)"]
    by (intro sim_repost [OF go sim, of w1 "fn_rx F" 0 ok w2 Work]) (simp_all add: proto_def)
qed

lemma proto_exchange:
  "proto (s\<lparr>sy_w := finisher_exchange t (sy_w s), sy_stage := (sy_stage s)(t := F_Check)\<rparr>) qs =
    at_stage (if p_state (proto s qs) t = AsyncioUninitializing then set_state (proto s qs) t AsyncioUninitialized
              else proto s qs) t F_Check"
  by (auto simp: proto_def finisher_exchange_effect fun_eq_iff)

lemma sim_worker:
  fixes s s' :: "'c aio_sys"
  assumes step: "aio_worker_step F P t s s'" and sim: "queues_sim F (Suc (Suc k)) s qs" and F: "fns_distinct F"
  shows "\<exists>qs'. worker_step (configured (sy_w s)) t (proto s qs) (proto s' qs') \<and> queues_sim F k s' qs' \<and>
    wires (sy_w s') = wires (sy_w s)"
  using step
proof cases
  case (W_Take x d w)
  then show ?thesis using sim_worker_take [OF queues_mono [OF sim] F] by simp
next
  case (W_Store mutex_ok c1 c2 w)
  note e = starter_store_effect [OF W_Store(2)]
  show ?thesis
    using W_Store(1) Store [where s = "proto s qs" and cfg = "configured (sy_w s)" and t = t] e
    by (intro sim_move [OF W_Store(3) sim]) (simp_all add: proto_def fun_upd_def)
next
  case (W_Post1 ok w)
  then show ?thesis using Post1 [where s = "proto s qs" and cfg = "configured (sy_w s)"]
    by (intro sim_repost [OF W_Post1(4) sim, of "sy_w s" "fn_rx F" 0 ok w Work]) (simp_all add: proto_def)
next
  case W_SLoad1
  then show ?thesis using SLoad1 [where s = "proto s qs" and cfg = "configured (sy_w s)" and t = t]
    by (intro sim_move [OF W_SLoad1(2) [unfolded load_rx] sim]) (simp_all add: proto_def)
next
  case W_SLoad2
  then show ?thesis using SLoad2 [where s = "proto s qs" and cfg = "configured (sy_w s)" and t = t]
    by (intro sim_move [OF W_SLoad2(2) [unfolded load_tx] sim]) (simp_all add: proto_def)
next
  case W_SStore
  then show ?thesis using SStore [where s = "proto s qs" and cfg = "configured (sy_w s)" and t = t]
    by (intro sim_move [OF W_SStore(2) sim]) (simp_all add: proto_def)
next
  case W_SSignal
  then show ?thesis using SSignal [where s = "proto s qs" and cfg = "configured (sy_w s)" and t = t]
    by (intro sim_move [OF W_SSignal(2) sim]) (simp_all add: proto_def)
next
  case W_Exchange
  then show ?thesis
    using Exchange [where s = "proto s qs" and cfg = "configured (sy_w s)" and t = t] proto_exchange [of s t qs]
    by (intro sim_move [OF W_Exchange(2) sim]) (simp_all add: finisher_exchange_effect proto_def)
next
  case W_FLoad1
  then show ?thesis using FLoad1 [where s = "proto s qs" and cfg = "configured (sy_w s)" and t = t]
    by (intro sim_move [OF W_FLoad1(2) sim]) (simp_all add: proto_def split: if_splits)
next
  case W_FLoad2
  then show ?thesis using FLoad2 [where s = "proto s qs" and cfg = "configured (sy_w s)" and t = t]
    by (intro sim_move [OF W_FLoad2(2) sim]) (simp_all add: proto_def split: if_splits)
next
  case W_FStore
  then show ?thesis using FStore [where s = "proto s qs" and cfg = "configured (sy_w s)" and t = t]
    by (intro sim_move [OF W_FStore(2) sim]) (simp_all add: proto_def)
next
  case W_FSignal
  then show ?thesis using FSignal [where s = "proto s qs" and cfg = "configured (sy_w s)" and t = t]
    by (intro sim_move [OF W_FSignal(2) sim]) (simp_all add: proto_def)
next
  case W_LookRx
  then show ?thesis using LookRx [where s = "proto s qs" and cfg = "configured (sy_w s)"]
    by (intro sim_move [OF W_LookRx(3) sim]) (simp_all add: proto_def split: if_splits)
next
  case (W_LookTx w)
  note e = tx_f_frame [OF W_LookTx(3)]
  show ?thesis
    using W_LookTx(1,2) LookTx [where s = "proto s qs" and cfg = "configured (sy_w s)"] e ctl_parts [OF e(1)]
    by (intro sim_move [OF W_LookTx(4) sim]) (simp_all add: proto_def)
next
  case (W_Read w)
  then show ?thesis using sim_worker_read [OF sim] by simp
qed

text \<open>Every step of the threads is a step of the protocol, or one the protocol does not see.\<close>

lemma sim_step:
  fixes s s' :: "'c aio_sys"
  assumes step: "aio_step F P s s'" and sim: "queues_sim F (Suc (Suc k)) s qs" and F: "fns_distinct F"
    and inv: "pinv (configured (sy_w s)) (proto s qs)"
  shows "\<exists>qs'. (pstep (configured (sy_w s)))\<^sup>*\<^sup>* (proto s qs) (proto s' qs') \<and> queues_sim F k s' qs' \<and>
    wires (sy_w s') = wires (sy_w s)"
  using step unfolding aio_step_def
proof (elim disjE exE)
  assume c: "aio_client_step F s s'"
  have "configured (sy_w s) t" if "state_of t (sy_w s) \<noteq> AsyncioUninitialized" for t
    using live_configured [OF inv, of t] that by (simp add: proto_def)
  from sim_client [OF c queues_mono [OF sim] this] obtain qs' where
    q: "client_step (configured (sy_w s)) (proto s qs) (proto s' qs') \<or> proto s' qs' = proto s qs"
      "queues_sim F k s' qs'" "wires (sy_w s') = wires (sy_w s)" by blast
  then have "(pstep (configured (sy_w s)))\<^sup>*\<^sup>* (proto s qs) (proto s' qs')"
    by (auto simp: pstep_def intro: r_into_rtranclp)
  with q show ?thesis by blast
next
  fix t assume "aio_worker_step F P t s s'"
  from sim_worker [OF this sim F] show ?thesis unfolding pstep_def by (metis (mono_tags, lifting) r_into_rtranclp)
qed

text \<open>A stream after its creation; \<open>n\<close> steps do not wrap the counters of its queues.\<close>

definition aio_ready :: "asyncio_fns \<Rightarrow> nat \<Rightarrow> 'c aio_sys \<Rightarrow> bool" where
  "aio_ready F n s \<longleftrightarrow>
     fns_distinct F \<and> (configured (sy_w s) Rx \<or> configured (sy_w s) Tx) \<and>
     as_init_state (ai_inst (sy_w s)) = AsyncioUninitialized \<and> sy_client s = Off \<and>
     state_of Rx (sy_w s) = AsyncioUninitialized \<and> state_of Tx (sy_w s) = AsyncioUninitialized \<and>
     sy_stage s Rx = Resting \<and> sy_stage s Tx = Resting \<and> queues_sim F (2 * n) s (\<lambda>_. [])"

lemma queues_sim_le: "queues_sim F (k + d) s qs \<Longrightarrow> queues_sim F k s qs"
  by (induction d) (simp_all add: queues_mono)

lemma aio_ready_mono: "aio_ready F n s \<Longrightarrow> m \<le> n \<Longrightarrow> aio_ready F m s"
  using queues_sim_le [of F "2 * m" "2 * n - 2 * m" s "\<lambda>_. []"] by (simp add: aio_ready_def)

lemma aio_ready_fresh: "aio_ready F n s \<Longrightarrow> fresh (proto s (\<lambda>_. []))"
  by (simp add: aio_ready_def fresh_def proto_def all_side)

text \<open>
  The states reached from \<open>s0\<close>: some queued actions \<open>qs\<close> make them reachable states of the protocol, and
  \<open>n\<close> more steps do not wrap the counters.
\<close>

definition aio_inv :: "asyncio_fns \<Rightarrow> 'c aio_sys \<Rightarrow> nat \<Rightarrow> 'c aio_sys \<Rightarrow> bool" where
  "aio_inv F s0 n s \<longleftrightarrow>
     fns_distinct F \<and> (\<exists>t. configured (sy_w s0) t) \<and>
     (\<exists>qs. (pstep (configured (sy_w s0)))\<^sup>*\<^sup>* (proto s0 (\<lambda>_. [])) (proto s qs) \<and>
        pinv (configured (sy_w s0)) (proto s qs) \<and> queues_sim F (2 * n) s qs \<and> wires (sy_w s) = wires (sy_w s0))"

interpretation aios: budgeted_system "aio_step F P" "aio_inv F s0" for F P s0
proof
  fix s s' :: "'a aio_sys" and n
  assume step: "aio_step F P s s'" and inv: "aio_inv F s0 (Suc n) s"
  let ?c = "configured (sy_w s0)"
  obtain qs where q: "(pstep ?c)\<^sup>*\<^sup>* (proto s0 (\<lambda>_. [])) (proto s qs)" "pinv ?c (proto s qs)"
    "queues_sim F (2 * Suc n) s qs" "wires (sy_w s) = wires (sy_w s0)" and F: "fns_distinct F" "\<exists>t. ?c t"
    using inv unfolding aio_inv_def by blast
  have c: "configured (sy_w s) = ?c" using wires_eq(3) [OF q(4)] by (simp add: fun_eq_iff)
  have "queues_sim F (Suc (Suc (2 * n))) s qs" using q(3) by simp
  then obtain qs' where q': "(pstep ?c)\<^sup>*\<^sup>* (proto s qs) (proto s' qs')" "queues_sim F (2 * n) s' qs'"
    "wires (sy_w s') = wires (sy_w s)"
    using sim_step [OF step] q(2) F(1) c by metis
  moreover have "pinv ?c (proto s' qs')" by (rule pinv_steps [OF q'(1) F(2) q(2)])
  ultimately show "aio_inv F s0 n s'" using q(1,4) F unfolding aio_inv_def by (metis rtranclp_trans)
qed

lemma aio_ready_inv: "aio_ready F n s \<Longrightarrow> aio_inv F s n s"
  using fresh_pinv [OF aio_ready_fresh] unfolding aio_inv_def aio_ready_def by blast

lemma sim_steps:
  fixes s s' :: "'c aio_sys"
  assumes "(aio_step F P ^^ m) s s'" and "aio_ready F (m + n) s"
  shows "\<exists>qs. (pstep (configured (sy_w s)))\<^sup>*\<^sup>* (proto s (\<lambda>_. [])) (proto s' qs) \<and>
    pinv (configured (sy_w s)) (proto s' qs) \<and> queues_sim F (2 * n) s' qs \<and> wires (sy_w s') = wires (sy_w s)"
  using aios.steps_inv [OF assms(1) aio_ready_inv [OF assms(2)]] unfolding aio_inv_def by blast

section \<open>Properties\<close>


lemma queue_sim_none:
  assumes "queue_sim F k s t []" and "configured (sy_w s) t"
  shows "aio_take t (sy_w s) = None"
proof -
  let ?x = "ai_queues (sy_w s) (worker_of t (sy_w s))"
  obtain cap where "dq_fifo (blocks_of s t) cap [] k ?x" using assms by (auto simp: queue_sim_def)
  then have "worker_take (fst ?x) zero_timespec [] = None" using worker_take_blocked by (auto simp: dq_fifo_def)
  then show ?thesis by (cases ?x) (simp add: aio_take_def)
qed

lemma queue_sim_some:
  assumes "queue_sim F k s t (a # as)" and "sy_stage s t = Resting"
  shows "\<exists>x d w. aio_take t (sy_w s) = Some (Inr (x, d, w))"
proof -
  let ?x = "ai_queues (sy_w s) (worker_of t (sy_w s))"
  obtain cap d ds where "dq_fifo [] cap (d # ds) k (fst ?x, snd ?x)"
    using assms by (auto simp: queue_sim_def blocks_of_def list_all2_Cons1 split: if_splits)
  then obtain y q' where "worker_take (fst ?x) zero_timespec [] = Some (Inr (y, q'))"
    using dq_fifo_take by metis
  then show ?thesis by (cases ?x) (simp add: aio_take_def)
qed


text \<open>
  C15: (liveness) No wakeup is lost: as long as the wait of \<open>asyncio_start\<close> or of \<open>asyncio_stop\<close> has not been
  signalled, a worker is running a function or has one to take from its queue.
\<close>

theorem asyncio_wait_not_forgotten:
  assumes "aio_ready F m s" and "(aio_step F P ^^ m) s s'"
    and "sy_client s' = Wait_Start \<and> \<not> flagged STREAM_STARTED_FLAG (sy_w s') \<or>
         sy_client s' = Wait_Stop \<and> \<not> flagged STREAM_STOPPED_FLAG (sy_w s')"
  shows "\<exists>t. worker_of t (sy_w s') \<noteq> NULL \<and>
    (sy_stage s' t \<noteq> Resting \<or> (\<exists>x d w. aio_take t (sy_w s') = Some (Inr (x, d, w))))"
proof -
  have "aio_ready F (m + 0) s" using assms(1) by simp
  then obtain qs where q: "pinv (configured (sy_w s)) (proto s' qs)" "queues_sim F 0 s' qs"
    "wires (sy_w s') = wires (sy_w s)"
    using sim_steps [OF assms(2)] by (metis mult_0_right)
  obtain t where t: "configured (sy_w s) t" "sy_stage s' t \<noteq> Resting \<or> qs t \<noteq> []"
    using assms(3) start_pending [OF q(1)] stop_pending [OF q(1)] by (auto simp: proto_def)
  have "worker_of t (sy_w s') \<noteq> NULL" using t(1) wires_eq(3) [OF q(3), of t] by (simp add: configured_def)
  moreover have "\<exists>x d w. aio_take t (sy_w s') = Some (Inr (x, d, w))" if r: "sy_stage s' t = Resting"
  proof -
    obtain a as where "qs t = a # as" using t(2) r by (cases "qs t") auto
    then show ?thesis using queue_sim_some [OF _ r] queues_simD [OF q(2), of t] by metis
  qed
  ultimately show ?thesis by blast
qed

text \<open>The posts of \<open>rx_f\<close> in the queue of the receiving side.\<close>

definition rx_posts :: "asyncio_fns \<Rightarrow> 'c aio \<Rightarrow> nat" where
  "rx_posts F w =
     (case ai_queues w (rx_worker (rx_of w)) of (q, m) \<Rightarrow>
        length (filter (\<lambda>x. pd_fn (dm_data m x) = fn_rx F) (ts_contents (the (dq_queue q)))))"

lemma count_encoded:
  "list_all2 (encodes F self Rx) as ds \<Longrightarrow> fns_distinct F \<Longrightarrow>
    count_list as Work = length (filter (\<lambda>d. pd_fn d = fn_rx F) ds)"
proof (induction as ds rule: list_all2_induct)
  case (Cons a as d ds)
  then show ?case by (cases a) (auto simp: fns_distinct_def)
qed simp


section \<open>The steps and the functions\<close>

text \<open>What a worker calls for a block: the function of the post, as the code has it.\<close>

definition call_fn ::
  "asyncio_fns \<Rightarrow> 'c pure_io \<Rightarrow> side \<Rightarrow> bool \<Rightarrow> int \<Rightarrow> int \<Rightarrow> dispatch_queue_post_data \<Rightarrow> 'c aio \<Rightarrow> 'c aio res option" where
  "call_fn F P t mutex_ok c1 c2 d w =
     (if pd_fn d = fn_starter F then starter_f F mutex_ok c1 c2 (pd_arg2 d) w
      else if pd_fn d = fn_finisher F then Some (Inr (finisher_f (pd_arg2 d) w))
      else if t = Rx then rx_f F (io_of P) w
      else Some (tx_f (io_of P) (pd_arg2 d) w))"

abbreviation worker_runs :: "asyncio_fns \<Rightarrow> 'c pure_io \<Rightarrow> side \<Rightarrow> 'c aio_sys \<Rightarrow> 'c aio_sys \<Rightarrow> bool" where
  "worker_runs F P t \<equiv> (aio_worker_step F P t)\<^sup>*\<^sup>*"

text \<open>The function returns: the block is released and the worker rests.\<close>

abbreviation returned :: "side \<Rightarrow> 'c aio_sys \<Rightarrow> 'c aio \<Rightarrow> 'c aio_sys" where
  "returned t s w \<equiv> s\<lparr>sy_w := w, sy_stage := (sy_stage s)(t := Resting)\<rparr>"

lemma run_start_completion:
  assumes "sy_stage s t = S_Check" and "aio_release t (sy_block s t) (trigger_start_completion (sy_w s)) = Inr w"
  shows "worker_runs F P t s (returned t s w)"
proof -
  let ?s1 = "s\<lparr>sy_stage := (sy_stage s)(t := S_Mid)\<rparr>" and ?s2 = "s\<lparr>sy_stage := (sy_stage s)(t := S_Commit)\<rparr>"
  let ?s3 = "s\<lparr>sy_w := set_init AsyncioInitialized (sy_w s), sy_stage := (sy_stage s)(t := S_Send)\<rparr>"
  consider "\<not> start_load_rx (sy_w s)" | "start_load_rx (sy_w s)" "\<not> start_load_tx (sy_w s)"
    | "start_load_rx (sy_w s)" "start_load_tx (sy_w s)" by blast
  then show ?thesis
  proof cases
    case 1
    then have "aio_worker_step F P t s (returned t s w)"
      using assms W_SLoad1 [of s t "returned t s w" F P] by (auto simp: aio_goto_def trigger_start_completion_def)
    then show ?thesis by (rule r_into_rtranclp)
  next
    case 2
    then have "aio_worker_step F P t s ?s1" "aio_worker_step F P t ?s1 (returned t s w)"
      using assms W_SLoad1 [of s t ?s1 F P] W_SLoad2 [of ?s1 t "returned t s w" F P]
      by (auto simp: aio_goto_def trigger_start_completion_def)
    then show ?thesis by (meson converse_rtranclp_into_rtranclp r_into_rtranclp)
  next
    case 3
    then have "aio_worker_step F P t s ?s1" "aio_worker_step F P t ?s1 ?s2" "aio_worker_step F P t ?s2 ?s3"
      "aio_worker_step F P t ?s3 (returned t s w)"
      using assms W_SLoad1 [of s t ?s1 F P] W_SLoad2 [of ?s1 t ?s2 F P] W_SStore [of ?s2 t ?s3 F P]
        W_SSignal [of ?s3 t "returned t s w" F P]
      by (auto simp: aio_goto_def trigger_start_completion_def)
    then show ?thesis by (meson converse_rtranclp_into_rtranclp r_into_rtranclp)
  qed
qed

lemma run_stop_completion:
  assumes "sy_stage s t = F_Check" and "aio_release t (sy_block s t) (trigger_stop_completion (sy_w s)) = Inr w"
  shows "worker_runs F P t s (returned t s w)"
proof -
  let ?s1 = "s\<lparr>sy_stage := (sy_stage s)(t := F_Mid)\<rparr>" and ?s2 = "s\<lparr>sy_stage := (sy_stage s)(t := F_Commit)\<rparr>"
  let ?s3 = "s\<lparr>sy_w := set_init AsyncioUninitialized (sy_w s), sy_stage := (sy_stage s)(t := F_Send)\<rparr>"
  let ?rx = "rx_init_state (rx_of (sy_w s)) = AsyncioUninitialized" and ?tx = "tx_init_state (tx_of (sy_w s)) = AsyncioUninitialized"
  consider "\<not> ?rx" | ?rx "\<not> ?tx" | ?rx ?tx by blast
  then show ?thesis
  proof cases
    case 1
    then have "aio_worker_step F P t s (returned t s w)"
      using assms W_FLoad1 [of s t "returned t s w" F P] by (auto simp: aio_goto_def trigger_stop_completion_def)
    then show ?thesis by (rule r_into_rtranclp)
  next
    case 2
    then have "aio_worker_step F P t s ?s1" "aio_worker_step F P t ?s1 (returned t s w)"
      using assms W_FLoad1 [of s t ?s1 F P] W_FLoad2 [of ?s1 t "returned t s w" F P]
      by (auto simp: aio_goto_def trigger_stop_completion_def)
    then show ?thesis by (meson converse_rtranclp_into_rtranclp r_into_rtranclp)
  next
    case 3
    then have "aio_worker_step F P t s ?s1" "aio_worker_step F P t ?s1 ?s2" "aio_worker_step F P t ?s2 ?s3"
      "aio_worker_step F P t ?s3 (returned t s w)"
      using assms W_FLoad1 [of s t ?s1 F P] W_FLoad2 [of ?s1 t ?s2 F P] W_FStore [of ?s2 t ?s3 F P]
        W_FSignal [of ?s3 t "returned t s w" F P]
      by (auto simp: aio_goto_def trigger_stop_completion_def)
    then show ?thesis by (meson converse_rtranclp_into_rtranclp r_into_rtranclp)
  qed
qed

lemma run_starter:
  assumes "sy_stage s t = Starter" and "starter_f F ok c1 c2 (case t of Rx \<Rightarrow> 0 | Tx \<Rightarrow> 1) (sy_w s) = Some (Inr w)"
    and "aio_release t (sy_block s t) w = Inr w'"
  shows "worker_runs F P t s (returned t s w')"
proof (cases t)
  case Rx
  then obtain w1 b w2 where r: "starter_store Rx ok c1 c2 (sy_w s) = Inr w1"
    "aio_post (rx_worker (rx_of w1)) (fn_rx F) 0 w1 = Some (Inr (b, w2))" "w = trigger_start_completion w2"
    using assms(2) by (auto simp: starter_f_def res_simps)
  let ?s1 = "s\<lparr>sy_w := w1, sy_stage := (sy_stage s)(Rx := Chain)\<rparr>"
  let ?s2 = "s\<lparr>sy_w := w2, sy_stage := (sy_stage s)(Rx := S_Check)\<rparr>"
  have "aio_worker_step F P Rx s ?s1"
    using assms(1) Rx r(1) W_Store [of s Rx ok c1 c2 w1 ?s1 F P] by (simp add: aio_goto_def)
  moreover have "aio_worker_step F P Rx ?s1 ?s2"
    using r(2) W_Post1 [of Rx ?s1 F b w2 ?s2 P] by (simp add: aio_goto_def)
  moreover have "worker_runs F P Rx ?s2 (returned Rx s w')"
    using run_start_completion [of ?s2 Rx w' F P] assms(3) Rx r(3) by simp
  ultimately show ?thesis unfolding Rx by (meson converse_rtranclp_into_rtranclp)
next
  case Tx
  then obtain w1 where r: "starter_store Tx ok c1 c2 (sy_w s) = Inr w1" "w = trigger_start_completion w1"
    using assms(2) by (auto simp: starter_f_def res_simps)
  let ?s1 = "s\<lparr>sy_w := w1, sy_stage := (sy_stage s)(Tx := S_Check)\<rparr>"
  have "aio_worker_step F P Tx s ?s1"
    using assms(1) Tx r(1) W_Store [of s Tx ok c1 c2 w1 ?s1 F P] by (simp add: aio_goto_def)
  moreover have "worker_runs F P Tx ?s1 (returned Tx s w')"
    using run_start_completion [of ?s1 Tx w' F P] assms(3) Tx r(2) by simp
  ultimately show ?thesis unfolding Tx by (meson converse_rtranclp_into_rtranclp)
qed

lemma run_finisher:
  assumes "sy_stage s t = Finisher" and "aio_release t (sy_block s t) (finisher_f (case t of Rx \<Rightarrow> 0 | Tx \<Rightarrow> 1) (sy_w s)) = Inr w"
  shows "worker_runs F P t s (returned t s w)"
proof -
  let ?s1 = "s\<lparr>sy_w := finisher_exchange t (sy_w s), sy_stage := (sy_stage s)(t := F_Check)\<rparr>"
  have "aio_worker_step F P t s ?s1" using assms(1) W_Exchange [of s t ?s1 F P] by (simp add: aio_goto_def)
  moreover have "worker_runs F P t ?s1 (returned t s w)"
    using run_stop_completion [of ?s1 t w F P] assms(2) by (cases t) (simp_all add: finisher_f_def)
  ultimately show ?thesis by (meson converse_rtranclp_into_rtranclp)
qed

lemma run_rx_f:
  assumes "sy_stage s Rx = Look" and "rx_f F (io_of P) (sy_w s) = Some (Inr w)" and "aio_release Rx (sy_block s Rx) w = Inr w'"
  shows "worker_runs F P Rx s (returned Rx s w')"
proof (cases "rx_init_state (rx_of (sy_w s)) = AsyncioInitialized")
  case True
  let ?s1 = "s\<lparr>sy_stage := (sy_stage s)(Rx := Reading)\<rparr>"
  have "aio_worker_step F P Rx s ?s1" using assms(1) True W_LookRx [of Rx s ?s1 F P] by (simp add: aio_goto_def)
  moreover have "aio_worker_step F P Rx ?s1 (returned Rx s w')"
    using assms True W_Read [of Rx ?s1 F P w "returned Rx s w'"] by (simp add: aio_goto_def rx_f_def)
  ultimately show ?thesis by (meson converse_rtranclp_into_rtranclp r_into_rtranclp)
next
  case False
  then have "aio_worker_step F P Rx s (returned Rx s w')"
    using assms W_LookRx [of Rx s "returned Rx s w'" F P] by (simp add: aio_goto_def rx_f_def)
  then show ?thesis by (rule r_into_rtranclp)
qed


section \<open>An example run\<close>

definition aio_example :: "dispatch_queue \<Rightarrow> dq_mem \<Rightarrow> unit aio_sys" where
  "aio_example q m = \<lparr>sy_w = aio_example_world () q m, sy_client = Off, sy_stage = (\<lambda>_. Resting), sy_block = (\<lambda>_. 0)\<rparr>"

definition aio_example_io :: "unit pure_io" where
  "aio_example_io = (\<lambda>_ _ _ c. (0, c), \<lambda>_ _ _ _ c. (0, c), \<lambda>_ _ _ c. c, \<lambda>_ _ _ _ _ c. c)"

lemma aio_example_ready:
  obtains q m where "dispatch_queue_create 500 (Some dq_example_params) dq_example_rcs 77 dq_example_mem = Inr (q, m)"
    "dq_fifo [] (Suc (Suc 0)) [] 100 (q, m)" "aio_ready aio_example_fns 11 (aio_example q m)"
proof -
  obtain q m where c: "dispatch_queue_create 500 (Some dq_example_params) dq_example_rcs 77 dq_example_mem = Inr (q, m)"
    "\<And>k. k < 2 ^ 63 \<Longrightarrow> dq_fifo [] (Suc (Suc 0)) [] k (q, m)"
    by (rule dq_example_fifo) blast
  have f: "dq_fifo [] (Suc (Suc 0)) [] 100 (q, m)" "dq_fifo [] (Suc (Suc 0)) [] 22 (q, m)" using c(2) by simp_all
  have "aio_ready aio_example_fns 11 (aio_example q m)"
    using f(2)
    by (auto simp: aio_ready_def aio_example_def aio_example_world_def aio_example_inst_def aio_example_fns_def
        fns_distinct_def configured_def queues_sim_def queue_sim_def all_side blocks_of_def)
  with c(1) f(1) show ?thesis by (rule that)
qed

text \<open>The steps up to the wait, and those of the worker that end it.\<close>

lemma aio_example_waits:
  assumes q: "dq_fifo [] (Suc (Suc 0)) [] 100 (q, m)"
  obtains s' :: "unit aio_sys" and x where "(aio_step aio_example_fns P ^^ 4) (aio_example q m) s'" "sy_client s' = Wait_Start"
    "sy_stage s' = (\<lambda>_. Resting)" "\<not> flagged STREAM_STARTED_FLAG (sy_w s')"
    "ai_queues (sy_w s') = (\<lambda>_. (q, m))(500 := x)"
    "dq_fifo [] (Suc 0) [\<lparr>pd_fn = 13, pd_arg1 = 700, pd_arg2 = 0\<rparr>] 99 x"
    "sy_w s' = (sy_w (aio_example q m))\<lparr>ai_queues := ai_queues (sy_w s'),
       ai_inst := aio_example_inst\<lparr>as_init_state := AsyncioInitializing, stream_stopped := False,
         rx_task := (rx_task aio_example_inst)\<lparr>rx_init_state := AsyncioInitializing\<rparr>\<rparr>\<rparr>"
proof -
  let ?F = aio_example_fns and ?s0 = "aio_example q m"
  let ?w0 = "sy_w ?s0"
  note defs = aio_example_def aio_example_world_def aio_example_inst_def aio_example_fns_def
  let ?w2 = "clear_flag STREAM_STARTED_FLAG (set_init AsyncioInitializing ?w0)"
  let ?w3 = "upd_rx (\<lambda>r. r\<lparr>rx_init_state := AsyncioInitializing\<rparr>) ?w2"
  have "dq_fifo [] (Suc (Suc 0)) [] (Suc 99) (q, m)" using q by simp
  from dq_fifo_post [OF this, of 13 700 0 zero_timespec "[times_out]"] obtain q' m' where
    p: "dispatch_async_f (Some q) 13 700 0 zero_timespec [times_out] m = Some (Inr (True, Some q', m'))"
    "dq_fifo [] (Suc 0) [\<lparr>pd_fn = 13, pd_arg1 = 700, pd_arg2 = 0\<rparr>] 99 (q', m')" by auto
  let ?w4 = "?w3\<lparr>ai_queues := (\<lambda>_. (q, m))(500 := (q', m'))\<rparr>"
  have f: "clear_flag STREAM_STARTED_FLAG (set_init AsyncioInitializing ?w0) =
      ?w0\<lparr>ai_inst := (ai_inst ?w0)\<lparr>as_init_state := AsyncioInitializing\<rparr>\<rparr>"
    by (simp add: defs clear_flag_def set_init_def event_flag_clear_def)
  have rx: "start_rx_part ?F ?w2 = Some (Inr (True, ?w4))"
    using p(1) unfolding f
    by (simp add: start_rx_part_def asyncio_start_rx_thread_def aio_post_def defs)
  have tx: "start_tx_part ?F True ?w4 = Some (Inr (True, set_shut False ?w4))"
    unfolding f by (simp add: start_tx_part_def defs)
  let ?s1 = "?s0\<lparr>sy_w := set_init AsyncioInitializing ?w0, sy_client := Clear_Start\<rparr>"
  let ?s2 = "?s1\<lparr>sy_w := ?w2, sy_client := Start_Rx\<rparr>"
  let ?s3 = "?s2\<lparr>sy_w := ?w4, sy_client := Start_Tx\<rparr>"
  let ?s4 = "?s3\<lparr>sy_w := set_shut False ?w4, sy_client := Wait_Start\<rparr>"
  have 1: "aio_step ?F P ?s0 ?s1" using C_Begin [of ?s0 ?F] by (simp add: aio_step_def defs)
  have 2: "aio_step ?F P ?s1 ?s2" using C_Clear1 [of ?s1 ?F] by (simp add: aio_step_def)
  have 3: "aio_step ?F P ?s2 ?s3" using C_StartRx [of ?s2 ?F ?w4] rx by (simp add: aio_step_def)
  have 4: "aio_step ?F P ?s3 ?s4" using C_StartTx [of ?s3 ?F "set_shut False ?w4"] tx by (simp add: aio_step_def)
  have "(aio_step ?F P ^^ 4) ?s0 ?s4"
    using 1 2 3 4 by (auto simp: eval_nat_numeral intro!: relcomppI)
  moreover have "\<not> flagged STREAM_STARTED_FLAG (sy_w ?s4)"
    unfolding f by (simp add: flagged_def defs set_shut_def)
  ultimately show ?thesis
    using p(2) by (intro that [of ?s4 "(q', m')"]) (simp_all add: f set_shut_def, simp_all add: defs)
qed

lemma completion_run:
  assumes "sy_stage s t = S_Check" and "start_load_rx (sy_w s)" and "start_load_tx (sy_w s)"
    and "aio_release t (sy_block s t) (send_flag STREAM_STARTED_FLAG (set_init AsyncioInitialized (sy_w s))) = Inr w"
  shows "(aio_step F P ^^ 4) s (s\<lparr>sy_w := w, sy_stage := (sy_stage s)(t := Resting)\<rparr>)"
proof -
  let ?s1 = "s\<lparr>sy_stage := (sy_stage s)(t := S_Mid)\<rparr>" and ?s2 = "s\<lparr>sy_stage := (sy_stage s)(t := S_Commit)\<rparr>"
  let ?s3 = "s\<lparr>sy_w := set_init AsyncioInitialized (sy_w s), sy_stage := (sy_stage s)(t := S_Send)\<rparr>"
  let ?s4 = "s\<lparr>sy_w := w, sy_stage := (sy_stage s)(t := Resting)\<rparr>"
  have "aio_step F P s ?s1" "aio_step F P ?s1 ?s2" "aio_step F P ?s2 ?s3" "aio_step F P ?s3 ?s4"
    using assms W_SLoad1 [of s t ?s1 F P] W_SLoad2 [of ?s1 t ?s2 F P] W_SStore [of ?s2 t ?s3 F P] W_SSignal [of ?s3 t ?s4 F P]
    by (auto simp: aio_step_def aio_goto_def)
  then show ?thesis by (auto simp: eval_nat_numeral intro!: relcomppI)
qed

text \<open>The worker takes the posted \<open>starter_f\<close> and runs it.\<close>

lemma aio_example_call:
  assumes q: "dq_fifo [] (Suc (Suc 0)) [] 100 (q, m)"
  obtains s4 :: "unit aio_sys" and y w5 w6 w7 w11 where "(aio_step aio_example_fns P ^^ 4) (aio_example q m) s4"
    "sy_client s4 = Wait_Start" "sy_stage s4 = (\<lambda>_. Resting)" "worker_of Rx (sy_w s4) = 500" "ai_self (sy_w s4) = 700"
    "aio_take Rx (sy_w s4) = Some (Inr (y, \<lparr>pd_fn = 13, pd_arg1 = 700, pd_arg2 = 0\<rparr>, w5))"
    "starter_store Rx True 0 0 w5 = Inr w6"
    "aio_post (rx_worker (rx_of w6)) (fn_rx aio_example_fns) 0 w6 = Some (Inr (True, w7))"
    "start_load_rx w7" "start_load_tx w7"
    "aio_release Rx y (trigger_start_completion w7) = Inr w11"
    "wait_flag STREAM_STARTED_FLAG 0 zero_timespec (\<lambda>_. 0) [] id w11 = Some (Inr w11)"
    "worker_of Rx w11 = 500"
proof -
  let ?F = aio_example_fns
  note defs = aio_example_def aio_example_world_def aio_example_inst_def aio_example_fns_def
  obtain s4 :: "unit aio_sys" and x4 where s4: "(aio_step ?F P ^^ 4) (aio_example q m) s4" "sy_client s4 = Wait_Start"
    "sy_stage s4 = (\<lambda>_. Resting)" "ai_queues (sy_w s4) = (\<lambda>_. (q, m))(500 := x4)"
    "dq_fifo [] (Suc 0) [\<lparr>pd_fn = 13, pd_arg1 = 700, pd_arg2 = 0\<rparr>] 99 x4"
    and w4: "sy_w s4 = (sy_w (aio_example q m))\<lparr>ai_queues := ai_queues (sy_w s4),
       ai_inst := aio_example_inst\<lparr>as_init_state := AsyncioInitializing, stream_stopped := False,
         rx_task := (rx_task aio_example_inst)\<lparr>rx_init_state := AsyncioInitializing\<rparr>\<rparr>\<rparr>"
    by (rule aio_example_waits [OF q])
  obtain q4 m4 where x4: "x4 = (q4, m4)" by (cases x4)
  obtain y q5 where t: "worker_take q4 zero_timespec [] = Some (Inr (y, q5))"
    "dm_data m4 y = \<lparr>pd_fn = 13, pd_arg1 = 700, pd_arg2 = 0\<rparr>" "dq_fifo [y] (Suc 0) [] 99 (q5, m4)"
    using dq_fifo_take [OF s4(5) [unfolded x4]] by metis
  have "dq_fifo [y] (Suc 0) [] (Suc 98) (q5, m4)" using t(3) by simp
  from dq_fifo_post [OF this, of 12 700 0 zero_timespec "[times_out]"] obtain q7 m7 where
    p: "dispatch_async_f (Some q5) 12 700 0 zero_timespec [times_out] m4 = Some (Inr (True, Some q7, m7))"
    "dq_fifo [y] 0 [\<lparr>pd_fn = 12, pd_arg1 = 700, pd_arg2 = 0\<rparr>] 98 (q7, m7)" by (metis append_Nil)
  have "dq_fifo [y] 0 [\<lparr>pd_fn = 12, pd_arg1 = 700, pd_arg2 = 0\<rparr>] (Suc 97) (q7, m7)" using p(2) by simp
  then obtain q8 m8 where r: "worker_release q7 y m7 = Inr (q8, m8)" using dq_fifo_release by metis
  obtain pl pm where pc: "pool_create pool_example_params True 0 0 (dm_blocks dq_example_mem) = Inr (Some pl, True, pm)"
    by (rule pool_create_rep [OF pool_example_ok]) blast
  let ?w5 = "(sy_w s4)\<lparr>ai_queues := (ai_queues (sy_w s4))(500 := (q5, m4))\<rparr>"
  let ?w6 = "upd_rx (\<lambda>r. r\<lparr>rx_buffer_pool := Some pl, rx_init_state := AsyncioInitialized\<rparr>) (?w5\<lparr>ai_rx_mem := pm\<rparr>)"
  let ?w7 = "?w6\<lparr>ai_queues := (ai_queues ?w6)(500 := (q7, m7))\<rparr>"
  let ?wf = "send_flag STREAM_STARTED_FLAG (set_init AsyncioInitialized ?w7)"
  let ?w11 = "?wf\<lparr>ai_queues := (ai_queues ?wf)(500 := (q8, m8))\<rparr>"
  have wk: "rx_worker (rx_of (sy_w s4)) = 500" "ai_self (sy_w s4) = 700" "tx_worker (tx_of (sy_w s4)) = NULL"
    "rx_pool_params (rx_of (sy_w s4)) = pool_example_params" "ai_rx_mem (sy_w s4) = dm_blocks dq_example_mem"
    "as_event_flag (ai_inst (sy_w s4)) = \<lparr>ef_val = 0\<rparr>"
    by (subst w4, simp add: defs)+
  show ?thesis
  proof (rule that [of s4 y ?w5 ?w6 ?w7 ?w11])
    show "aio_take Rx (sy_w s4) = Some (Inr (y, \<lparr>pd_fn = 13, pd_arg1 = 700, pd_arg2 = 0\<rparr>, ?w5))"
      using t(1,2) s4(4) x4 wk by (simp add: aio_take_def)
    show "starter_store Rx True 0 0 ?w5 = Inr ?w6" using pc wk by (simp add: starter_store_def)
    show "aio_post (rx_worker (rx_of ?w6)) (fn_rx ?F) 0 ?w6 = Some (Inr (True, ?w7))"
      using p(1) wk by (simp add: aio_post_def aio_example_fns_def)
    show l: "start_load_rx ?w7" "start_load_tx ?w7" using wk by (simp_all add: start_load_rx_def start_load_tx_def)
    show "aio_release Rx y (trigger_start_completion ?w7) = Inr ?w11"
      using r wk l by (simp add: trigger_start_completion_def aio_release_def send_flag_def set_init_def)
    show "wait_flag STREAM_STARTED_FLAG 0 zero_timespec (\<lambda>_. 0) [] id ?w11 = Some (Inr ?w11)"
      using wk(6) flag_wait_loop_met [of "\<lparr>ef_val = 1\<rparr>" 1 WAIT_OR pt_fatal 4000 "[]"]
      by (simp add: wait_flag_def pt_event_flag_wait_def send_flag_def set_init_def event_flag_send_def
          STREAM_STARTED_FLAG_def flags_met_def flags_left_def)
  qed (use s4 wk in \<open>simp_all add: send_flag_def set_init_def\<close>)
qed

lemma aio_example_starts:
  assumes q: "dq_fifo [] (Suc (Suc 0)) [] 100 (q, m)"
  obtains s' :: "unit aio_sys" where "(aio_step aio_example_fns P ^^ 11) (aio_example q m) s'" "sy_client s' = Wait_Start"
    "wait_flag STREAM_STARTED_FLAG 0 zero_timespec (\<lambda>_. 0) [] id (sy_w s') = Some (Inr (sy_w s'))"
    "worker_of Rx (sy_w s') = 500"
proof -
  let ?F = aio_example_fns
  obtain s4 :: "unit aio_sys" and y w5 w6 w7 w11 where s4: "(aio_step ?F P ^^ 4) (aio_example q m) s4"
    "sy_client s4 = Wait_Start" "sy_stage s4 = (\<lambda>_. Resting)" "worker_of Rx (sy_w s4) = 500"
    and c: "aio_take Rx (sy_w s4) = Some (Inr (y, \<lparr>pd_fn = 13, pd_arg1 = 700, pd_arg2 = 0\<rparr>, w5))"
    "starter_store Rx True 0 0 w5 = Inr w6"
    "aio_post (rx_worker (rx_of w6)) (fn_rx ?F) 0 w6 = Some (Inr (True, w7))"
    "start_load_rx w7" "start_load_tx w7" "aio_release Rx y (trigger_start_completion w7) = Inr w11"
    and e: "wait_flag STREAM_STARTED_FLAG 0 zero_timespec (\<lambda>_. 0) [] id w11 = Some (Inr w11)" "worker_of Rx w11 = 500"
    by (rule aio_example_call [OF q])
  let ?s5 = "s4\<lparr>sy_w := w5, sy_block := (sy_block s4)(Rx := y), sy_stage := (sy_stage s4)(Rx := Starter)\<rparr>"
  let ?s6 = "?s5\<lparr>sy_w := w6, sy_stage := (sy_stage ?s5)(Rx := Chain)\<rparr>"
  let ?s7 = "?s6\<lparr>sy_w := w7, sy_stage := (sy_stage ?s6)(Rx := S_Check)\<rparr>"
  let ?s11 = "?s7\<lparr>sy_w := w11, sy_stage := (sy_stage ?s7)(Rx := Resting)\<rparr>"
  have "aio_step ?F P s4 ?s5"
    using W_Take [of Rx s4 y _ w5 ?F P] s4(3,4) c(1) by (auto simp: aio_step_def stage_of_def aio_example_fns_def)
  moreover have "aio_step ?F P ?s5 ?s6"
    using W_Store [of ?s5 Rx True 0 0 w6 ?s6 ?F P] c(2) by (auto simp: aio_step_def aio_goto_def)
  moreover have "aio_step ?F P ?s6 ?s7"
    using W_Post1 [of Rx ?s6 ?F True w7 ?s7 P] c(3) by (auto simp: aio_step_def aio_goto_def)
  ultimately have "(aio_step ?F P ^^ 3) s4 ?s7" by (auto simp: eval_nat_numeral intro!: relcomppI)
  moreover have "(aio_step ?F P ^^ 4) ?s7 ?s11"
    using completion_run [of ?s7 Rx w11 ?F P] c(4-6) by (simp add: trigger_start_completion_def)
  ultimately have "(aio_step ?F P ^^ (4 + (3 + 4))) (aio_example q m) ?s11" using s4(1) unfolding relpowp_add by blast
  then show ?thesis using s4(2) e by (intro that [of ?s11]) simp_all
qed




theorem asyncio_wait_not_forgotten_witness:
  "\<exists>q m s' t. dispatch_queue_create 500 (Some dq_example_params) dq_example_rcs 77 dq_example_mem = Inr (q, m) \<and>
    (aio_step aio_example_fns aio_example_io ^^ 4) (aio_example q m) s' \<and> sy_client s' = Wait_Start \<and>
    sy_stage s' = (\<lambda>_. Resting) \<and> (\<exists>x d w. aio_take t (sy_w s') = Some (Inr (x, d, w)))"
proof -
  obtain q m where e: "dispatch_queue_create 500 (Some dq_example_params) dq_example_rcs 77 dq_example_mem = Inr (q, m)"
    "dq_fifo [] (Suc (Suc 0)) [] 100 (q, m)" "aio_ready aio_example_fns 11 (aio_example q m)"
    by (rule aio_example_ready)
  have "aio_ready aio_example_fns 4 (aio_example q m)" using aio_ready_mono [OF e(3)] by simp
  moreover obtain s' where s': "(aio_step aio_example_fns aio_example_io ^^ 4) (aio_example q m) s'" "sy_client s' = Wait_Start"
    "sy_stage s' = (\<lambda>_. Resting)" "\<not> flagged STREAM_STARTED_FLAG (sy_w s')"
    by (rule aio_example_waits [OF e(2)])
  ultimately have "\<exists>t x d w. aio_take t (sy_w s') = Some (Inr (x, d, w))"
    using asyncio_wait_not_forgotten [of aio_example_fns 4 "aio_example q m" aio_example_io s'] by auto
  with e(1) s'(1-3) show ?thesis by blast
qed


end
