(* ===== verification/Stores.thy ===== *)
theory Stores
  imports State_Event_Loop Asyncio
begin

text \<open>
  The macros that declare static storage and fill in creation parameters from it. A store is a record
  of the objects the macro declares; a predicate tells that a store is declared with given sizes. The
  sizes and offsets of the structures are those of a machine with 8-byte pointers. The contents of a
  store are arbitrary. The theorems: the parameters the macros fill in are the ones the create functions
  ask for.
\<close>

section \<open>Layout\<close>

definition round_up :: "nat \<Rightarrow> nat \<Rightarrow> nat" where
  "round_up n a = (n + (a - 1)) div a * a"

lemma round_up_ge: "0 < a \<Longrightarrow> n \<le> round_up n a"
proof -
  assume a: "0 < a"
  have "n + (a - 1) = round_up n a + (n + (a - 1)) mod a" by (simp add: round_up_def)
  moreover have "(n + (a - 1)) mod a < a" using a by simp
  ultimately show ?thesis by linarith
qed

text \<open>\<open>sizeof (pool_header_t)\<close>: two 32-bit words and two pointers.\<close>

definition SIZEOF_POOL_HEADER :: nat where
  "SIZEOF_POOL_HEADER = 24"

section \<open>Queues and pools\<close>

record ts_queue_store =
  sq_num_elements :: u64
  sq_ptr_array :: "addr list"
  sq_queue :: ts_queue

definition ts_queue_store_decl :: "nat \<Rightarrow> ts_queue_store \<Rightarrow> bool" where
  "ts_queue_store_decl sz s \<longleftrightarrow> sq_num_elements s = of_nat sz \<and> length (sq_ptr_array s) = sz"

definition ts_queue_store_create_params_init :: "ts_queue_store \<Rightarrow> ts_queue_create_params" where
  "ts_queue_store_create_params_init s =
     \<lparr>tp_queue = Some (sq_queue s), tp_ptr_array = Some (sq_ptr_array s), tp_size = sq_num_elements s\<rparr>"

text \<open>An element is its header, its data at the required alignment, and the trailer.\<close>

record pool_store =
  so_elements :: addr
  so_num :: nat
  so_size :: nat
  so_align :: nat
  so_pool :: pool
  so_queue :: ts_queue_store

definition pool_store_decl :: "nat \<Rightarrow> nat \<Rightarrow> nat \<Rightarrow> pool_store \<Rightarrow> bool" where
  "pool_store_decl num sz align s \<longleftrightarrow>
     so_num s = num \<and> so_size s = sz \<and> so_align s = align \<and> ts_queue_store_decl num (so_queue s)"

definition data_offset :: "pool_store \<Rightarrow> nat" where
  "data_offset s = round_up SIZEOF_POOL_HEADER (so_align s)"

definition element_bytes :: "pool_store \<Rightarrow> nat" where
  "element_bytes s = round_up (round_up (data_offset s + so_size s) 4 + 4) (max 8 (so_align s))"

definition pool_create_init :: "pool_store \<Rightarrow> pool_create_params" where
  "pool_create_init s =
     \<lparr>pp_pool = Some (so_pool s), pp_num_of_elements = of_nat (so_num s), pp_element_size_requested = of_nat (so_size s),
      pp_total_element_size = of_nat (element_bytes s), pp_backing = so_elements s,
      pp_offset_data_from_header = data_offset s,
      pp_queue_params = Some (ts_queue_store_create_params_init (so_queue s))\<rparr>"

lemma element_bytes_ge: "data_offset s + so_size s + 4 \<le> element_bytes s"
proof -
  have "data_offset s + so_size s \<le> round_up (data_offset s + so_size s) 4" by (rule round_up_ge) simp
  also have "\<dots> + 4 \<le> element_bytes s" unfolding element_bytes_def by (rule round_up_ge) simp
  finally show ?thesis by simp
qed

text \<open>The declaration is a proper one: the store lies somewhere and its size in bytes has 32 bits.\<close>

definition pool_store_fits :: "pool_store \<Rightarrow> bool" where
  "pool_store_fits s \<longleftrightarrow> so_elements s \<noteq> NULL \<and> 0 < so_num s \<and> so_num s * element_bytes s < 2 ^ 32"

lemma pool_store_words:
  assumes "pool_store_fits s"
  shows "unat (of_nat (so_num s) :: u32) = so_num s" "unat (of_nat (element_bytes s) :: u32) = element_bytes s"
    "unat (of_nat (so_size s) :: u32) = so_size s" "unat (of_nat (so_num s) :: u64) = so_num s" "so_num s < 2 ^ 32"
    "so_size s < 2 ^ 32"
proof -
  have b: "so_num s * element_bytes s < 2 ^ 32" "1 \<le> so_num s" "1 \<le> element_bytes s"
    using assms element_bytes_ge [of s] by (auto simp: pool_store_fits_def)
  have "so_num s \<le> so_num s * element_bytes s" "element_bytes s \<le> so_num s * element_bytes s" using b(2,3) by simp_all
  then have n: "so_num s < 2 ^ 32" "element_bytes s < 2 ^ 32" using b(1) by linarith+
  then show "unat (of_nat (so_num s) :: u32) = so_num s" "unat (of_nat (element_bytes s) :: u32) = element_bytes s"
    "unat (of_nat (so_size s) :: u32) = so_size s" "unat (of_nat (so_num s) :: u64) = so_num s" "so_num s < 2 ^ 32"
    "so_size s < 2 ^ 32"
    using element_bytes_ge [of s] by (simp_all add: unat_of_nat take_bit_nat_eq_self)
qed

lemma pool_create_init_ok:
  assumes "pool_store_decl n sz align s" and "pool_store_fits s" and "power_of_2 (of_nat n)"
  shows "pool_params_ok (pool_create_init s)"
  using assms pool_store_words [OF assms(2)] element_bytes_ge [of s]
  by (auto simp: pool_params_ok_def pool_create_init_def pool_store_fits_def pool_store_decl_def ts_queue_store_decl_def
      ts_queue_store_create_params_init_def)

lemma pool_blocks_inside:
  assumes "pool_store_fits s" and "b \<in> set (pool_blocks (pool_create_init s))"
  shows "so_elements s \<le> b \<and> b < so_elements s + so_num s * element_bytes s"
proof -
  note w = pool_store_words [OF assms(1)]
  obtain i where i: "i < so_num s" "b = pool_block (pool_create_init s) i"
    using assms(2) w(1) by (auto simp: pool_create_init_def)
  have k: "Suc i * element_bytes s \<le> so_num s * element_bytes s" using i(1) by (intro mult_le_mono1) simp
  moreover have "so_num s * element_bytes s < 2 ^ 32" using assms(1) by (simp add: pool_store_fits_def)
  ultimately have "i * element_bytes s < 2 ^ 32" by simp
  then have "unat (of_nat i * of_nat (element_bytes s) :: u32) = i * element_bytes s"
    by (simp add: unat_of_nat take_bit_nat_eq_self flip: of_nat_mult)
  then have "b = so_elements s + i * element_bytes s + data_offset s"
    using i(2) by (simp add: pool_block_def pool_create_init_def)
  with k element_bytes_ge [of s] show ?thesis by simp
qed

section \<open>Tasks and dispatch queues\<close>

record task_store =
  sk_stack :: addr
  sk_stack_size :: nat
  sk_tsk :: task

definition task_static_store_decl :: "nat \<Rightarrow> task_store \<Rightarrow> bool" where
  "task_static_store_decl stack_size s \<longleftrightarrow> sk_stack_size s = stack_size"

definition task_init_create_params_from_store ::
  "task_store \<Rightarrow> u8 list option \<Rightarrow> u32 \<Rightarrow> addr \<Rightarrow> addr \<Rightarrow> task_create_params" where
  "task_init_create_params_from_store s lbl pri fn context =
     \<lparr>tc_task = Some (sk_tsk s), tc_label = lbl, tc_priority = pri, tc_func = fn, tc_ctx = context,
      tc_stack = sk_stack s, tc_stack_size = of_nat (sk_stack_size s)\<rparr>"

definition SIZEOF_POST_DATA :: nat where
  "SIZEOF_POST_DATA = 24"

record dispatch_queue_store =
  sd_self :: addr
  sd_queue :: dispatch_queue
  sd_task :: task_store
  sd_pool :: pool_store
  sd_ts :: ts_queue_store

definition dispatch_queue_store_decl :: "nat \<Rightarrow> nat \<Rightarrow> dispatch_queue_store \<Rightarrow> bool" where
  "dispatch_queue_store_decl queue_size stack_size s \<longleftrightarrow>
     task_static_store_decl stack_size (sd_task s) \<and> pool_store_decl queue_size SIZEOF_POST_DATA 4 (sd_pool s) \<and>
     ts_queue_store_decl queue_size (sd_ts s)"

definition dispatch_queue_create_params_init ::
  "dispatch_queue_store \<Rightarrow> u8 list option \<Rightarrow> u32 \<Rightarrow> dispatch_queue_create_params" where
  "dispatch_queue_create_params_init s task_name pri =
     \<lparr>dp_queue = Some (sd_queue s),
      dp_task_params = task_init_create_params_from_store (sd_task s) task_name pri NULL NULL,
      dp_pool_params = pool_create_init (sd_pool s),
      dp_queue_params = ts_queue_store_create_params_init (sd_ts s)\<rparr>"

text \<open>The objects of a store lie at addresses of their own.\<close>

definition dispatch_queue_store_fits :: "dispatch_queue_store \<Rightarrow> bool" where
  "dispatch_queue_store_fits s \<longleftrightarrow>
     pool_store_fits (sd_pool s) \<and> sd_self s \<noteq> NULL \<and>
     \<not> (so_elements (sd_pool s) \<le> sd_self s \<and>
        sd_self s < so_elements (sd_pool s) + so_num (sd_pool s) * element_bytes (sd_pool s)) \<and>
     sk_stack (sd_task s) \<noteq> NULL \<and> 0 < sk_stack_size (sd_task s) \<and> sk_stack_size (sd_task s) < 2 ^ 32"

lemma dispatch_queue_store_ok:
  assumes d: "dispatch_queue_store_decl n stack s" and f: "dispatch_queue_store_fits s" and n: "power_of_2 (of_nat n)"
  shows "dq_params_ok (sd_self s) (dispatch_queue_create_params_init s (Some task_name) pri)"
proof -
  have p: "pool_store_decl n SIZEOF_POST_DATA 4 (sd_pool s)" "pool_store_fits (sd_pool s)" "so_num (sd_pool s) = n"
    using d f by (simp_all add: dispatch_queue_store_decl_def dispatch_queue_store_fits_def pool_store_decl_def)
  note w = pool_store_words [OF p(2), unfolded p(3)]
  have "sd_self s \<notin> set (pool_blocks (pool_create_init (sd_pool s)))"
    using pool_blocks_inside [OF p(2)] f by (auto simp: dispatch_queue_store_fits_def)
  moreover have "unat (of_nat (sk_stack_size (sd_task s)) :: u32) \<noteq> 0"
    using f by (simp add: dispatch_queue_store_fits_def unat_of_nat take_bit_nat_eq_self)
  then have "(of_nat (sk_stack_size (sd_task s)) :: u32) \<noteq> 0" by (metis unat_0)
  moreover have "pool_params_ok (pool_create_init (sd_pool s))" by (rule pool_create_init_ok [OF p(1,2) n])
  moreover have "pp_num_of_elements (pool_create_init (sd_pool s)) = of_nat n" using p(3) by (simp add: pool_create_init_def)
  ultimately show ?thesis
    using d f n w
    by (simp add: dq_params_ok_def dispatch_queue_create_params_init_def task_init_create_params_from_store_def
        ts_queue_store_create_params_init_def dispatch_queue_store_decl_def dispatch_queue_store_fits_def
        ts_queue_store_decl_def)
qed

section \<open>Notifiers and event loops\<close>

record notifier_store =
  sn_array :: "addr list"
  sn_not :: notifier
  sn_pool :: pool_store
  sn_registration_size :: u64
  sn_num_of_registrations :: u32

definition notifier_store_decl :: "nat \<Rightarrow> nat \<Rightarrow> nat \<Rightarrow> notifier_store \<Rightarrow> bool" where
  "notifier_store_decl num_of_cat max_regs notif_reg_size s \<longleftrightarrow>
     pool_store_decl max_regs notif_reg_size 4 (sn_pool s) \<and> length (sn_array s) = num_of_cat \<and>
     sn_registration_size s = of_nat notif_reg_size \<and> sn_num_of_registrations s = of_nat max_regs"

text \<open>The array of lists is cleared. The name and the flag of the logger have no field in the model.\<close>

definition notifier_store_create_params_init :: "notifier_store \<Rightarrow> addr \<Rightarrow> notifier_create_params" where
  "notifier_store_create_params_init s notif_f =
     \<lparr>np_notifier = Some (sn_not s), np_notif_block_size = ucast (sn_registration_size s),
      np_max_registrations = sn_num_of_registrations s, np_notif_array = Some (replicate (length (sn_array s)) NULL),
      np_total_categories = of_nat (length (sn_array s)), np_pool_params = pool_create_init (sn_pool s),
      np_execute_f = notif_f\<rparr>"

record state_event_loop_store =
  sl_event_loop :: addr
  sl_sms :: "addr list"
  sl_dq :: dispatch_queue_store
  sl_notifier :: notifier_store
  sl_pool :: pool_store

definition state_event_loop_store_decl ::
  "nat \<Rightarrow> nat \<Rightarrow> nat \<Rightarrow> nat \<Rightarrow> nat \<Rightarrow> nat \<Rightarrow> nat \<Rightarrow> state_event_loop_store \<Rightarrow> bool" where
  "state_event_loop_store_decl num_sm queue_size max_registrations max_event_id stack_size size_of_notif_block
       size_of_posted_event s \<longleftrightarrow>
     dispatch_queue_store_decl queue_size stack_size (sl_dq s) \<and>
     notifier_store_decl max_event_id max_registrations size_of_notif_block (sl_notifier s) \<and>
     pool_store_decl queue_size size_of_posted_event 8 (sl_pool s) \<and> length (sl_sms s) = num_sm"

text \<open>
  The loop over the names reads \<open>start_states\<close> at every index. The store to \<open>p_sm\<close> of the loop is made
  again by \<open>state_event_loop_init\<close>.
\<close>

definition state_event_loop_create_params_init ::
  "state_event_loop_store \<Rightarrow> ctext \<Rightarrow> u32 \<Rightarrow> addr \<Rightarrow> ctext list \<Rightarrow> u32 list \<Rightarrow> addr
    \<Rightarrow> state_event_loop_create_params res" where
  "state_event_loop_create_params_init s task_name task_priority notif_f sm_names start_states client_data =
     (if length sm_names \<noteq> length (sl_sms s) then Inl Assert_Failed
      else if length start_states < length sm_names then Inl Out_Of_Bounds
      else Inr \<lparr>lp_event_loop = sl_event_loop s,
        lp_notifier_create_params = notifier_store_create_params_init (sl_notifier s) notif_f,
        lp_queue_params = dispatch_queue_create_params_init (sl_dq s) (Some task_name) task_priority,
        lp_event_pool_create_params = pool_create_init (sl_pool s),
        lp_sm_create_params = map (\<lambda>i. \<lparr>sc_state_mac = sl_sms s ! i, sc_name = sm_names ! i,
            sc_private_client_data = client_data, sc_start_state_id = start_states ! i, sc_should_log = True,
            sc_log_level = 0\<rparr>) [0..<length sm_names],
        lp_p_sm = sl_sms s, lp_num_machines = of_nat (length (sl_sms s)), lp_name = task_name,
        lp_exec_queue_priority = task_priority,
        lp_event_data_size = pp_element_size_requested (pool_create_init (sl_pool s))\<rparr>)"

definition state_event_loop_store_fits :: "state_event_loop_store \<Rightarrow> bool" where
  "state_event_loop_store_fits s \<longleftrightarrow>
     sl_event_loop s \<noteq> NULL \<and> sl_sms s \<noteq> [] \<and> NULL \<notin> set (sl_sms s) \<and> length (sl_sms s) < 2 ^ 32 \<and>
     dispatch_queue_store_fits (sl_dq s) \<and> pool_store_fits (sn_pool (sl_notifier s)) \<and>
     length (sn_array (sl_notifier s)) < 2 ^ 32 \<and> pool_store_fits (sl_pool s)"


definition pool_store_example :: "addr \<Rightarrow> nat \<Rightarrow> nat \<Rightarrow> pool_store" where
  "pool_store_example a sz align = \<lparr>so_elements = a, so_num = 2, so_size = sz, so_align = align,
     so_pool = \<lparr>pool_q = None, num_of_elements = 0, element_size = 0, offset_data_from_header = 0\<rparr>,
     so_queue = \<lparr>sq_num_elements = 2, sq_ptr_array = [0, 0], sq_queue = ts_example\<rparr>\<rparr>"

definition sel_store_example :: state_event_loop_store where
  "sel_store_example = \<lparr>sl_event_loop = 600, sl_sms = [700, 800],
     sl_dq = \<lparr>sd_self = 500, sd_queue = the (dp_queue dq_example_params),
       sd_task = \<lparr>sk_stack = 1048576, sk_stack_size = 65536, sk_tsk = zero_task\<rparr>,
       sd_pool = pool_store_example 1000 SIZEOF_POST_DATA 4,
       sd_ts = \<lparr>sq_num_elements = 2, sq_ptr_array = [0, 0], sq_queue = ts_example\<rparr>\<rparr>,
     sl_notifier = \<lparr>sn_array = [9, 9, 9], sn_not = the (np_notifier notifier_example_params),
       sn_pool = pool_store_example 2000 40 4, sn_registration_size = 40, sn_num_of_registrations = 2\<rparr>,
     sl_pool = pool_store_example 3000 32 8\<rparr>"


text \<open>
  (error) The number of registrations has to be a power of two, which the documentation does not say: its
  example of an event loop declares 60 of them. The notifier of such a store cannot be created,
  and \<open>state_event_loop_init\<close> fails its assertion.
\<close>

theorem notifier_store_60_rejected:
  assumes d: "notifier_store_decl cats 60 block_size s"
  shows "\<exists>n M'. notifier_init (Some (notifier_store_create_params_init s notif_f)) True mutex_ok c1 c2 M = Inr (False, n, M')"
proof -
  have p: "ts_queue_store_decl 60 (so_queue (sn_pool s))" using d by (simp add: notifier_store_decl_def pool_store_decl_def)
  have "\<not> power_of_2 60" by (simp add: power_of_2_def)
  then have "\<exists>q. ts_queue_init (Some (ts_queue_store_create_params_init (so_queue (sn_pool s)))) mutex_ok c1 c2 = (Some q, False, False)"
    using p by (simp add: ts_queue_init_def ts_queue_store_create_params_init_def ts_queue_store_decl_def Let_def)
  then show ?thesis
    by (auto simp: notifier_init_def notifier_store_create_params_init_def pool_create_def pool_create_init_def Let_def)
qed

section \<open>Streams\<close>

definition SIZEOF_TX_REQUEST :: nat where
  "SIZEOF_TX_REQUEST = 24"

text \<open>A transmit message is a request and its payload.\<close>

definition payload_offset :: "nat \<Rightarrow> nat" where
  "payload_offset align = round_up SIZEOF_TX_REQUEST align"

definition message_bytes :: "nat \<Rightarrow> nat \<Rightarrow> nat" where
  "message_bytes payload align = round_up (payload_offset align + payload) (max 8 align)"

record asyncio_store =
  xs_instance :: addr
  xs_tx :: pool_store
  xs_rx :: pool_store
  xs_align :: nat
  xs_tx_max_buf_size :: u32

definition asyncio_store_decl :: "nat \<Rightarrow> nat \<Rightarrow> nat \<Rightarrow> nat \<Rightarrow> nat \<Rightarrow> asyncio_store \<Rightarrow> bool" where
  "asyncio_store_decl rx_max_buffers tx_max_buffers rx_max_buf_size tx_max_buf_size buffer_align s \<longleftrightarrow>
     (let payload = (if tx_max_buf_size \<noteq> 0 then tx_max_buf_size else buffer_align)
      in xs_align s = buffer_align \<and> xs_tx_max_buf_size s = of_nat payload \<and>
         pool_store_decl (if tx_max_buffers \<noteq> 0 then tx_max_buffers else 1) (message_bytes payload buffer_align)
           buffer_align (xs_tx s) \<and>
         pool_store_decl (if rx_max_buffers \<noteq> 0 then rx_max_buffers else 1)
           (if rx_max_buf_size \<noteq> 0 then rx_max_buf_size else buffer_align) buffer_align (xs_rx s))"

definition asyncio_create_params_init ::
  "asyncio_store \<Rightarrow> ctext \<Rightarrow> addr \<Rightarrow> addr \<Rightarrow> addr \<Rightarrow> addr \<Rightarrow> addr \<Rightarrow> addr \<Rightarrow> asyncio_create_params" where
  "asyncio_create_params_init s st_name read_fn write_fn rx_cb rx_dq tx_dq p_priv =
     \<lparr>cp_stream_name = st_name, cp_instance = xs_instance s, cp_read_f = read_fn, cp_write_f = write_fn,
      cp_rx_callback = rx_cb, cp_client_data = p_priv, cp_rx_worker = rx_dq,
      cp_rx_pool_params = pool_create_init (xs_rx s), cp_tx_worker = tx_dq,
      cp_tx_pool_params = pool_create_init (xs_tx s), cp_tx_max_chunk_size = xs_tx_max_buf_size s,
      cp_tx_write_timeout = 4000, cp_tx_buffer_offset = of_nat (payload_offset (xs_align s))\<rparr>"

lemma sent_accepted:
  assumes "asyncio_send_buffer F True token len fn pr w = Some (Inr (True, w'))"
  shows "len < asyncio_tx_token_get_max_data_size w" "token \<noteq> NULL"
    "buffer_offset (ai_reqs w' token) = buffer_offset (ai_reqs w token)"
proof -
  have c: "token \<noteq> NULL \<and> len < max_tx_data_chunk_size (tx_of w)"
    and p: "aio_post (tx_worker (tx_of w)) (fn_tx F) token (w\<lparr>ai_reqs := (ai_reqs w)(token := (ai_reqs w token)\<lparr>req_size := len,
        req_fn := fn, req_private := pr\<rparr>)\<rparr>) = Some (Inr (True, w'))"
    using assms by (simp_all add: asyncio_send_buffer_def split: if_splits)
  show "len < asyncio_tx_token_get_max_data_size w" "token \<noteq> NULL"
    using c by (simp_all add: asyncio_tx_token_get_max_data_size_def)
  show "buffer_offset (ai_reqs w' token) = buffer_offset (ai_reqs w token)"
    using p by (auto simp: aio_post_def res_simps split: if_splits prod.splits)
qed

text \<open>
  C23: (bounds) The storage macros of a stream give pools that can be created, if the numbers of buffers are
  powers of two, and blocks that hold a request with its payload: whatever length
  \<open>asyncio_send_buffer\<close> accepts, the bytes from the request's buffer on lie in the block of the token.
\<close>

theorem asyncio_store_holds_payload:
  fixes w :: "'c aio"
  assumes d: "asyncio_store_decl rx_bufs tx_bufs rx_size tx_size align s"
    and f: "pool_store_fits (xs_tx s)" "pool_store_fits (xs_rx s)"
    and p2: "power_of_2 (of_nat rx_bufs)" "power_of_2 (of_nat tx_bufs)" and al: "0 < align"
    and ps: "ps = asyncio_create_params_init s name rd wr cb rx_dq tx_dq priv"
    and w: "asyncio_tx_token_get_max_data_size w = cp_tx_max_chunk_size ps"
    and off: "buffer_offset (ai_reqs w token) = cp_tx_buffer_offset ps"
    and sent: "asyncio_send_buffer F True token len fn pr w = Some (Inr (True, w'))"
  shows "pool_params_ok (cp_rx_pool_params ps) \<and> pool_params_ok (cp_tx_pool_params ps) \<and>
    asyncio_tx_token_get_data_buffer token w' + unat len \<le>
      token + unat (pp_element_size_requested (cp_tx_pool_params ps))"
proof -
  let ?pay = "if tx_size \<noteq> 0 then tx_size else align"
  have nz: "n \<noteq> 0" if "power_of_2 (of_nat n)" for n using that by (cases n) (simp_all add: power_of_2_def)
  have t: "pool_store_decl tx_bufs (message_bytes ?pay align) align (xs_tx s)" "so_size (xs_tx s) = message_bytes ?pay align"
    and r: "pool_store_decl rx_bufs (if rx_size \<noteq> 0 then rx_size else align) align (xs_rx s)"
    and x: "xs_align s = align" "xs_tx_max_buf_size s = of_nat ?pay"
    using d nz [OF p2(1)] nz [OF p2(2)] by (auto simp: asyncio_store_decl_def Let_def pool_store_decl_def)
  note tw = pool_store_words [OF f(1)]
  have b: "payload_offset align + ?pay \<le> message_bytes ?pay align" unfolding message_bytes_def by (rule round_up_ge) simp
  have small: "message_bytes ?pay align < 2 ^ 32" using tw(6) t(2) by simp
  have words: "unat (of_nat ?pay :: u32) = ?pay" "unat (of_nat (payload_offset align) :: u32) = payload_offset align"
    using b small by (simp_all add: unat_of_nat take_bit_nat_eq_self)
  have s: "len < asyncio_tx_token_get_max_data_size w" "token \<noteq> NULL" "buffer_offset (ai_reqs w' token) = buffer_offset (ai_reqs w token)"
    using sent_accepted [OF sent] by simp_all
  have m: "cp_tx_max_chunk_size ps = of_nat ?pay" "cp_tx_buffer_offset ps = of_nat (payload_offset align)"
    unfolding ps asyncio_create_params_init_def using x by simp_all
  have "len < of_nat ?pay" using s(1) unfolding w m .
  then have "unat len < ?pay" unfolding word_less_nat_alt words(1) .
  then have "payload_offset align + unat len \<le> so_size (xs_tx s)" using b t(2) by simp
  then have "asyncio_tx_token_get_data_buffer token w' + unat len \<le>
      token + unat (pp_element_size_requested (cp_tx_pool_params ps))"
    using s(2) words(2) tw(3) x(1) unfolding ps asyncio_tx_token_get_data_buffer_def asyncio_tx_request_get_buffer_def s(3) off m
    by (simp add: asyncio_create_params_init_def pool_create_init_def)
  then show ?thesis
    using pool_create_init_ok [OF t(1) f(1) p2(2)] pool_create_init_ok [OF r f(2) p2(1)] ps
    by (simp add: asyncio_create_params_init_def)
qed

definition asyncio_store_example :: asyncio_store where
  "asyncio_store_example = \<lparr>xs_instance = 700, xs_tx = pool_store_example 4000 40 8, xs_rx = pool_store_example 5000 16 8,
     xs_align = 8, xs_tx_max_buf_size = 16\<rparr>"

theorem asyncio_store_holds_payload_witness:
  "\<exists>(w :: unit aio) w'. asyncio_send_buffer aio_example_fns True 4024 15 31 32 w = Some (Inr (True, w')) \<and>
    asyncio_tx_token_get_data_buffer 4024 w' + 15 \<le> 4024 + 40"
proof -
  let ?s = asyncio_store_example
  let ?ps = "asyncio_create_params_init ?s (map of_char ''usb'') 23 24 21 500 501 22"
  obtain q m where "\<And>k. k < 2 ^ 63 \<Longrightarrow> dq_fifo [] (Suc (Suc 0)) [] k (q, m)" by (rule dq_example_fifo) blast
  then have q: "dq_fifo [] (Suc (Suc 0)) [] (Suc 0) (q, m)" by simp
  let ?w = "upd_inst (\<lambda>i. i\<lparr>as_init_state := AsyncioInitialized, stream_stopped := False,
      f_stream_interface_write := 24, tx_task := (tx_task i)\<lparr>tx_worker := 501,
        max_tx_data_chunk_size := 16, tx_init_state := AsyncioInitialized\<rparr>\<rparr>)
      ((aio_example_world () q m)\<lparr>ai_reqs := (\<lambda>_. \<lparr>req_size = 0, buffer_offset = 24, req_fn = 0, req_private = 0\<rparr>)\<rparr>)"
  have d: "asyncio_store_decl 2 2 16 16 8 ?s" "pool_store_fits (xs_tx ?s)" "pool_store_fits (xs_rx ?s)"
    by (simp_all add: asyncio_store_decl_def asyncio_store_example_def pool_store_decl_def pool_store_example_def
        ts_queue_store_decl_def pool_store_fits_def message_bytes_def payload_offset_def element_bytes_def data_offset_def
        round_up_def SIZEOF_POOL_HEADER_def SIZEOF_TX_REQUEST_def)
  have c: "cp_tx_max_chunk_size ?ps = 16" "cp_tx_buffer_offset ?ps = 24"
    "pp_element_size_requested (cp_tx_pool_params ?ps) = 40"
    by (simp_all add: asyncio_create_params_init_def asyncio_store_example_def payload_offset_def round_up_def
        SIZEOF_TX_REQUEST_def pool_create_init_def pool_store_example_def)
  have "\<exists>x. asyncio_send_buffer aio_example_fns True 4024 15 31 32 ?w = Some (Inr (True, x))"
    using send_buffer_queued [of 4024 ?w 15 "[]" "Suc 0" "[]" 0 aio_example_fns 31 32] q
    by (auto simp: aio_example_world_def aio_example_inst_def asyncio_tx_token_get_max_data_size_def)
  then obtain w' where w': "asyncio_send_buffer aio_example_fns True 4024 15 31 32 ?w = Some (Inr (True, w'))" by blast
  have "power_of_2 (of_nat 2)" by (simp add: power_of_2_def)
  then have "asyncio_tx_token_get_data_buffer 4024 w' + unat (15 :: u32) \<le> 4024 + unat (40 :: u32)"
    using asyncio_store_holds_payload [OF d _ _ _ refl _ _ w', of "map of_char ''usb''" 23 24 21 500 501 22] c
    by (simp add: asyncio_tx_token_get_max_data_size_def)
  then show ?thesis using w' by (intro exI [of _ ?w] exI [of _ w']) simp
qed

end
