(* ===== verification/Container_Stores.thy ===== *)
theory Container_Stores
  imports Ring_Buffer Accumulator Free_List Logger
begin

text \<open>
  The storage macros of the containers (\<open>ACCUMULATOR_STORE_DECL\<close>, \<open>MEM_RING_BUFFER_STORE_DECL\<close>,
  \<open>FREE_LIST_STORE_DECL\<close> and the macros that fill in the creation parameters), followed from the
  declaration through creation to any sequence of operations; and \<open>accumulator_to_string\<close>, whose text always
  fits the room it asks for.
\<close>

section \<open>Stores\<close>

record accumulator_store =
  sa_acc :: accumulator
  sa_buffer :: "u8 list"

definition accumulator_store_decl :: "nat \<Rightarrow> accumulator_store \<Rightarrow> bool" where
  "accumulator_store_decl size_in_bytes s \<longleftrightarrow> length (sa_buffer s) = size_in_bytes"

definition accumulator_create_params_init :: "accumulator_store \<Rightarrow> accumulator_create_params" where
  "accumulator_create_params_init s =
     \<lparr>cp_acc = Some (sa_acc s), cp_buf = sa_buffer s, cp_buf_size = of_nat (length (sa_buffer s))\<rparr>"

record mem_ring_buffer_store =
  sr_rb :: ring_buffer
  sr_buffer :: "u8 list"

definition mem_ring_buffer_store_decl :: "nat \<Rightarrow> mem_ring_buffer_store \<Rightarrow> bool" where
  "mem_ring_buffer_store_decl sizeInBytes s \<longleftrightarrow> length (sr_buffer s) = sizeInBytes"

definition mem_ring_buffer_create_params_init :: "mem_ring_buffer_store \<Rightarrow> ring_buffer_create_params" where
  "mem_ring_buffer_create_params_init s =
     \<lparr>rp_buffer = Some (sr_rb s), rp_data = Some (sr_buffer s), rp_size_in_bytes = of_nat (length (sr_buffer s))\<rparr>"

text \<open>\<open>sizeof (KListElem)\<close>: two pointers. An item begins with its links, so its type is at least as large.\<close>

definition SIZEOF_KLIST_ELEM :: nat where
  "SIZEOF_KLIST_ELEM = 16"

text \<open>The items of a free list lie one after the other at \<open>sf_store\<close>; \<open>sf_type_size\<close> is the size of their type.\<close>

record free_list_store =
  sf_store :: addr
  sf_type_size :: nat
  sf_count :: nat
  sf_list :: free_list

definition free_list_store_decl :: "nat \<Rightarrow> nat \<Rightarrow> free_list_store \<Rightarrow> bool" where
  "free_list_store_decl type_size n s \<longleftrightarrow> sf_type_size s = type_size \<and> sf_count s = n"

definition free_list_store_create_params_init :: "free_list_store \<Rightarrow> free_list_create_params" where
  "free_list_store_create_params_init s =
     \<lparr>fp_list = Some (sf_list s), fp_data_store = sf_store s, fp_item_size = sf_type_size s, fp_item_count = sf_count s\<rparr>"

section \<open>The text of an accumulator\<close>

definition accumulator_text :: "accumulator \<Rightarrow> ctext" where
  "accumulator_text a =
     literal ''acc(in = '' @ decimal (unat (acc_in a)) @ literal '', out = '' @ decimal (unat (acc_out a)) @
     literal '', contained = '' @ decimal (unat (accumulator_bytes_contained a)) @
     literal '', left = '' @ decimal (unat (accumulator_bytes_left a)) @
     literal '', tot = '' @ decimal (unat (total_buffer_size a)) @ literal '')''"

definition accumulator_to_string :: "accumulator \<Rightarrow> ctext \<Rightarrow> nat \<Rightarrow> u32 \<Rightarrow> (u32 \<times> ctext) res" where
  "accumulator_to_string a str p string_size =
     (if string_size \<ge> 128 then insert_to_string str p 0 (accumulator_text a) else Inr (0, str))"

lemma accumulator_text_length: "length (accumulator_text a) \<le> 99"
proof -
  have "length (decimal (unat (acc_in a))) + length (decimal (unat (acc_out a))) +
      length (decimal (unat (accumulator_bytes_contained a))) + length (decimal (unat (accumulator_bytes_left a))) +
      length (decimal (unat (total_buffer_size a))) \<le> 50"
    using decimal_u32 [of "acc_in a"] decimal_u32 [of "acc_out a"] decimal_u32 [of "accumulator_bytes_contained a"]
      decimal_u32 [of "accumulator_bytes_left a"] decimal_u32 [of "total_buffer_size a"] by linarith
  then show ?thesis by (simp add: accumulator_text_def)
qed

section \<open>Properties\<close>

text \<open>
  (refinement) An accumulator created from a declared store is an empty window over its bytes, whatever the
  store held before, and every sequence of operations behaves so.
\<close>

theorem accumulator_store_runs:
  assumes d: "accumulator_store_decl n s" and n: "0 < n" "n \<le> 2 ^ 31" and ops: "list_all acc_op_fits ps"
  shows "\<exists>a rs a'. accumulator_create (Some (accumulator_create_params_init s)) = Inr a \<and>
    acc_run a ps = Inr (rs, a') \<and> window_run n [] ps = (rs, acc_contents a')"
proof -
  let ?a = "(sa_acc s)\<lparr>acc_buf := sa_buffer s, total_buffer_size := of_nat n, acc_in := 0, acc_out := 0\<rparr>"
  have "n < 2 ^ 32" using n(2) by simp
  then have u: "unat (of_nat n :: u32) = n" by (simp add: unat_of_nat take_bit_nat_eq_self)
  then have "(of_nat n :: u32) \<noteq> 0" using n(1) by (metis less_numeral_extra(3) unat_0)
  then have i: "acc_inv ?a" "acc_contents ?a = []"
    using d n u by (simp_all add: acc_inv_def accumulator_store_decl_def word_neq_0_conv acc_contents_def acc_len_def ring_count_def)
  have "accumulator_create (Some (accumulator_create_params_init s)) = Inr ?a"
    using d by (simp add: accumulator_create_def accumulator_create_params_init_def accumulator_store_decl_def)
  with accw.runs [of ?a "of_nat n" n ps] i u ops show ?thesis by fastforce
qed

theorem accumulator_store_runs_witness:
  "\<exists>a rs a'. accumulator_create (Some (accumulator_create_params_init \<lparr>sa_acc = acc_example, sa_buffer = [7, 7, 7, 7]\<rparr>)) = Inr a \<and>
    acc_run a [Acc_Insert [1, 2], Acc_Extract 1] = Inr (rs, a') \<and>
    window_run 4 [] [Acc_Insert [1, 2], Acc_Extract 1] = (rs, acc_contents a')"
  by (rule accumulator_store_runs) (simp_all add: accumulator_store_decl_def)

text \<open>
  (refinement) A ring buffer created from a declared store and reset to offset 0 is an empty queue bounded by
  the declared size, for as long as fewer than \<open>2 ^ 32\<close> bytes are written to it.
\<close>

theorem ring_buffer_store_runs:
  assumes d: "mem_ring_buffer_store_decl n s" and n: "0 < n" "n < 2 ^ 32" and vol: "write_volume ps < 2 ^ 32"
  shows "\<exists>b0 b rs b'. create_ring_buffer (mem_ring_buffer_create_params_init s) = (Some b0, True) \<and>
    ring_buffer_reset_at_offset (Some b0) 0 = Inr b \<and> rb_run b ps = Inr (rs, b') \<and> bq_run n [] ps = (rs, rb_contents b')"
proof -
  let ?made = "(sr_rb s)\<lparr>rb_data := Some (sr_buffer s), rb_size := of_nat n\<rparr>"
  let ?b = "?made\<lparr>read_offset := 0, write_offset := 0\<rparr>"
  have u: "unat (of_nat n :: u32) = n" using n(2) by (simp add: unat_of_nat take_bit_nat_eq_self)
  then have "(of_nat n :: u32) \<noteq> 0" using n(1) by (metis less_numeral_extra(3) unat_0)
  then have i: "rb_inv ?b" "rb_contents ?b = []"
    using d u by (simp_all add: rb_inv_def rb_len_def rb_contents_def mem_ring_buffer_store_decl_def word_neq_0_conv)
  have c: "create_ring_buffer (mem_ring_buffer_create_params_init s) = (Some ?made, True)"
    using d by (simp add: create_ring_buffer_def mem_ring_buffer_create_params_init_def mem_ring_buffer_store_decl_def)
  have r: "ring_buffer_reset_at_offset (Some ?made) 0 = Inr ?b" by (simp add: ring_buffer_reset_at_offset_def)
  from rbq.runs [of ?b n ps] i u vol obtain rs b' where "rb_run ?b ps = Inr (rs, b')" "bq_run n [] ps = (rs, rb_contents b')"
    by auto
  with c r show ?thesis by blast
qed

theorem ring_buffer_store_runs_witness:
  "\<exists>b0 b rs b'. create_ring_buffer (mem_ring_buffer_create_params_init \<lparr>sr_rb = rb_example, sr_buffer = [7, 7]\<rparr>) = (Some b0, True) \<and>
    ring_buffer_reset_at_offset (Some b0) 0 = Inr b \<and> rb_run b [RB_Write [1, 2, 3]] = Inr (rs, b') \<and>
    bq_run 2 [] [RB_Write [1, 2, 3]] = (rs, rb_contents b')"
  by (rule ring_buffer_store_runs) (simp_all add: mem_ring_buffer_store_decl_def)

text \<open>
  (safety) A free list made from a declared store hands out exactly the items of the store, each to one
  holder at a time. The link of the first item has to be null in the memory of the store.
\<close>

theorem free_list_store_runs:
  assumes d: "free_list_store_decl type_size n s" and "SIZEOF_KLIST_ELEM \<le> type_size" and "sf_store s \<noteq> NULL" and "next_of m (sf_store s) = NULL"
  shows "\<exists>m0 l0 held m' l'. free_list_init m (free_list_store_create_params_init s) = (m0, Some l0) \<and>
    arun fl_alloc fl_release ops [] (m0, l0) = Some (held, (m', l')) \<and> distinct held \<and>
    set held \<subseteq> item_addr (sf_store s) type_size ` {0..<n} \<and> current_available l' + length held = n"
  using fl_init_runs [of "free_list_store_create_params_init s" "sf_list s" m ops] assms
  by (simp add: free_list_store_create_params_init_def free_list_store_decl_def SIZEOF_KLIST_ELEM_def)

theorem free_list_store_runs_witness:
  "\<exists>m0 l0 held m' l'. free_list_init \<lparr>prev_of = (\<lambda>_. 0), next_of = (\<lambda>_. 0)\<rparr>
      (free_list_store_create_params_init \<lparr>sf_store = 1000, sf_type_size = 16, sf_count = 2,
         sf_list = \<lparr>fl_head = 0, data_store = 0, item_size = 0, fl_item_count = 0, current_available = 0\<rparr>\<rparr>) = (m0, Some l0) \<and>
    arun fl_alloc fl_release [Alloc, Alloc] [] (m0, l0) = Some (held, (m', l')) \<and> distinct held \<and>
    set held \<subseteq> item_addr 1000 16 ` {0..<2} \<and> current_available l' + length held = 2"
  using free_list_store_runs [of 16 2 "\<lparr>sf_store = 1000, sf_type_size = 16, sf_count = 2,
         sf_list = \<lparr>fl_head = 0, data_store = 0, item_size = 0, fl_item_count = 0, current_available = 0\<rparr>\<rparr>"
      "\<lparr>prev_of = (\<lambda>_. 0), next_of = (\<lambda>_. 0)\<rparr>" "[Alloc, Alloc]"]
  by (simp add: free_list_store_decl_def SIZEOF_KLIST_ELEM_def)

text \<open>
  (bounds) \<open>accumulator_to_string\<close> writes at most 99 characters and the terminating null character, within the
  128 it asks for, whatever the numbers are, and only from \<open>str\<close> on; with less room it writes nothing.
\<close>

theorem accumulator_to_string_fits:
  assumes room: "p + unat string_size \<le> length str"
  shows "\<exists>n str'. accumulator_to_string a str p string_size = Inr (n, str') \<and> length str' = length str \<and>
    unat n \<le> 99 \<and> take p str' = take p str \<and> drop (p + 100) str' = drop (p + 100) str \<and>
    (if string_size \<ge> 128 then take (unat n) (drop p str') = accumulator_text a \<and> str' ! (p + unat n) = 0
     else n = 0 \<and> str' = str)"
proof (cases "string_size \<ge> 128")
  case False
  then show ?thesis by (simp add: accumulator_to_string_def)
next
  case True
  let ?t = "accumulator_text a"
  have t: "length ?t \<le> 99" by (rule accumulator_text_length)
  have "128 \<le> unat string_size" using True by (simp add: word_le_nat_alt)
  then have r: "p + length ?t + 29 \<le> length str" using room t by simp
  have u: "unat (of_nat (length ?t) :: u32) = length ?t" using t by (simp add: unat_of_nat take_bit_nat_eq_self)
  let ?s = "splice str p (?t @ [0])"
  have "accumulator_to_string a str p string_size = Inr (of_nat (length ?t), ?s)"
    using True r by (simp add: accumulator_to_string_def insert_to_string_def sprintf_at_def)
  moreover have "drop (100 - length ?t) (0 # drop (Suc (p + length ?t)) str) = drop (p + 100) str"
  proof (cases "100 - length ?t")
    case (Suc k)
    then have "drop (Suc (k + (p + length ?t))) str = drop (p + 100) str" using t by (intro arg_cong2 [of _ _ _ _ drop]) simp_all
    with Suc show ?thesis by (simp add: add.commute add.left_commute)
  qed (use t in simp)
  ultimately have e: "accumulator_to_string a str p string_size = Inr (of_nat (length ?t), ?s)"
    and d: "drop (p + 100) ?s = drop (p + 100) str"
    using r t by (simp_all add: splice_def)
  have "length ?s = length str" "take p ?s = take p str" "take (length ?t) (drop p ?s) = ?t" "?s ! (p + length ?t) = 0"
    using r t by (simp_all add: splice_def nth_append)
  with e d show ?thesis using True t u by auto
qed

theorem accumulator_to_string_fits_witness:
  "\<exists>n str'. accumulator_to_string acc_example (replicate 200 1) 0 128 = Inr (n, str') \<and> unat n \<le> 99 \<and>
    drop 100 str' = drop 100 (replicate 200 1)"
  using accumulator_to_string_fits [of 0 128 "replicate 200 1" acc_example] by auto

end
