(* ===== verification/Ports.thy ===== *)
theory Ports
  imports Stores "HOL-Library.Signed_Division"
begin

text \<open>
  What the ports have beside the components they share: the priorities of tasks, the creation, destruction
  and storage of queues and the event flags of the C11 port, and the storage macros of the FreeRTOS port.
  The theorems: the C11 port does what the pthread port does; a queue made from a store of either is
  empty and in order; the priorities are ordered and stay within the range of the scheduler.
\<close>

section \<open>Priorities\<close>

text \<open>
  The levels as macros over the lowest and the highest priority of the scheduler. The division is that of
  C, which truncates. On FreeRTOS the range depends on \<open>configMAX_PRIORITIES\<close>, whose last one belongs to the
  timer.
\<close>

datatype priority_level = Lowest | Mid_Lo | Medium | Mid_High | Highest

definition pt_task_priority :: "int \<Rightarrow> int \<Rightarrow> priority_level \<Rightarrow> int" where
  "pt_task_priority lo hi level =
     (let medium = (lo + hi) sdiv 2
      in case level of
           Lowest \<Rightarrow> lo
         | Highest \<Rightarrow> hi
         | Medium \<Rightarrow> medium
         | Mid_High \<Rightarrow> medium + (hi - lo) sdiv 4
         | Mid_Lo \<Rightarrow> medium - (hi - lo) sdiv 4)"

definition c11_task_priority :: "int \<Rightarrow> int \<Rightarrow> priority_level \<Rightarrow> int" where
  "c11_task_priority lo hi level =
     (let medium = (lo + hi) sdiv 2
      in case level of
           Lowest \<Rightarrow> lo
         | Highest \<Rightarrow> hi
         | Medium \<Rightarrow> medium
         | Mid_High \<Rightarrow> medium + (hi - lo) sdiv 4
         | Mid_Lo \<Rightarrow> medium - (hi - lo) sdiv 4)"

definition fr_task_priority :: "int \<Rightarrow> priority_level \<Rightarrow> int" where
  "fr_task_priority max_priorities level =
     (let lowest = 0; highest = max_priorities - 2; medium = (lowest + highest) sdiv 2
      in case level of
           Lowest \<Rightarrow> lowest
         | Highest \<Rightarrow> highest
         | Medium \<Rightarrow> medium
         | Mid_Lo \<Rightarrow> medium - (highest - lowest) sdiv 4
         | Mid_High \<Rightarrow> medium + (highest - lowest) sdiv 4)"

section \<open>Queues of the C11 port\<close>

text \<open>The codes are those of the pthread calls under \<open>mtx_init\<close> and \<open>cnd_init\<close>.\<close>

definition c11_ts_queue_init ::
  "ts_queue_create_params option \<Rightarrow> int \<Rightarrow> int \<Rightarrow> int \<Rightarrow> ts_queue option \<times> bool \<times> bool" where
  "c11_ts_queue_init params mutex_rc cond_rc full_cond_rc =
     (case params of
        None \<Rightarrow> (None, False, False)
      | Some p \<Rightarrow>
          (case (tp_queue p, tp_ptr_array p) of
             (Some q, Some arr) \<Rightarrow>
               (let q1 = q\<lparr>pp_ptr_array := arr, q_size := tp_size p\<rparr>
                in if \<not> (q_size q1 > 0 \<and> q_size q1 AND (q_size q1 - 1) = 0) then (Some q1, False, False)
                   else if \<not> c11_mutex_new True mutex_rc then (Some q1, False, False)
                   else if \<not> (cnd_init cond_rc = 0 \<and> cnd_init full_cond_rc = 0)
                   then (Some q1, False, c11_mutex_free True)
                   else (Some (q1\<lparr>q_count := 0, q_tail := 0, q_head := 0\<rparr>), True, False))
           | (oq, _) \<Rightarrow> (oq, False, False)))"

definition c11_ts_queue_destroy :: "bool \<Rightarrow> ts_resource list" where
  "c11_ts_queue_destroy nonnull = (if nonnull then [Cnd, Mtx] else [])"

definition c11_ts_queue_get_count :: "ts_queue \<Rightarrow> u64" where
  "c11_ts_queue_get_count q = q_count q"

definition c11_ts_queue_store_decl :: "nat \<Rightarrow> ts_queue_store \<Rightarrow> bool" where
  "c11_ts_queue_store_decl sz s \<longleftrightarrow> sq_num_elements s = of_nat sz \<and> length (sq_ptr_array s) = sz"

definition c11_ts_queue_store_create_params_init :: "ts_queue_store \<Rightarrow> ts_queue_create_params" where
  "c11_ts_queue_store_create_params_init s =
     \<lparr>tp_queue = Some (sq_queue s), tp_ptr_array = Some (sq_ptr_array s), tp_size = sq_num_elements s\<rparr>"

section \<open>Event flags and tasks of the C11 port\<close>

text \<open>The value returned, what is stored through \<open>p_actual_flags\<close>, and the flags.\<close>

definition c11_check_flags ::
  "event_flag \<Rightarrow> u32 \<Rightarrow> event_flag_wait_type \<Rightarrow> bool \<times> u32 option \<times> event_flag" where
  "c11_check_flags f required_flags wait_type =
     (let act_flags = ef_val f AND required_flags;
          (retval, stored) =
            (if wait_type = WAIT_OR \<or> wait_type = WAIT_OR_CLEAR
             then (if act_flags \<noteq> 0 then (True, Some act_flags) else (False, None))
             else (if act_flags = required_flags then (True, Some act_flags) else (False, None)))
      in (retval, stored,
          if retval \<and> (wait_type = WAIT_AND_CLEAR \<or> wait_type = WAIT_OR_CLEAR)
          then f\<lparr>ef_val := ef_val f AND NOT act_flags\<rparr> else f))"

text \<open>The value returned, the flags, and whether the waiting threads are woken.\<close>

definition c11_event_flag_send :: "event_flag option \<Rightarrow> u32 \<Rightarrow> bool \<times> event_flag option \<times> bool" where
  "c11_event_flag_send p_flags flag_bits =
     (case p_flags of
        None \<Rightarrow> (False, None, False)
      | Some f \<Rightarrow> (True, Some (f\<lparr>ef_val := ef_val f OR flag_bits\<rparr>), True))"

definition c11_event_flag_clear :: "event_flag option \<Rightarrow> u32 \<Rightarrow> bool \<times> event_flag option" where
  "c11_event_flag_clear p_flags flag_bits =
     (case p_flags of
        None \<Rightarrow> (False, None)
      | Some f \<Rightarrow> (True, Some (f\<lparr>ef_val := ef_val f AND NOT flag_bits\<rparr>)))"

definition c11_task_static_store_decl :: "nat \<Rightarrow> task_store \<Rightarrow> bool" where
  "c11_task_static_store_decl stack_size s \<longleftrightarrow> sk_stack_size s = stack_size"

definition c11_task_init_create_params_from_store ::
  "task_store \<Rightarrow> u8 list option \<Rightarrow> u32 \<Rightarrow> addr \<Rightarrow> addr \<Rightarrow> task_create_params" where
  "c11_task_init_create_params_from_store s lbl pri fn context =
     \<lparr>tc_task = Some (sk_tsk s), tc_label = lbl, tc_priority = pri, tc_func = fn, tc_ctx = context,
      tc_stack = sk_stack s, tc_stack_size = of_nat (sk_stack_size s)\<rparr>"

section \<open>Stores of the FreeRTOS port\<close>

text \<open>The array of a queue is a number of bytes, the pointers of the machine have \<open>ptr\<close> of them.\<close>

record fr_ts_queue_store =
  fs_num_elements :: u64
  fs_storage_array :: "u8 list"
  fs_queue :: fr_ts_queue

definition fr_ts_queue_store_decl :: "nat \<Rightarrow> nat \<Rightarrow> fr_ts_queue_store \<Rightarrow> bool" where
  "fr_ts_queue_store_decl ptr sz s \<longleftrightarrow> fs_num_elements s = of_nat sz \<and> length (fs_storage_array s) = sz * ptr"

definition fr_ts_queue_store_create_params_init :: "fr_ts_queue_store \<Rightarrow> fr_ts_queue option \<times> u8 list \<times> u64" where
  "fr_ts_queue_store_create_params_init s = (Some (fs_queue s), fs_storage_array s, fs_num_elements s)"

text \<open>The stack of a task lies at a multiple of the port's alignment.\<close>

definition fr_task_static_store_decl :: "nat \<Rightarrow> nat \<Rightarrow> task_store \<Rightarrow> bool" where
  "fr_task_static_store_decl align stack_size s \<longleftrightarrow> sk_stack_size s = stack_size \<and> sk_stack s mod align = 0"

text \<open>The address of the kernel's control block, a part of the task, is not kept by the model.\<close>

definition fr_task_init_create_params_from_store ::
  "task_store \<Rightarrow> u8 list option \<Rightarrow> u32 \<Rightarrow> addr \<Rightarrow> addr \<Rightarrow> task_create_params" where
  "fr_task_init_create_params_from_store s lbl pri fn context =
     \<lparr>tc_task = Some (sk_tsk s), tc_label = lbl, tc_priority = pri, tc_func = fn, tc_ctx = context,
      tc_stack = sk_stack s, tc_stack_size = of_nat (sk_stack_size s)\<rparr>"

section \<open>Properties\<close>

lemma sdiv_pos: "0 \<le> a \<Longrightarrow> 0 < b \<Longrightarrow> (a :: int) sdiv b = a div b"
  by (cases "a = 0") (simp_all add: signed_divide_int_def)

lemma pt_task_priority_ordered:
  assumes "0 \<le> lo" and "lo \<le> hi"
  shows "sorted (map (pt_task_priority lo hi) [Lowest, Mid_Lo, Medium, Mid_High, Highest])"
proof -
  have e: "(lo + hi) sdiv 2 = (lo + hi) div 2" "(hi - lo) sdiv 4 = (hi - lo) div 4"
    using assms by (simp_all add: sdiv_pos)
  have "lo \<le> (lo + hi) div 2 - (hi - lo) div 4" "(lo + hi) div 2 + (hi - lo) div 4 \<le> hi" "0 \<le> (hi - lo) div 4"
    using assms by presburger+
  then show ?thesis using assms by (simp add: pt_task_priority_def Let_def e)
qed

lemma fr_task_priority_eq: "fr_task_priority m = pt_task_priority 0 (m - 2)"
  by (rule ext) (simp add: fr_task_priority_def pt_task_priority_def Let_def split: priority_level.split)

lemma c11_task_priority_eq: "c11_task_priority = pt_task_priority"
  by (intro ext) (simp add: c11_task_priority_def pt_task_priority_def)

text \<open>
  (bounds) The five levels are in ascending order on every port, from the lowest to the highest priority of
  the scheduler, and on FreeRTOS below the priority of the timer task, if there are at least two.
\<close>

theorem task_priorities_ordered:
  assumes "0 \<le> lo" and "lo \<le> hi" and "2 \<le> max_priorities"
  shows "sorted (map (pt_task_priority lo hi) [Lowest, Mid_Lo, Medium, Mid_High, Highest]) \<and>
    map (c11_task_priority lo hi) [Lowest, Mid_Lo, Medium, Mid_High, Highest] =
      map (pt_task_priority lo hi) [Lowest, Mid_Lo, Medium, Mid_High, Highest] \<and>
    sorted (map (fr_task_priority max_priorities) [Lowest, Mid_Lo, Medium, Mid_High, Highest]) \<and>
    fr_task_priority max_priorities Highest < max_priorities - 1"
  using pt_task_priority_ordered [OF assms(1,2)] pt_task_priority_ordered [of 0 "max_priorities - 2"] assms(3)
  by (simp add: fr_task_priority_eq c11_task_priority_eq) (simp add: pt_task_priority_def)

theorem task_priorities_ordered_witness:
  "sorted (map (pt_task_priority 1 99) [Lowest, Mid_Lo, Medium, Mid_High, Highest])"
  using task_priorities_ordered [of 1 99 2] by simp

text \<open>
  (equivalence) The C11 port creates, destroys and counts its queues, tests, sends and clears its event
  flags and fills in its parameters exactly as the pthread port does, for every result of the calls under it.
\<close>

theorem c11_port_agrees:
  "c11_ts_queue_init params mutex_rc c1 c2 = ts_queue_init params (fst (pt_mutex_new mutex_rc)) c1 c2 \<and>
    c11_ts_queue_destroy nonnull = ts_queue_destroy nonnull \<and> c11_ts_queue_get_count q = ts_queue_get_count q \<and>
    (case c11_check_flags f req wt of (b, st, f') \<Rightarrow> check_flags f req wt = (st, f') \<and> (b \<longleftrightarrow> st \<noteq> None)) \<and>
    c11_event_flag_send fl bits = event_flag_send fl bits \<and> c11_event_flag_clear fl bits = event_flag_clear fl bits \<and>
    c11_ts_queue_store_create_params_init qs = ts_queue_store_create_params_init qs \<and>
    c11_task_init_create_params_from_store ts lbl pri fn context = task_init_create_params_from_store ts lbl pri fn context"
proof -
  have "c11_mutex_new True mutex_rc = fst (pt_mutex_new mutex_rc)" "cnd_init c = 0 \<longleftrightarrow> c = 0" for c
    by (simp_all add: c11_mutex_new_def pt_mutex_new_def mtx_init_def cnd_init_def thrd_defs)
  then have "c11_ts_queue_init params mutex_rc c1 c2 = ts_queue_init params (fst (pt_mutex_new mutex_rc)) c1 c2"
    by (simp add: c11_ts_queue_init_def ts_queue_init_def power_of_2_def c11_mutex_free_def Let_def
        split: option.splits)
  moreover have "case c11_check_flags f req wt of (b, st, f') \<Rightarrow> check_flags f req wt = (st, f') \<and> (b \<longleftrightarrow> st \<noteq> None)"
    by (simp add: c11_check_flags_def check_flags_def Let_def)
  ultimately show ?thesis
    by (simp add: c11_ts_queue_destroy_def ts_queue_destroy_def c11_ts_queue_get_count_def ts_queue_get_count_def
        c11_event_flag_send_def event_flag_send_def c11_event_flag_clear_def event_flag_clear_def
        c11_ts_queue_store_create_params_init_def ts_queue_store_create_params_init_def
        c11_task_init_create_params_from_store_def task_init_create_params_from_store_def)
qed

text \<open>
  (refinement) A queue made from a store of the C11 port with a power of two of slots is empty and first-in
  first-out from then on: any sequence of insertions and removals that never wait behaves so.
\<close>

theorem c11_queue_from_store_fifo:
  assumes d: "c11_ts_queue_store_decl n s" and p: "power_of_2 (of_nat n)" and n: "n < 2 ^ 64"
    and rc: "mutex_rc = 0" "c1 = 0" "c2 = 0"
  shows "\<exists>q. c11_ts_queue_init (Some (c11_ts_queue_store_create_params_init s)) mutex_rc c1 c2 = (Some q, True, False) \<and>
    ts_inv q \<and> ts_contents q = [] \<and> unat (q_size q) = n \<and> c11_ts_queue_get_count q = 0"
proof -
  let ?q = "(sq_queue s)\<lparr>pp_ptr_array := sq_ptr_array s, q_size := of_nat n, q_count := 0, q_tail := 0, q_head := 0\<rparr>"
  have u: "unat (of_nat n :: u64) = n" using n by (simp add: unat_of_nat take_bit_nat_eq_self)
  have "c11_ts_queue_init (Some (c11_ts_queue_store_create_params_init s)) mutex_rc c1 c2 = (Some ?q, True, False)"
    using d p rc by (simp add: c11_ts_queue_init_def c11_ts_queue_store_create_params_init_def c11_ts_queue_store_decl_def
        power_of_2_def c11_mutex_new_def mtx_init_def cnd_init_def thrd_defs)
  moreover have "ts_inv ?q" "ts_contents ?q = []"
    using d p u n by (simp_all add: ts_inv_def ts_len_def ts_contents_def c11_ts_queue_store_decl_def)
  ultimately show ?thesis using u by (auto simp: c11_ts_queue_get_count_def)
qed

theorem c11_queue_from_store_fifo_witness:
  "\<exists>q. c11_ts_queue_init (Some (c11_ts_queue_store_create_params_init
      \<lparr>sq_num_elements = 2, sq_ptr_array = [0, 0], sq_queue = ts_example\<rparr>)) 0 0 0 = (Some q, True, False) \<and>
    ts_inv q \<and> ts_contents q = [] \<and> unat (q_size q) = 2"
  using c11_queue_from_store_fifo [of 2 "\<lparr>sq_num_elements = 2, sq_ptr_array = [0, 0], sq_queue = ts_example\<rparr>" 0 0 0]
  by (auto simp: c11_ts_queue_store_decl_def power_of_2_def)

text \<open>
  (bounds) On FreeRTOS the array that a store gives to the kernel has room for all the pointers the queue is
  created for, and the queue is created exactly for a power of two of them; the stack handed to the kernel
  for a task has as many words as the store has bytes for.
\<close>

theorem fr_stores_fit:
  assumes q: "fr_ts_queue_store_decl ptr n s" "n < 2 ^ 64"
    and t: "fr_task_static_store_decl align bytes ts" "bytes < 2 ^ 32" "0 < w"
  shows "\<exists>storage sz. fr_ts_queue_store_create_params_init s = (Some (fs_queue s), storage, sz) \<and>
    unat sz * ptr = length storage \<and>
    fr_ts_queue_init (Some (Some (fs_queue s), sz)) created =
      (if power_of_2 (of_nat n) then Inr (Some ((fs_queue s)\<lparr>fq_handle := created\<rparr>)) else Inr None) \<and>
    (\<exists>tk. fr_task_new_static (\<lambda>f l depth pr st. if depth * w \<le> bytes \<and> st mod align = 0 then h else NULL) w
        (Some (fr_task_init_create_params_from_store ts lbl pri fn context)) = Inr (True, Some tk) \<and> tk_thread tk = h)"
proof -
  have u: "unat (of_nat n :: u64) = n" "unat (of_nat bytes :: u32) = bytes"
    using q(2) t(2) by (simp_all add: unat_of_nat take_bit_nat_eq_self)
  have "bytes div w * w \<le> bytes" by simp
  then show ?thesis
    using q(1) t(1) u
    by (auto simp: fr_ts_queue_store_decl_def fr_ts_queue_store_create_params_init_def fr_ts_queue_init_def power_of_2_def
        word_neq_0_conv fr_task_static_store_decl_def fr_task_new_static_def fr_task_init_create_params_from_store_def)
qed

theorem fr_stores_fit_witness:
  "\<exists>storage sz. fr_ts_queue_store_create_params_init
      \<lparr>fs_num_elements = 2, fs_storage_array = replicate 8 0, fs_queue = \<lparr>fq_handle = 0\<rparr>\<rparr> =
        (Some \<lparr>fq_handle = 0\<rparr>, storage, sz) \<and> unat sz * 4 = length storage \<and>
    fr_ts_queue_init (Some (Some \<lparr>fq_handle = 0\<rparr>, sz)) 77 = Inr (Some \<lparr>fq_handle = 77\<rparr>)"
  using fr_stores_fit [of 4 2 "\<lparr>fs_num_elements = 2, fs_storage_array = replicate 8 0, fs_queue = \<lparr>fq_handle = 0\<rparr>\<rparr>" 8 1024
      "\<lparr>sk_stack = 4096, sk_stack_size = 1024, sk_tsk = zero_task\<rparr>" 4 77 5 None 1 9 0]
  by (auto simp: fr_ts_queue_store_decl_def power_of_2_def fr_task_static_store_decl_def)

end
