(* ===== verification/Diagnostics.thy ===== *)
theory Diagnostics
  imports Logger
begin

text \<open>
  The macros of \<open>inc/cutils/logger.h\<close> over \<open>console_log\<close>: the general logger and \<open>CLOG\<close>, the checks that log
  and leave a function, the assertion that logs, the bits of a byte as text, and the time a call takes.
  What \<open>vsprintf\<close> makes of the part of the format that the caller gives is a parameter, as in the theory of the
  logger; the text of a checked expression (\<open>#expr\<close>) is a part of that format.
\<close>

section \<open>Loggers\<close>

definition simple_logger_static :: "ctext \<Rightarrow> bool \<Rightarrow> simple_logger" where
  "simple_logger_static prefix enabled =
     \<lparr>sl_base = \<lparr>fnPrefix = Some (SimpleLoggerPrefix prefix), isEnabled = enabled, log_level = 0\<rparr>,
      pPrefix = prefix\<rparr>"

definition simple_logger_assign :: "simple_logger \<Rightarrow> ctext \<Rightarrow> bool \<Rightarrow> simple_logger" where
  "simple_logger_assign lg prefix enabled =
     lg\<lparr>sl_base := (sl_base lg)\<lparr>isEnabled := enabled, fnPrefix := Some (SimpleLoggerPrefix prefix), log_level := 0\<rparr>,
        pPrefix := prefix\<rparr>"

definition general_logger :: simple_logger where
  "general_logger = simple_logger_static (literal ''general'') True"

section \<open>Messages and checks\<close>

text \<open>\<open>func\<close> and \<open>line\<close> are \<open>__FUNCTION__\<close> and \<open>__LINE__\<close>, \<open>rendered\<close> is what \<open>str\<close> and its arguments become.\<close>

definition clog ::
  "ctext \<Rightarrow> nat \<Rightarrow> ctext \<Rightarrow> ctext option \<Rightarrow> ctext \<Rightarrow> ctext \<Rightarrow> ctext option res" where
  "clog func line str rendered stamp buf =
     console_log (Some (sl_base general_logger)) NULL (literal ''%s(%u): '' @ str)
       (map_option (\<lambda>t. func @ literal ''('' @ decimal line @ literal ''): '' @ t) rendered) stamp buf"

text \<open>What is printed, and the value the enclosing function returns if it returns here.\<close>

definition check_returnf ::
  "bool \<Rightarrow> ctext \<Rightarrow> 'a \<Rightarrow> ctext \<Rightarrow> nat \<Rightarrow> ctext \<Rightarrow> ctext option \<Rightarrow> ctext \<Rightarrow> ctext
    \<Rightarrow> (ctext option \<times> 'a option) res" where
  "check_returnf expr expr_text retval func line str rendered stamp buf =
     (if \<not> expr
      then bind_res (clog func line (expr_text @ literal '' failed - '' @ str) rendered stamp buf) (\<lambda>out.
             Inr (out, Some retval))
      else Inr (None, None))"

definition check_return ::
  "bool \<Rightarrow> ctext \<Rightarrow> 'a \<Rightarrow> ctext \<Rightarrow> nat \<Rightarrow> ctext option \<Rightarrow> ctext \<Rightarrow> ctext
    \<Rightarrow> (ctext option \<times> 'a option) res" where
  "check_return expr expr_text retval func line rendered stamp buf =
     (if \<not> expr
      then bind_res (clog func line (expr_text @ literal '' failed '') rendered stamp buf) (\<lambda>out.
             Inr (out, Some retval))
      else Inr (None, None))"

text \<open>\<open>run_lines\<close> act on the state of the enclosing function.\<close>

definition check_run ::
  "bool \<Rightarrow> ctext \<Rightarrow> ('s \<Rightarrow> 's) \<Rightarrow> ctext \<Rightarrow> nat \<Rightarrow> ctext \<Rightarrow> ctext option \<Rightarrow> ctext \<Rightarrow> ctext \<Rightarrow> 's
    \<Rightarrow> (ctext option \<times> 's) res" where
  "check_run expr expr_text run_lines func line str rendered stamp buf s =
     (if \<not> expr
      then bind_res (clog func line (expr_text @ literal '' failed - '' @ str) rendered stamp buf) (\<lambda>out.
             Inr (out, run_lines s))
      else Inr (None, s))"

text \<open>What is printed before the fault, and the fault.\<close>

definition cutils_assertf ::
  "bool \<Rightarrow> ctext \<Rightarrow> ctext \<Rightarrow> nat \<Rightarrow> ctext \<Rightarrow> ctext option \<Rightarrow> ctext \<Rightarrow> ctext \<Rightarrow> ctext option \<times> unit res" where
  "cutils_assertf cnd cnd_text func line str rendered stamp buf =
     (if \<not> cnd
      then (case clog func line (cnd_text @ literal '' Assertion failed @ %s line %u: '' @ str) rendered stamp buf of
              Inl e \<Rightarrow> (None, Inl e)
            | Inr out \<Rightarrow> (out, Inl Assert_Failed))
      else (None, Inr ()))"

section \<open>Bits and times\<close>

definition byte_to_binary :: "u8 \<Rightarrow> ctext" where
  "byte_to_binary byte =
     map (\<lambda>mask. if byte AND mask \<noteq> 0 then 0x31 else 0x30) [0x80, 0x40, 0x20, 0x10, 0x08, 0x04, 0x02, 0x01]"

text \<open>
  The counter before and after the call; the first is kept in 32 bits. The difference has the width of the
  counter, 64 bits on the ports of the host.
\<close>

definition timed_func_ms :: "u64 \<Rightarrow> u64 \<Rightarrow> u64" where
  "timed_func_ms before after = (let func_start = (ucast before :: u32) in after - ucast func_start)"

section \<open>Lemmas\<close>

lemma simple_loggers_agree:
  "simple_logger_static = simple_logger_init" "simple_logger_assign lg prefix enabled = simple_logger_init prefix enabled"
  by (intro ext, simp add: simple_logger_static_def simple_logger_init_def)
    (simp add: simple_logger_assign_def simple_logger_init_def)

lemma decimal_nonzero: "0 \<notin> set (decimal n)"
proof (induction n rule: decimal.induct)
  case (1 n)
  have "of_nat (48 + n mod 10) \<noteq> (0 :: u8)"
    by (subst word_of_nat_eq_0_iff) (simp add: dvd_eq_mod_eq_0)
  then show ?case
    using 1 by (subst decimal.simps) (auto split: if_splits)
qed

lemma clog_prints:
  assumes "length buf = 512" and "length stamp \<le> 64" and "length str \<le> 200"
    and "length func + length (decimal line) + length t \<le> 400"
    and "0 \<notin> set stamp" and "0 \<notin> set func" and "0 \<notin> set t"
  shows "clog func line str (Some t) stamp buf =
    Inr (Some (stamp @ literal ''general: '' @ func @ literal ''('' @ decimal line @ literal ''): '' @ t @ [0x0A]))"
proof -
  have "console_log (Some (sl_base general_logger)) NULL (literal ''%s(%u): '' @ str)
      (Some (func @ literal ''('' @ decimal line @ literal ''): '' @ t)) stamp buf =
    Inr (Some (stamp @ literal ''general'' @ [0x3A, 0x20] @ (func @ literal ''('' @ decimal line @ literal ''): '' @ t) @ [0x0A]))"
    using assms decimal_nonzero [of line]
    by (intro console_log_prints) (simp_all add: general_logger_def simple_logger_static_def)
  then show ?thesis by (simp add: clog_def)
qed

text \<open>The bits of a character of text, the first character being the most significant one.\<close>

definition of_binary :: "ctext \<Rightarrow> u8" where
  "of_binary s = horner_sum of_bool 2 (rev (map (\<lambda>c. c = 0x31) s))"

lemma u8_mask_bit:
  "(b :: u8) AND 0x80 \<noteq> 0 \<longleftrightarrow> bit b 7" "b AND 0x40 \<noteq> 0 \<longleftrightarrow> bit b 6" "b AND 0x20 \<noteq> 0 \<longleftrightarrow> bit b 5"
  "b AND 0x10 \<noteq> 0 \<longleftrightarrow> bit b 4" "b AND 0x08 \<noteq> 0 \<longleftrightarrow> bit b 3" "b AND 0x04 \<noteq> 0 \<longleftrightarrow> bit b 2"
  "b AND 0x02 \<noteq> 0 \<longleftrightarrow> bit b 1" "b AND 0x01 \<noteq> 0 \<longleftrightarrow> bit b 0"
  using and_exp_eq_0_iff_not_bit [of b 7] and_exp_eq_0_iff_not_bit [of b 6] and_exp_eq_0_iff_not_bit [of b 5]
    and_exp_eq_0_iff_not_bit [of b 4] and_exp_eq_0_iff_not_bit [of b 3] and_exp_eq_0_iff_not_bit [of b 2]
    and_exp_eq_0_iff_not_bit [of b 1] and_exp_eq_0_iff_not_bit [of b 0]
  by simp_all

lemma ucast_diff_down: "(ucast (x - y :: u64) :: u32) = ucast x - ucast y"
proof -
  have "(a mod 18446744073709551616 - b mod 18446744073709551616) mod 4294967296 =
      (a - b) mod 18446744073709551616 mod (4294967296 :: int)" for a b
    by (subst mod_diff_eq [symmetric]) (simp add: mod_mod_cancel mod_diff_eq)
  then show ?thesis by transfer (simp add: take_bit_eq_mod)
qed

section \<open>Properties\<close>

text \<open>
  (functional) A check that fails prints one line with the function, the line and the message through the
  general logger and then returns the given value, runs the given lines or faults; a check that holds prints
  nothing and goes on.
\<close>

theorem checks_report:
  assumes "length buf = 512" and "length stamp \<le> 64" and "length expr_text + length str \<le> 150"
    and "length func + length (decimal line) + length t \<le> 400"
    and "0 \<notin> set stamp" and "0 \<notin> set func" and "0 \<notin> set t"
    and out: "out = stamp @ literal ''general: '' @ func @ literal ''('' @ decimal line @ literal ''): '' @ t @ [0x0A]"
  shows "check_returnf expr expr_text v func line str (Some t) stamp buf =
      Inr (if expr then (None, None) else (Some out, Some v)) \<and>
    check_return expr expr_text v func line (Some t) stamp buf =
      Inr (if expr then (None, None) else (Some out, Some v)) \<and>
    check_run expr expr_text f func line str (Some t) stamp buf s =
      Inr (if expr then (None, s) else (Some out, f s)) \<and>
    cutils_assertf expr expr_text func line str (Some t) stamp buf =
      (if expr then (None, Inr ()) else (Some out, Inl Assert_Failed))"
proof -
  have "clog func line (expr_text @ literal x @ str) (Some t) stamp buf = Inr (Some out)" if "length x \<le> 50" for x
    using assms that by (subst clog_prints) simp_all
  moreover have "clog func line (expr_text @ literal '' failed '') (Some t) stamp buf = Inr (Some out)"
    using assms by (subst clog_prints) simp_all
  ultimately show ?thesis
    by (simp add: check_returnf_def check_return_def check_run_def cutils_assertf_def del: list.map map_append)
qed

theorem checks_report_witness:
  "check_return False (literal ''p'') (0 :: nat) (literal ''f'') 7 (Some (literal ''p failed '')) [0x5B] (replicate 512 0) =
    Inr (Some ([0x5B] @ literal ''general: f('' @ decimal 7 @ literal ''): p failed '' @ [0x0A]), Some 0)"
  using checks_report [of "replicate 512 0" "[0x5B]" "literal ''p''" "[]" "literal ''f''" 7 "literal ''p failed ''" _ False "0 :: nat"
      "\<lambda>s. s" "()"]
  by (simp add: decimal.simps)

text \<open>
  (roundtrip) The characters of \<open>BYTE_TO_BINARY\<close> are the eight bits of the byte, the most significant first:
  read as a binary number they give the byte back.
\<close>

theorem byte_to_binary_roundtrip: "of_binary (byte_to_binary b) = b"
proof -
  have "[0..<8] = [0, 1, 2, 3, 4, 5, 6, 7 :: nat]" by code_simp
  then have "rev (map (\<lambda>c. c = 0x31) (byte_to_binary b)) = map (bit b) [0..<8]"
    by (simp add: byte_to_binary_def u8_mask_bit if_distrib [of "\<lambda>c. c = 0x31"] del: if_split)
  then show ?thesis by (simp add: of_binary_def horner_sum_bit_eq_take_bit take_bit_word_eq_self)
qed

text \<open>
  (error) \<open>TIMED_FUNC_MS\<close> keeps the start in 32 bits but takes the difference in 64: the result is the time that
  has passed only as long as the counter has not left 32 bits at the start; in 32 bits it is always right.
\<close>

theorem timed_func_ms_wraps:
  assumes "before \<le> after"
  shows "(timed_func_ms before after = after - before \<longleftrightarrow> unat before < 2 ^ 32) \<and>
    (ucast (timed_func_ms before after) :: u32) = ucast (after - before)"
proof -
  have e: "(ucast (ucast before :: u32) :: u64) = take_bit 32 before" by (rule bit_word_eqI) (simp add: bit_simps)
  have "timed_func_ms before after = after - before \<longleftrightarrow> take_bit 32 before = before"
    unfolding timed_func_ms_def Let_def e by auto
  moreover have "take_bit 32 before = before \<longleftrightarrow> unat before < 2 ^ 32"
    unfolding word_unat_eq_iff by (simp add: unsigned_take_bit_eq take_bit_nat_eq_self_iff)
  moreover have "(ucast (take_bit 32 before) :: u32) = ucast before" by (rule bit_word_eqI) (simp add: bit_simps)
  ultimately show ?thesis by (simp add: timed_func_ms_def Let_def e ucast_diff_down)
qed

theorem timed_func_ms_wraps_witness:
  "timed_func_ms 5000000000 5000000007 \<noteq> 7 \<and> timed_func_ms 5 12 = 7"
  using timed_func_ms_wraps [of 5000000000 5000000007] timed_func_ms_wraps [of 5 12] by simp

end
