(* ===== verification/Spec2Isabelle.thy ===== *)
theory Spec2Isabelle
  imports Kqueue Free_List Endian Bst Accumulator Ring_Buffer Ts_Log_Buffer Mutex Event_Flag Queue_Threads
    Notifier State_Machine Task Dispatch_Queue Event_Loop_Threads Asyncio_Threads Stores Container_Stores Ports Diagnostics
begin

text \<open>
  A verification of cutils, a C library of containers, allocators, operating-system wrappers and
  event-driven services for hosts and for FreeRTOS.

  \<^bold>\<open>The program.\<close> At the bottom are containers over memory the caller provides: intrusive lists and queues
  (\<open>klist.h\<close>, \<open>kqueue.h\<close>), a free list, a binary search tree, byte rings (\<open>accumulator.h\<close>, \<open>ring_buffer.c\<close>,
  \<open>log_buffer.c\<close>) and byte swaps. Above an operating system in three ports (\<open>pthread/\<close>, \<open>c11/\<close>, \<open>freertos/\<close>)
  stand mutexes, event flags, signals, tasks and a blocking queue (\<open>ts_queue.h\<close>). The services use both: a
  pool of reference-counted blocks keeps its free blocks in a blocking queue; a dispatch queue is a task that
  takes posts, allocated from a pool, from a blocking queue and runs them; a notifier calls the listeners of a
  category; a state machine hands events to its current state; a state event loop copies an event into a
  pool and posts it to a dispatch queue, whose task hands it to state machines and listeners; the stream
  interface of \<open>asyncio.c\<close> runs a reader and a writer on two dispatch queues.

  \<^bold>\<open>The theories\<close>, in the order of their imports; each operation keeps the name it has in the C source,
  with the prefixes \<open>pt_\<close>, \<open>c11_\<close> and \<open>fr_\<close> where the ports differ, and one in upper-case or camel-case letters
  keeps its spelling.
  \<^item> \<open>Prelude\<close>: machine words, the faults of a C statement (a null dereference, a failed \<open>CUTILS_ASSERT\<close>, an access
    out of bounds, a division by zero, a call through null) with results \<open>fault + 'a\<close>, block copies with their bounds, ring arithmetic.
  \<^item> \<open>Fifo\<close>, \<open>Allocator\<close>, \<open>Runs\<close>: the interfaces (below).
  \<^item> \<open>Klist\<close>, \<open>Kqueue\<close>, \<open>Free_List\<close>: the links of the elements are a memory from addresses to addresses, so that
    stale and shared links are expressible.
  \<^item> \<open>Endian\<close>, \<open>Bst\<close>, \<open>Accumulator\<close>, \<open>Ring_Buffer\<close>, \<open>Log_Buffer\<close>, \<open>Ts_Log_Buffer\<close>: \<open>endian.c\<close>, \<open>bst.c\<close>, \<open>accumulator.h\<close>,
    \<open>ring_buffer.c\<close>, \<open>log_buffer.c\<close>, \<open>ts_log_buffer.c\<close>; buffers are lists of bytes, offsets words of their width.
  \<^item> \<open>Os\<close>, \<open>Mutex\<close>, \<open>Event_Flag\<close>, \<open>Task\<close>: \<open>c11threads.h\<close> and the ports of \<open>mutex.h\<close>, \<open>event_flag.h\<close>, \<open>signal.h\<close>, \<open>task.h\<close>
    and \<open>task.c\<close>. The system's functions are parameters: a wrapper takes the codes they return, a wait the
    sequence of wake-ups it sees, each with what the other threads did before it.
  \<^item> \<open>Ts_Queue\<close>, \<open>Pool\<close>, \<open>Notifier\<close>, \<open>State_Machine\<close>: \<open>ts_queue.h\<close> of the three ports, \<open>pool.h\<close>, \<open>notifier.c\<close>,
    \<open>state_machine.c\<close>. Client functions are parameters that act on the whole state.
  \<^item> \<open>Queue_Threads\<close>: any number of threads that call the \<open>pthread\<close> queue, one step for every access to it.
  \<^item> \<open>Dispatch_Queue\<close>: \<open>dispatch_queue.c\<close>, and the system of any number of posters, the worker and the destroyer.
  \<^item> \<open>State_Event_Loop\<close>, \<open>Event_Loop_Threads\<close>: \<open>state_event_loop.c\<close>, and its posters and worker as a concurrent system.
  \<^item> \<open>Asyncio_Protocol\<close>, \<open>Asyncio\<close>, \<open>Asyncio_Threads\<close>: the abstract start and stop protocol of a stream, the functions of
    \<open>asyncio.c\<close>, and these as threads, which refine the protocol.
  \<^item> \<open>Stores\<close>, \<open>Container_Stores\<close>: the macros that declare static storage and fill in creation parameters from it.
  \<^item> \<open>Ports\<close>: priorities, and what the C11 and FreeRTOS ports have of their own in creation and storage.
  \<^item> \<open>Logger\<close>, \<open>Diagnostics\<close>: \<open>logger.c\<close>, the enumeration macros of \<open>types.h\<close>, and the macros for messages, checks
    and assertions.

  \<^bold>\<open>The interfaces.\<close> Each locale is interpreted on the definitions that model the code.
  \<^item> \<open>fifo_queue\<close>: items come out in the order they went in, whatever the interleaving. Interpretations \<open>kq\<close>
    (\<open>Kqueue\<close>) and \<open>tsq\<close> (\<open>Ts_Queue\<close>).
  \<^item> \<open>block_allocator\<close>: no block is free and held, and none is handed out twice. Interpretations \<open>fl\<close> (\<open>Free_List\<close>)
    and \<open>pl\<close> (\<open>Pool\<close>).
  \<^item> \<open>op_simulation\<close>: an operation that agrees with a step of a specification does so in every sequence.
    Interpretations \<open>rbq\<close> (\<open>Ring_Buffer\<close>, a bounded queue) and \<open>accw\<close> (\<open>Accumulator\<close>, a window of bytes).
  \<^item> \<open>budgeted_system\<close>: an invariant with a budget, lowered by one in every step, holds in every state
    reached within it. Interpretations \<open>qts\<close>, \<open>dqs\<close>, \<open>els\<close> and \<open>aios\<close>, for the four concurrent systems.

  \<^bold>\<open>What is shown.\<close> For every container a representation invariant that all operations keep, and its
  refinement of a sequence, a window, a table or a sorted list. For the waits of the ports, soundness (a wait
  that succeeds has what it waited for) and that they return. For the blocking queue, that it is linearizable, and
  the condition on the clock this needs. For the dispatch queue, in every interleaving:
  the functions run are a prefix of those queued, in order and once, at its end exactly those queued before
  the destruction, and without a destroyer the worker is never stuck. For the state event loop the same from the call of a
  poster to the machines and listeners, the contents of the events included, and when a post fails. For the
  stream: its threads refine the protocol; when the wait of a start ends the configured sides are up, when that of a
  stop ends both are down and no write is queued or running; at most one read is under way; as long as a
  client waits, a worker has something to do. Where the code falls short of its documentation, a theorem shows a run in which it does.

  \<^bold>\<open>Granularity.\<close> The other concurrent systems take an operation under a mutex for one step. \<open>ts_queue_linearizable\<close>
  justifies this for the blocking queue, under a condition: \<open>mutex_lock\<close> with \<open>WAIT_FOREVER\<close> is a timed lock that fails on a
  held mutex when the clock is in the last 295 milliseconds of a second, its callers do not look at the result,
  and \<open>ts_queue_lock_failure\<close> shows an item lost then. The theorems about those systems are for runs in which the lock is taken.

  \<^bold>\<open>Bounds and fuel.\<close> The counters of a blocking queue are 64-bit and its test for fullness adds the capacity:
  the order is shown for as many operations as keep the sum below \<open>2 ^ 64\<close> (the budget of the concurrent
  systems), and a theorem shows what happens at the wrap. The polling loop of \<open>mtx_timedlock\<close> has fuel, and
  enough of it is shown to give a result whenever a poll takes the mutex or reaches the deadline. A wait consumes
  its list of wake-ups; that it returns is shown for a list in which the event comes. Other loops are
  recursive over the data, with their termination proved. Structure sizes are those of a machine with 8-byte pointers.

  \<^bold>\<open>Not modelled.\<close> The tests and their start-up code; the vendored unit-test framework; the build files and
  the templates that select a port; printing itself, with what \<open>vsprintf\<close> renders a parameter, and
  \<open>console_log_raw\<close>, which only forwards to it; \<open>CLOG_FIELD\<close>, which only the tests use, and \<open>TIMED_FUNC_US\<close>, which
  calls functions of another system; on FreeRTOS \<open>task_get_ticks\<close> and the memory hooks, which return
  a kernel counter and the address of a static array; the timed posts of the dispatch queue, which are
  compiled out; the alignment attributes of static storage except that of a FreeRTOS stack.
\<close>

end
